(* ===== verification/Prelude.thy ===== *)
theory Prelude
  imports Main "HOL-Library.Word"
begin

text \<open>
  Shared vocabulary of the development: the C integer types, the result type of kernel
  functions (a value, a kernel panic, a memory fault, or going to sleep), the sequencing
  combinators that stand for C statement sequences and \<open>for\<close> loops, the first-match
  scan over a fixed table that most kernel routines perform, and the lemma collections the
  component theories extend.
\<close>

unbundle bit_operations_syntax

section \<open>Lemma collections\<close>

named_theorems kdefs
  \<open>unfolding rules for the small operations that component proofs open\<close>

named_theorems kinv
  \<open>preservation lemmas: every operation keeps the invariant of its component\<close>

named_theorems kframe
  \<open>frame lemmas: state an operation does not touch\<close>

section \<open>C types\<close>

text \<open>\<open>uchar\<close> and \<open>uint\<close> of types.h; addresses are \<open>uint\<close> on this machine.\<close>

type_synonym byte = "8 word"

type_synonym uint = "32 word"

type_synonym addr = "32 word"

section \<open>Address arithmetic\<close>

lemma unat_plus_simple: "unat (a::uint) + n < 2 ^ 32 \<Longrightarrow> unat (a + of_nat n) = unat a + n"
  by (simp add: unat_word_ariths unat_of_nat)

lemma unat_inj: "unat (a::uint) = unat b \<Longrightarrow> a = b"
  by (metis unsigned_word_eqI)

lemma unat_inc: "unat (a::uint) + 1 < 2 ^ 32 \<Longrightarrow> unat (a + 1) = unat a + 1"
  by (simp add: unat_word_ariths)

lemma unat_dec: "0 < unat (a::uint) \<Longrightarrow> unat (a - 1) = unat a - 1"
  by (metis One_nat_def less_one linorder_not_le unat_minus_one unat_0 less_irrefl)

lemma unat_minus_le: "unat (b::uint) \<le> unat a \<Longrightarrow> unat (a - b) = unat a - unat b"
  by (simp add: unat_sub word_le_nat_alt)

lemma in_range_iff:
  "unat d + n \<le> 2 ^ 32 \<Longrightarrow> unat ((a::uint) - d) < n \<longleftrightarrow> unat d \<le> unat a \<and> unat a < unat d + n"
proof (cases "unat d \<le> unat a")
  case True
  then show ?thesis by (auto simp: unat_minus_le)
next
  case False
  assume "unat d + n \<le> 2 ^ 32"
  have "unat (a - d) = (2 ^ 32 - unat d + unat a) "
    using False unsigned_less [of d, where 'a = nat] by (simp add: unat_sub_if')
  then show ?thesis using False \<open>unat d + n \<le> 2 ^ 32\<close> by auto
qed

lemma of_nat_uint_neq_0: "0 < k \<Longrightarrow> k < 2 ^ 32 \<Longrightarrow> (of_nat k :: uint) \<noteq> 0"
proof
  assume k: "0 < k" "k < 2 ^ 32" and "(of_nat k :: uint) = 0"
  then have "unat (of_nat k :: uint) = 0" by simp
  with k show False by (simp add: unat_of_nat)
qed

lemma next_range: "Suc n \<le> 2 ^ 32 \<Longrightarrow> i < n \<Longrightarrow> (s::uint) \<noteq> s + 1 + of_nat i"
  using of_nat_uint_neq_0 [of "Suc i"] by (simp add: add.assoc)

section \<open>Names of locks and sleep channels\<close>

text \<open>
  A spin lock is identified by the object it is embedded in; so is a sleep lock. Pipes live in
  pages obtained from the page allocator, so their locks are named by the page address.
\<close>

datatype sleepid = BufSL nat | InodeSL nat

datatype lockid =
    PtableLk | KmemLk | TicksLk | BcacheLk | LogLk | IcacheLk | FtableLk | ConsLk | IdeLk
  | PipeLk addr | SleepLk sleepid

text \<open>The addresses the kernel passes to \<open>sleep\<close> and \<open>wakeup\<close>.\<close>

datatype chan =
    CProc nat | CTicks | CLog | CBuf nat | CSleep sleepid | CPipeR addr | CPipeW addr | CInput

section \<open>Outcomes of kernel code\<close>

text \<open>
  \<open>Panic\<close> is a call of \<open>panic\<close> with its message. \<open>Fault\<close> is an access outside an object,
  which C leaves undefined. \<open>Swtch s\<close> means that the calling process has switched to the CPU's
  scheduler (it sleeps, yields or exits), leaving the state \<open>s\<close> behind; what the process does when
  it is scheduled again is a function of its own, named after the caller with \<open>_resume\<close>.
\<close>

datatype ('a, 's) outcome = Ret 'a 's | Panic string | Fault string | Swtch 's

fun bindK :: "('a, 's) outcome \<Rightarrow> ('a \<Rightarrow> 's \<Rightarrow> ('b, 's) outcome) \<Rightarrow> ('b, 's) outcome" where
  "bindK (Ret a s) f = f a s"
| "bindK (Panic m) f = Panic m"
| "bindK (Fault m) f = Fault m"
| "bindK (Swtch s) f = Swtch s"

fun forK :: "('i \<Rightarrow> 's \<Rightarrow> (unit, 's) outcome) \<Rightarrow> 'i list \<Rightarrow> 's \<Rightarrow> (unit, 's) outcome" where
  "forK body [] s = Ret () s"
| "forK body (i # is) s = bindK (body i s) (\<lambda>_ s. forK body is s)"

text \<open>\<open>returns P m\<close>: the code comes back normally with a result that satisfies \<open>P\<close>.\<close>

fun returns :: "('a \<Rightarrow> 's \<Rightarrow> bool) \<Rightarrow> ('a, 's) outcome \<Rightarrow> bool" where
  "returns P (Ret a s) = P a s"
| "returns P (Panic m) = False"
| "returns P (Fault m) = False"
| "returns P (Swtch s) = False"

lemma bindK_eq_Ret [simp]:
  "bindK m f = Ret b t \<longleftrightarrow> (\<exists>a s. m = Ret a s \<and> f a s = Ret b t)"
  by (cases m) auto

lemma bindK_eq_Swtch [simp]:
  "bindK m f = Swtch t \<longleftrightarrow> m = Swtch t \<or> (\<exists>a s. m = Ret a s \<and> f a s = Swtch t)"
  by (cases m) auto

lemma bindK_cong [fundef_cong]:
  "m = m' \<Longrightarrow> (\<And>a s. m' = Ret a s \<Longrightarrow> f a s = g a s) \<Longrightarrow> bindK m f = bindK m' g"
  by (cases m') auto

lemma bindK_assoc: "bindK (bindK m f) g = bindK m (\<lambda>a s. bindK (f a s) g)"
  by (cases m) auto

lemma returns_iff: "returns P m \<longleftrightarrow> (\<exists>a s. m = Ret a s \<and> P a s)"
  by (cases m) auto

lemma returns_bindK:
  "returns P m \<Longrightarrow> (\<And>a s. P a s \<Longrightarrow> returns Q (f a s)) \<Longrightarrow> returns Q (bindK m f)"
  by (cases m) auto

lemma returns_mono: "returns P m \<Longrightarrow> (\<And>a s. P a s \<Longrightarrow> Q a s) \<Longrightarrow> returns Q m"
  by (cases m) auto

lemma forK_append: "forK b (xs @ ys) s = bindK (forK b xs s) (\<lambda>_ s. forK b ys s)"
proof (induction xs arbitrary: s)
  case (Cons x xs)
  then show ?case by (cases "b x s") auto
qed simp

text \<open>The loop rule: what every iteration keeps, the whole loop keeps.\<close>

lemma forK_invariant:
  assumes "forK body is s = Ret u t" and "I s"
    and "\<And>i s t. i \<in> set is \<Longrightarrow> I s \<Longrightarrow> body i s = Ret () t \<Longrightarrow> I t"
  shows "I t"
  using assms by (induction "is" arbitrary: s) auto

lemma forK_returns:
  assumes "I 0 s"
    and "\<And>k s. k < length is \<Longrightarrow> I k s \<Longrightarrow> returns (\<lambda>_. I (Suc k)) (body (is ! k) s)"
  shows "returns (\<lambda>_. I (length is)) (forK body is s)"
  using assms
proof (induction "is" arbitrary: s I)
  case Nil
  then show ?case by simp
next
  case (Cons i "is")
  have "returns (\<lambda>_. I (Suc 0)) (body i s)"
    using Cons.prems(1) Cons.prems(2)[of 0 s] by simp
  moreover have "returns (\<lambda>_. I (Suc (length is))) (forK body is s1)" if "I (Suc 0) s1" for s1
    using that Cons.prems(2)[of "Suc k" for k]
    by (intro Cons.IH[of "\<lambda>k. I (Suc k)"]) auto
  ultimately show ?case
    by (auto intro: returns_bindK)
qed

section \<open>Scanning a fixed table\<close>

text \<open>\<open>for (i = 0; i < n; i++) if (P(i)) break;\<close> The result is the index where it stops.\<close>

definition scan :: "(nat \<Rightarrow> bool) \<Rightarrow> nat \<Rightarrow> nat option" where
  "scan P n = List.find P [0..<n]"

lemma scan_Some_iff:
  "scan P n = Some i \<longleftrightarrow> i < n \<and> P i \<and> (\<forall>j<i. \<not> P j)"
  by (auto simp: scan_def find_Some_iff)

lemma scan_None_iff: "scan P n = None \<longleftrightarrow> (\<forall>i<n. \<not> P i)"
  by (auto simp: scan_def find_None_iff)

lemma scan_SomeD:
  assumes "scan P n = Some i"
  shows "i < n" and "P i" and "j < i \<Longrightarrow> \<not> P j"
  using assms by (auto simp: scan_Some_iff)

lemma scan_SomeI: "i < n \<Longrightarrow> P i \<Longrightarrow> (\<And>j. j < i \<Longrightarrow> \<not> P j) \<Longrightarrow> scan P n = Some i"
  by (simp add: scan_Some_iff)

lemma scan_ex: "i < n \<Longrightarrow> P i \<Longrightarrow> \<exists>j. scan P n = Some j"
  by (cases "scan P n") (auto simp: scan_None_iff)

lemma scan_cong: "(\<And>i. i < n \<Longrightarrow> P i = Q i) \<Longrightarrow> scan P n = scan Q n"
  unfolding scan_def by (rule find_cong) auto

text \<open>\<open>for (i = 0; i < n; i++) tab[i] = f(tab[i]);\<close>\<close>

definition for_each :: "nat \<Rightarrow> ('a \<Rightarrow> 'a) \<Rightarrow> (nat \<Rightarrow> 'a) \<Rightarrow> (nat \<Rightarrow> 'a)" where
  "for_each n f tab = fold (\<lambda>i tab. tab(i := f (tab i))) [0..<n] tab"

lemma for_each_apply [simp]: "for_each n f tab i = (if i < n then f (tab i) else tab i)"
  unfolding for_each_def by (induction n arbitrary: i) (auto simp: less_Suc_eq)

section \<open>Spin locks as one CPU sees them\<close>

text \<open>
  The base of the kernel state: the spin locks the executing CPU holds, innermost first. Theory
  Spinlock models spinlock.c on all CPUs at the granularity of its atomic instructions and
  proves that this view is what it provides.
\<close>

record kbase =
  held :: "lockid list"

definition acquire :: "lockid \<Rightarrow> 'a kbase_scheme \<Rightarrow> (unit, 'a kbase_scheme) outcome" where
  "acquire l s = (if l \<in> set (held s) then Panic ''acquire'' else Ret () (s\<lparr>held := l # held s\<rparr>))"

definition release :: "lockid \<Rightarrow> 'a kbase_scheme \<Rightarrow> (unit, 'a kbase_scheme) outcome" where
  "release l s =
     (if l \<in> set (held s) then Ret () (s\<lparr>held := remove1 l (held s)\<rparr>) else Panic ''release'')"

definition initlock :: "lockid \<Rightarrow> 'a kbase_scheme \<Rightarrow> 'a kbase_scheme" where
  "initlock l s = s\<lparr>held := removeAll l (held s)\<rparr>"

lemma acquire_free [simp]: "l \<notin> set (held s) \<Longrightarrow> acquire l s = Ret () (s\<lparr>held := l # held s\<rparr>)"
  by (simp add: acquire_def)

lemma acquire_held [simp]: "l \<in> set (held s) \<Longrightarrow> acquire l s = Panic ''acquire''"
  by (simp add: acquire_def)

lemma release_top [simp]: "held s = l # ls \<Longrightarrow> release l s = Ret () (s\<lparr>held := ls\<rparr>)"
  by (simp add: release_def)

lemma acquire_Ret_iff:
  "acquire l s = Ret u t \<longleftrightarrow> l \<notin> set (held s) \<and> t = s\<lparr>held := l # held s\<rparr>"
  by (auto simp: acquire_def)

lemma release_Ret_iff:
  "release l s = Ret u t \<longleftrightarrow> l \<in> set (held s) \<and> t = s\<lparr>held := remove1 l (held s)\<rparr>"
  by (auto simp: release_def)

lemmas lock_iffs = acquire_Ret_iff release_Ret_iff

end
