(* ===== verification/Cstring.thy ===== *)
theory Cstring
  imports Prelude
begin

text \<open>
  The byte-string routines of string.c over a flat memory, together with the string
  instructions of x86.h they are built on. A pointer is a 32-bit address; every loop of the
  source is a recursion on its counter.
\<close>

type_synonym memory = "addr \<Rightarrow> byte"

section \<open>Loads and stores of 32-bit values\<close>

text \<open>The machine is little endian.\<close>

definition load32 :: "memory \<Rightarrow> addr \<Rightarrow> uint" where
  "load32 m a = ucast (m a) OR push_bit 8 (ucast (m (a + 1)))
     OR push_bit 16 (ucast (m (a + 2))) OR push_bit 24 (ucast (m (a + 3)))"

definition store32 :: "addr \<Rightarrow> uint \<Rightarrow> memory \<Rightarrow> memory" where
  "store32 a v m = m(a := ucast v, a + 1 := ucast (drop_bit 8 v),
     a + 2 := ucast (drop_bit 16 v), a + 3 := ucast (drop_bit 24 v))"

section \<open>The routines\<close>

primrec stosb :: "nat \<Rightarrow> addr \<Rightarrow> byte \<Rightarrow> memory \<Rightarrow> memory" where
  "stosb 0 d c m = m"
| "stosb (Suc n) d c m = stosb n (d + 1) c (m(d := c))"

primrec stosl :: "nat \<Rightarrow> addr \<Rightarrow> uint \<Rightarrow> memory \<Rightarrow> memory" where
  "stosl 0 d v m = m"
| "stosl (Suc n) d v m = stosl n (d + 4) v (store32 d v m)"

definition memset :: "addr \<Rightarrow> uint \<Rightarrow> uint \<Rightarrow> memory \<Rightarrow> memory" where
  "memset dst c n m =
     (if dst mod 4 = 0 \<and> n mod 4 = 0 then
        (let c = c AND 0xFF
         in stosl (unat (n div 4)) dst
              (push_bit 24 c OR push_bit 16 c OR push_bit 8 c OR c) m)
      else stosb (unat n) dst (ucast c) m)"

fun memcmp_loop :: "nat \<Rightarrow> addr \<Rightarrow> addr \<Rightarrow> memory \<Rightarrow> int" where
  "memcmp_loop 0 s1 s2 m = 0"
| "memcmp_loop (Suc n) s1 s2 m =
     (if m s1 \<noteq> m s2 then uint (m s1) - uint (m s2) else memcmp_loop n (s1 + 1) (s2 + 1) m)"

definition memcmp :: "addr \<Rightarrow> addr \<Rightarrow> uint \<Rightarrow> memory \<Rightarrow> int" where
  "memcmp v1 v2 n m = memcmp_loop (unat n) v1 v2 m"

primrec copy_fwd :: "nat \<Rightarrow> addr \<Rightarrow> addr \<Rightarrow> memory \<Rightarrow> memory" where
  "copy_fwd 0 d s m = m"
| "copy_fwd (Suc n) d s m = copy_fwd n (d + 1) (s + 1) (m(d := m s))"

primrec copy_bwd :: "nat \<Rightarrow> addr \<Rightarrow> addr \<Rightarrow> memory \<Rightarrow> memory" where
  "copy_bwd 0 d s m = m"
| "copy_bwd (Suc n) d s m = copy_bwd n (d - 1) (s - 1) (m(d - 1 := m (s - 1)))"

definition memmove :: "addr \<Rightarrow> addr \<Rightarrow> uint \<Rightarrow> memory \<Rightarrow> memory" where
  "memmove dst src n m =
     (if src < dst \<and> src + n > dst then copy_bwd (unat n) (dst + n) (src + n) m
      else copy_fwd (unat n) dst src m)"

fun strncmp :: "addr \<Rightarrow> addr \<Rightarrow> nat \<Rightarrow> memory \<Rightarrow> int" where
  "strncmp p q 0 m = 0"
| "strncmp p q (Suc n) m =
     (if m p \<noteq> 0 \<and> m p = m q then strncmp (p + 1) (q + 1) n m
      else uint (m p) - uint (m q))"

fun strncpy_pad :: "nat \<Rightarrow> addr \<Rightarrow> memory \<Rightarrow> memory" where
  "strncpy_pad 0 s m = m"
| "strncpy_pad (Suc n) s m = strncpy_pad n (s + 1) (m(s := 0))"

fun strncpy_copy :: "nat \<Rightarrow> addr \<Rightarrow> addr \<Rightarrow> memory \<Rightarrow> memory" where
  "strncpy_copy 0 s t m = m"
| "strncpy_copy (Suc n) s t m =
     (let m' = m(s := m t)
      in if m t \<noteq> 0 then strncpy_copy n (s + 1) (t + 1) m' else strncpy_pad n (s + 1) m')"

definition strncpy :: "addr \<Rightarrow> addr \<Rightarrow> int \<Rightarrow> memory \<Rightarrow> memory" where
  "strncpy s t n m = strncpy_copy (nat n) s t m"

fun safestrcpy_loop :: "nat \<Rightarrow> addr \<Rightarrow> addr \<Rightarrow> memory \<Rightarrow> memory" where
  "safestrcpy_loop 0 s t m = m(s := 0)"
| "safestrcpy_loop (Suc n) s t m =
     (let m' = m(s := m t)
      in if m t \<noteq> 0 then safestrcpy_loop n (s + 1) (t + 1) m' else m'(s + 1 := 0))"

definition safestrcpy :: "addr \<Rightarrow> addr \<Rightarrow> int \<Rightarrow> memory \<Rightarrow> memory" where
  "safestrcpy s t n m = (if n \<le> 0 then m else safestrcpy_loop (nat (n - 1)) s t m)"

partial_function (option) strlen_loop :: "memory \<Rightarrow> addr \<Rightarrow> nat \<Rightarrow> nat option" where
  "strlen_loop m s n = (if m (s + of_nat n) \<noteq> 0 then strlen_loop m s (n + 1) else Some n)"

definition strlen :: "addr \<Rightarrow> memory \<Rightarrow> nat option" where
  "strlen s m = strlen_loop m s 0"

section \<open>What the routines should do\<close>

text \<open>
  The reference definitions: a block copy of memory as it was before the call, the C string of at
  most \<open>n\<close> bytes at an address, the \<open>n\<close> bytes at an address, and ranges with no byte in common.
\<close>

definition range_copy :: "addr \<Rightarrow> addr \<Rightarrow> nat \<Rightarrow> memory \<Rightarrow> memory" where
  "range_copy d s n m = (\<lambda>a. if unat (a - d) < n then m (s + (a - d)) else m a)"

primrec cstr :: "nat \<Rightarrow> addr \<Rightarrow> memory \<Rightarrow> byte list" where
  "cstr 0 p m = []"
| "cstr (Suc n) p m = (if m p = 0 then [] else m p # cstr n (p + 1) m)"

primrec bytes :: "nat \<Rightarrow> addr \<Rightarrow> memory \<Rightarrow> byte list" where
  "bytes 0 p m = []"
| "bytes (Suc n) p m = m p # bytes n (p + 1) m"

definition apart :: "addr \<Rightarrow> nat \<Rightarrow> addr \<Rightarrow> nat \<Rightarrow> bool" where
  "apart a n b k \<longleftrightarrow> (\<forall>i<n. \<forall>j<k. a + of_nat i \<noteq> b + of_nat j)"

section \<open>Block operations\<close>

lemma stosb_apply:
  "n \<le> 2 ^ 32 \<Longrightarrow> stosb n d c m a = (if unat (a - d) < n then c else m a)"
proof (induction n arbitrary: d m)
  case 0
  then show ?case by simp
next
  case (Suc n)
  have *: "unat (a - (d + 1)) < n \<or> a = d \<longleftrightarrow> unat (a - d) < Suc n"
  proof (cases "a = d")
    case False
    then have "0 < unat (a - d)" by (simp add: unat_gt_0)
    then have "unat (a - d - 1) = unat (a - d) - 1" by (rule unat_dec)
    moreover have "a - (d + 1) = a - d - 1" by simp
    ultimately show ?thesis using False \<open>0 < unat (a - d)\<close> by (metis Suc_diff_1 not_less_eq One_nat_def)
  qed simp
  show ?case
    using Suc * by auto
qed

lemma copy_fwd_range:
  assumes "unat d + n \<le> 2 ^ 32" "unat s + n \<le> 2 ^ 32"
    and "unat d \<le> unat s \<or> unat s + n \<le> unat d"
  shows "copy_fwd n d s m = range_copy d s n m"
  using assms
proof (induction n arbitrary: d s m)
  case 0
  then show ?case by (simp add: range_copy_def)
next
  case (Suc n)
  show ?case
  proof (cases n)
    case 0
    then show ?thesis by (auto simp: range_copy_def fun_eq_iff unat_eq_zero)
  next
    case (Suc k)
    have d1: "unat (d + 1) = unat d + 1" and s1: "unat (s + 1) = unat s + 1"
      using Suc.prems Suc by (intro unat_inc; linarith)+
    have "copy_fwd (Suc n) d s m = range_copy (d + 1) (s + 1) n (m(d := m s))"
      using Suc.prems d1 s1 by (subst copy_fwd.simps, intro Suc.IH) auto
    also have "\<dots> = range_copy d s (Suc n) m"
    proof
      fix a
      have src: "s + (a - d) \<noteq> d" if "unat d + 1 \<le> unat a" "unat a < unat d + 1 + n"
      proof -
        have "unat (s + (a - d)) = unat s + (unat a - unat d)"
          using that Suc.prems by (simp add: unat_word_ariths unat_minus_le)
        then have "unat (s + (a - d)) \<noteq> unat d" using that Suc.prems by linarith
        then show ?thesis by metis
      qed
      have rew: "s + 1 + (a - (d + 1)) = s + (a - d)" by simp
      have r1: "unat (a - (d + 1)) < n \<longleftrightarrow> unat d < unat a \<and> unat a \<le> unat d + n"
        using in_range_iff [of "d + 1" n a] d1 Suc.prems by auto
      have r2: "unat (a - d) < Suc n \<longleftrightarrow> unat d \<le> unat a \<and> unat a \<le> unat d + n"
        using in_range_iff [of d "Suc n" a] Suc.prems by auto
      consider "a = d" | "unat a < unat d" | "unat d < unat a"
        by (metis linorder_neqE_nat unsigned_word_eqI)
      then show "range_copy (d + 1) (s + 1) n (m(d := m s)) a = range_copy d s (Suc n) m a"
        unfolding range_copy_def rew r1 r2 using src by cases auto
    qed
    finally show ?thesis .
  qed
qed

lemma copy_bwd_range:
  assumes "unat d + n \<le> 2 ^ 32" "unat s + n \<le> 2 ^ 32" and "unat s < unat d"
  shows "copy_bwd n (d + of_nat n) (s + of_nat n) m = range_copy d s n m"
  using assms
proof (induction n arbitrary: m)
  case 0
  then show ?case by (simp add: range_copy_def)
next
  case (Suc n)
  let ?m = "m(d + of_nat n := m (s + of_nat n))"
  have "copy_bwd (Suc n) (d + of_nat (Suc n)) (s + of_nat (Suc n)) m
      = copy_bwd n (d + of_nat n) (s + of_nat n) ?m"
    by (simp add: add.commute add.left_commute)
  also have "\<dots> = range_copy d s n ?m"
    using Suc by simp
  also have "\<dots> = range_copy d s (Suc n) m"
  proof
    fix a
    have dn: "unat (d + of_nat n) = unat d + n"
      using Suc.prems by (simp add: unat_plus_simple)
    have src: "s + (a - d) \<noteq> d + of_nat n" if "unat d \<le> unat a" "unat a < unat d + n"
    proof -
      have "unat (s + (a - d)) = unat s + (unat a - unat d)"
        using that Suc.prems by (simp add: unat_word_ariths unat_minus_le)
      then have "unat (s + (a - d)) \<noteq> unat (d + of_nat n)" using that Suc.prems dn by linarith
      then show ?thesis by metis
    qed
    have r1: "unat (a - d) < n \<longleftrightarrow> unat d \<le> unat a \<and> unat a < unat d + n"
      using in_range_iff [of d n a] Suc.prems by auto
    have r2: "unat (a - d) < Suc n \<longleftrightarrow> unat d \<le> unat a \<and> unat a \<le> unat d + n"
      using in_range_iff [of d "Suc n" a] Suc.prems by auto
    consider "a = d + of_nat n" | "unat a < unat d + n" | "unat d + n < unat a"
      using dn by (metis linorder_neqE_nat unsigned_word_eqI)
    then show "range_copy d s n ?m a = range_copy d s (Suc n) m a"
      unfolding range_copy_def r1 r2 using src dn by cases auto
  qed
  finally show ?case .
qed

lemma memmove_range_copy:
  assumes "unat dst + unat n \<le> 2 ^ 32" "unat src + unat n \<le> 2 ^ 32"
  shows "memmove dst src n m = range_copy dst src (unat n) m"
proof (cases "src < dst \<and> src + n > dst")
  case True
  then have "copy_bwd (unat n) (dst + of_nat (unat n)) (src + of_nat (unat n)) m = range_copy dst src (unat n) m"
    using assms by (intro copy_bwd_range) (auto simp: word_less_nat_alt)
  with True show ?thesis by (simp add: memmove_def)
next
  case False
  have "unat dst \<le> unat src \<or> unat src + unat n \<le> unat dst"
  proof (rule ccontr)
    assume n: "\<not> ?thesis"
    then have "unat (src + n) = unat src + unat n"
      using assms by (simp add: unat_word_ariths)
    with n False show False by (auto simp: word_less_nat_alt)
  qed
  with assms False show ?thesis
    by (auto simp: memmove_def copy_fwd_range)
qed

lemma load32_store32 [simp]: "load32 (store32 a v m) a = v"
proof (rule bit_word_eqI)
  fix n
  assume "n < LENGTH(32)"
  then consider "n < 8" | "8 \<le> n \<and> n < 16" | "16 \<le> n \<and> n < 24" | "24 \<le> n \<and> n < 32"
    by fastforce
  then show "bit (load32 (store32 a v m) a) n = bit v n"
    by cases (auto simp: load32_def store32_def bit_simps)
qed

lemma ff: "(0xFF :: uint) = mask 8"
  by (simp add: mask_eq_exp_minus_1)

lemma stosl_apply:
  assumes "w = push_bit 24 (c AND 0xFF) OR push_bit 16 (c AND 0xFF) OR push_bit 8 (c AND 0xFF) OR (c AND 0xFF)"
  shows "stosl n d w m = stosb (4 * n) d (ucast c) m"
proof (induction n arbitrary: d m)
  case 0
  then show ?case by simp
next
  case (Suc n)
  have b: "ucast w = (ucast c :: byte)" "ucast (drop_bit 8 w) = (ucast c :: byte)" 
     "ucast (drop_bit 16 w) = (ucast c :: byte)" "ucast (drop_bit 24 w) = (ucast c :: byte)"
    unfolding assms ff by (auto simp: bit_simps intro!: bit_word_eqI)
  have n4: "4 * Suc n = Suc (Suc (Suc (Suc (4 * n))))" by simp
  have "stosb (4 * Suc n) d (ucast c) m = stosb (4 * n) (d + 4) (ucast c) (store32 d w m)"
    by (simp only: n4 stosb.simps store32_def b) (simp add: add.assoc)
  with Suc show ?case by simp
qed

lemma memset_apply:
  "memset dst c n m a = (if unat (a - dst) < unat n then ucast c else m a)"
proof (cases "dst mod 4 = 0 \<and> n mod 4 = 0")
  case True
  then have "4 * unat (n div 4) = unat n"
    using unat_mod [of n 4] unat_div [of n 4] mult_div_mod_eq [of 4 "unat n"] by simp
  moreover have "memset dst c n m = stosb (4 * unat (n div 4)) dst (ucast c) m"
    unfolding memset_def Let_def using True by (simp only: stosl_apply [OF refl] if_True simp_thms)
  ultimately show ?thesis
    using unsigned_less [of n, where 'a = nat] by (simp add: stosb_apply)
next
  case False
  then show ?thesis
    using unsigned_less [of n, where 'a = nat] by (auto simp: memset_def stosb_apply)
qed

section \<open>Strings\<close>

lemma length_cstr: "length (cstr n p m) \<le> n"
  by (induction n arbitrary: p) auto

lemma byte_diff_eq_0 [simp]: "uint (a::byte) - uint b = 0 \<longleftrightarrow> a = b"
  by (simp add: word_uint_eq_iff)

lemma strncmp_eq_0_iff: "strncmp p q n m = 0 \<longleftrightarrow> cstr n p m = cstr n q m"
proof (induction n arbitrary: p q)
  case (Suc n)
  show ?case
    by (cases "m p \<noteq> 0 \<and> m p = m q") (auto simp: Suc unsigned_eq_0_iff simp del: right_minus_eq)
qed simp

lemma cstr_agree: "(\<And>i. i < n \<Longrightarrow> m (p + of_nat i) = m' (p + of_nat i)) \<Longrightarrow> cstr n p m = cstr n p m'"
proof (induction n arbitrary: p)
  case (Suc n)
  have "m (p + 1 + of_nat i) = m' (p + 1 + of_nat i)" if "i < n" for i
    using Suc.prems [of "Suc i"] that by (simp add: add.assoc)
  moreover have "m p = m' p" using Suc.prems [of 0] by simp
  ultimately show ?case using Suc.IH [of "p + 1"] by simp
qed simp

lemma strncpy_pad_apply:
  "n \<le> 2 ^ 32 \<Longrightarrow> strncpy_pad n s m = stosb n s 0 m"
  by (induction n arbitrary: s m) auto

lemma strncpy_copy_frame:
  "(\<And>i. i < n \<Longrightarrow> a \<noteq> s + of_nat i) \<Longrightarrow> strncpy_copy n s t m a = m a"
proof (induction n arbitrary: s t m)
  case (Suc n)
  have "a \<noteq> s" using Suc.prems [of 0] by simp
  moreover have "a \<noteq> s + 1 + of_nat i" if "i < n" for i
    using Suc.prems [of "Suc i"] that by (simp add: add.assoc)
  moreover have "strncpy_pad k s' m' a = m' a" if "\<And>i. i < k \<Longrightarrow> a \<noteq> s' + of_nat i" for k s' m'
    using that
  proof (induction k arbitrary: s' m')
    case (Suc k)
    have "a \<noteq> s'" using Suc.prems [of 0] by simp
    moreover have "a \<noteq> s' + 1 + of_nat i" if "i < k" for i
      using Suc.prems [of "Suc i"] that by (simp add: add.assoc)
    ultimately show ?case using Suc.IH by simp
  qed simp
  ultimately show ?case using Suc.IH by (simp add: Let_def)
qed simp
lemma apart_Suc:
  assumes "apart s (Suc n) t (Suc k)"
  shows "apart (s + 1) n (t + 1) k" and "apart s 1 (t + 1) k" and "t \<noteq> s"
proof -
  from assms have ne: "s + of_nat i \<noteq> t + of_nat j" if "i < Suc n" "j < Suc k" for i j
    using that unfolding apart_def by blast
  show "apart (s + 1) n (t + 1) k" unfolding apart_def
  proof (intro allI impI)
    fix i j assume "i < n" "j < k"
    with ne [of "Suc i" "Suc j"] show "s + 1 + of_nat i \<noteq> t + 1 + of_nat j" by (simp add: add.commute add.left_commute)
  qed
  show "apart s 1 (t + 1) k" unfolding apart_def
  proof (intro allI impI)
    fix i j assume "i < (1::nat)" "j < k"
    with ne [of 0 "Suc j"] show "s + of_nat i \<noteq> t + 1 + of_nat j" by (simp add: add.assoc)
  qed
  from ne [of 0 0] show "t \<noteq> s" by simp
qed

lemma bytes_zero: "Suc n \<le> 2 ^ 32 \<Longrightarrow> bytes n s (strncpy_pad n s m) = replicate n 0"
proof (induction n arbitrary: s m)
  case (Suc n)
  have "strncpy_pad n (s + 1) (m(s := 0)) s = 0"
    using next_range [of "Suc n"] Suc.prems
    by (subst strncpy_pad_apply) (auto simp: stosb_apply)
  then show ?case using Suc by simp
qed simp

lemma strncpy_copy_bytes:
  assumes "Suc n \<le> 2 ^ 32" and "apart s n t n"
  shows "bytes n s (strncpy_copy n s t m) = cstr n t m @ replicate (n - length (cstr n t m)) 0"
  using assms
proof (induction n arbitrary: s t m)
  case (Suc n)
  note ap = apart_Suc [OF Suc.prems(2)]
  have keep: "cstr n (t + 1) (m(s := m t)) = cstr n (t + 1) m"
    using ap(2) by (intro cstr_agree) (auto simp: apart_def)
  have first: "strncpy_copy n (s + 1) (t + 1) (m(s := m t)) s = m t"
    using next_range [of n] Suc.prems by (subst strncpy_copy_frame) auto
  have pad: "strncpy_pad n (s + 1) (m(s := 0)) s = 0"
    using next_range [of n] Suc.prems by (subst strncpy_pad_apply) (auto simp: stosb_apply)
  show ?case
    using Suc ap(1) keep first pad bytes_zero [of n]
    by (auto simp: Let_def)
qed simp

lemma safestrcpy_loop_frame:
  "(\<And>i. i < Suc n \<Longrightarrow> a \<noteq> s + of_nat i) \<Longrightarrow> safestrcpy_loop n s t m a = m a"
proof (induction n arbitrary: s t m)
  case 0
  from 0 [of 0] show ?case by simp
next
  case (Suc n)
  have "a \<noteq> s" "a \<noteq> s + 1" using Suc.prems [of 0] Suc.prems [of 1] by auto
  moreover have "a \<noteq> s + 1 + of_nat i" if "i < Suc n" for i
    using Suc.prems [of "Suc i"] that by (simp add: add.assoc)
  ultimately show ?case using Suc.IH by (simp add: Let_def)
qed

lemma safestrcpy_loop_cstr:
  assumes "Suc (Suc n) \<le> 2 ^ 32" and "apart s (Suc n) t n"
  shows "cstr (Suc n) s (safestrcpy_loop n s t m) = cstr n t m"
  using assms
proof (induction n arbitrary: s t m)
  case (Suc n)
  note ap = apart_Suc [OF Suc.prems(2)]
  have keep: "cstr n (t + 1) (m(s := m t)) = cstr n (t + 1) m"
    using ap(2) by (intro cstr_agree) (auto simp: apart_def)
  have first: "safestrcpy_loop n (s + 1) (t + 1) (m(s := m t)) s = m t"
    using next_range [of "Suc n"] Suc.prems by (subst safestrcpy_loop_frame) auto
  have "cstr (Suc n) (s + 1) (safestrcpy_loop n (s + 1) (t + 1) (m(s := m t))) = cstr n (t + 1) m"
    using Suc ap(1) keep by simp
  with first show ?case by (simp add: Let_def)
qed simp

lemma strlen_loop_found:
  assumes "m (s + of_nat n) = 0" and "k \<le> n"
    and "\<And>i. k \<le> i \<Longrightarrow> i < n \<Longrightarrow> m (s + of_nat i) \<noteq> 0"
  shows "strlen_loop m s k = Some n"
  using assms(2,3)
proof (induction "n - k" arbitrary: k)
  case 0
  with assms(1) show ?case by (simp add: strlen_loop.simps)
next
  case (Suc d)
  then have "strlen_loop m s (k + 1) = Some n" by simp
  with Suc show ?case by (subst strlen_loop.simps) auto
qed
section \<open>Properties\<close>

text \<open>
  C22: \<open>memmove\<close> copies the \<open>n\<close> bytes that were at \<open>src\<close> before the call to \<open>dst\<close> and changes
  nothing else, however the two ranges overlap, as long as neither range wraps around the
  address space.
\<close>

theorem memmove_correct:
  assumes "unat dst + unat n \<le> 2 ^ 32" and "unat src + unat n \<le> 2 ^ 32"
  shows "memmove dst src n m a =
    (if unat (a - dst) < unat n then m (src + (a - dst)) else m a)"
  using memmove_range_copy [OF assms, of m] by (simp add: range_copy_def)

theorem memmove_correct_witness:
  "memmove 2 0 4 (\<lambda>a. ucast a) 5 = 3 \<and> memmove 0 2 4 (\<lambda>a. ucast a) 1 = 3"
  using memmove_correct [of 2 4 0 "\<lambda>a. ucast a" 5] memmove_correct [of 0 4 2 "\<lambda>a. ucast a" 1]
  by simp

text \<open>
  \<open>memset\<close> fills exactly the \<open>n\<close> bytes at \<open>dst\<close> with the low byte of \<open>c\<close>; the word-wide
  fast path for aligned blocks writes the same bytes as the byte loop.
\<close>

theorem memset_correct:
  "memset dst c n m = (\<lambda>a. if unat (a - dst) < unat n then ucast c else m a)"
  by (rule ext) (rule memset_apply)

text \<open>
  C23: \<open>safestrcpy\<close> leaves at \<open>s\<close> a string that is NUL-terminated within its \<open>n\<close> bytes and is the
  source string cut to \<open>n - 1\<close> bytes, and writes nothing outside the \<open>n\<close> bytes.
\<close>

theorem safestrcpy_correct:
  assumes "0 < n" and "n < 2 ^ 32" and "apart s (nat n) t (nat n - 1)"
  shows "cstr (nat n) s (safestrcpy s t n m) = cstr (nat n - 1) t m
    \<and> length (cstr (nat n) s (safestrcpy s t n m)) < nat n
    \<and> ((\<forall>i < nat n. a \<noteq> s + of_nat i) \<longrightarrow> safestrcpy s t n m a = m a)"
proof -
  obtain k where k: "nat n = Suc k" using assms(1) by (cases "nat n") auto
  then have eq: "safestrcpy s t n m = safestrcpy_loop k s t m"
    using assms(1) by (simp add: safestrcpy_def nat_diff_distrib)
  have "Suc (Suc k) \<le> 2 ^ 32" using k assms(2) by simp
  then have "cstr (Suc k) s (safestrcpy_loop k s t m) = cstr k t m"
    using assms(3) k by (intro safestrcpy_loop_cstr) auto
  with k eq show ?thesis
    using length_cstr [of k t m] safestrcpy_loop_frame [of k a s t m] by auto
qed

theorem safestrcpy_correct_witness:
  "length (cstr 3 100 (safestrcpy 100 0 3 (\<lambda>_. 7))) < 3
    \<and> safestrcpy 100 0 3 (\<lambda>_. 7) 103 = 7"
proof -
  have ap: "apart 100 (nat 3) 0 (nat 3 - 1)" and out: "\<forall>i < nat 3. (103::addr) \<noteq> 100 + of_nat i"
    unfolding apart_def by (simp_all add: All_less_Suc numeral_3_eq_3)
  show ?thesis
    using safestrcpy_correct [OF _ _ ap, of "\<lambda>_. 7" 103] out length_cstr [of 2 0 "\<lambda>_. 7"]
    by simp
qed



end
