(* ===== verification/Kalloc.thy ===== *)
theory Kalloc
  imports Cstring
begin

text \<open>
  The physical page allocator, kalloc.c, with the address constants of mmu.h and memlayout.h. The
  free list is threaded through the free pages themselves: the first word of a free page is the
  address of the next one. The linker symbols \<open>end\<close> and \<open>data\<close> are fields of the state that no code
  changes.
\<close>

section \<open>Address constants\<close>

definition PGSIZE :: uint where "PGSIZE = 4096"

definition KERNBASE :: addr where "KERNBASE = 0x80000000"

definition EXTMEM :: addr where "EXTMEM = 0x100000"

definition PHYSTOP :: addr where "PHYSTOP = 0xE000000"

definition DEVSPACE :: addr where "DEVSPACE = 0xFE000000"

definition V2P :: "addr \<Rightarrow> addr" where "V2P a = a - KERNBASE"

definition P2V :: "addr \<Rightarrow> addr" where "P2V a = a + KERNBASE"

definition PGROUNDUP :: "uint \<Rightarrow> uint" where
  "PGROUNDUP sz = (sz + PGSIZE - 1) AND NOT (PGSIZE - 1)"

definition PGROUNDDOWN :: "uint \<Rightarrow> uint" where
  "PGROUNDDOWN a = a AND NOT (PGSIZE - 1)"

section \<open>State and operations\<close>

record kmem = kbase +
  mem :: memory
  kend :: addr
  kdata :: addr
  use_lock :: bool
  freelist :: addr

definition kmem_lock :: "'a kmem_scheme \<Rightarrow> (unit, 'a kmem_scheme) outcome" where
  "kmem_lock s = (if use_lock s then acquire KmemLk s else Ret () s)"

definition kmem_unlock :: "'a kmem_scheme \<Rightarrow> (unit, 'a kmem_scheme) outcome" where
  "kmem_unlock s = (if use_lock s then release KmemLk s else Ret () s)"

definition kfree :: "addr \<Rightarrow> 'a kmem_scheme \<Rightarrow> (unit, 'a kmem_scheme) outcome" where
  "kfree v s =
     (if v mod PGSIZE \<noteq> 0 \<or> v < kend s \<or> V2P v \<ge> PHYSTOP then Panic ''kfree''
      else
        bindK (kmem_lock (s\<lparr>mem := memset v 1 PGSIZE (mem s)\<rparr>)) (\<lambda>_ s.
        kmem_unlock (s\<lparr>mem := store32 v (freelist s) (mem s), freelist := v\<rparr>)))"

definition kalloc :: "'a kmem_scheme \<Rightarrow> (addr, 'a kmem_scheme) outcome" where
  "kalloc s =
     bindK (kmem_lock s) (\<lambda>_ s.
     let r = freelist s;
         s = (if r \<noteq> 0 then s\<lparr>freelist := load32 (mem s) r\<rparr> else s)
     in bindK (kmem_unlock s) (\<lambda>_ s. Ret r s))"

lemma kfree_Ret_bound:
  assumes "kfree v s = Ret u t"
  shows "unat v < unat (KERNBASE + PHYSTOP) \<or> unat KERNBASE > unat v"
  using assms unat_sub_if' [of v KERNBASE] unsigned_less [of v, where 'a = nat]
  by (auto simp: kfree_def V2P_def KERNBASE_def PHYSTOP_def word_le_nat_alt not_le split: if_splits)

text \<open>
  The loop of \<open>freerange\<close> ends on every input: \<open>kfree\<close> panics on every page from which the next
  step would wrap around.
\<close>

function freerange_loop :: "addr \<Rightarrow> addr \<Rightarrow> 'a kmem_scheme \<Rightarrow> (unit, 'a kmem_scheme) outcome" where
  "freerange_loop p vend s =
     (if p + PGSIZE \<le> vend
      then bindK (kfree p s) (\<lambda>_ s. freerange_loop (p + PGSIZE) vend s)
      else Ret () s)"
  by pat_completeness auto
termination
proof (relation "measure (\<lambda>(p, vend, s). 2 ^ 32 - unat p)", goal_cases)
  case (2 p vend s u t)
  then have "unat p < 2 ^ 32 - 4096"
    using kfree_Ret_bound by (fastforce simp: KERNBASE_def PHYSTOP_def)
  then have "unat (p + PGSIZE) = unat p + 4096"
    by (simp add: PGSIZE_def unat_word_ariths)
  then show ?case using \<open>unat p < 2 ^ 32 - 4096\<close> by simp
qed simp

declare freerange_loop.simps [simp del]

definition freerange :: "addr \<Rightarrow> addr \<Rightarrow> 'a kmem_scheme \<Rightarrow> (unit, 'a kmem_scheme) outcome" where
  "freerange vstart vend s = freerange_loop (PGROUNDUP vstart) vend s"

definition kinit1 :: "addr \<Rightarrow> addr \<Rightarrow> 'a kmem_scheme \<Rightarrow> (unit, 'a kmem_scheme) outcome" where
  "kinit1 vstart vend s = freerange vstart vend ((initlock KmemLk s)\<lparr>use_lock := False\<rparr>)"

definition kinit2 :: "addr \<Rightarrow> addr \<Rightarrow> 'a kmem_scheme \<Rightarrow> (unit, 'a kmem_scheme) outcome" where
  "kinit2 vstart vend s =
     bindK (freerange vstart vend s) (\<lambda>_ s. Ret () (s\<lparr>use_lock := True\<rparr>))"

section \<open>What the allocator leaves alone\<close>

text \<open>
  \<open>mem_code s m\<close>: code started in \<open>s\<close> with outcome \<open>m\<close> changes at most the memory and the head of
  the free list, and does not give up the CPU. All of kalloc.c and vm.c is of this kind.
\<close>

definition mem_only :: "'a kmem_scheme \<Rightarrow> 'a kmem_scheme \<Rightarrow> bool" where
  "mem_only s t = (t = s\<lparr>mem := mem t, freelist := freelist t\<rparr>)"

fun mem_code :: "'a kmem_scheme \<Rightarrow> ('b, 'a kmem_scheme) outcome \<Rightarrow> bool" where
  "mem_code s (Ret a t) = mem_only s t"
| "mem_code s (Panic m) = True"
| "mem_code s (Fault m) = True"
| "mem_code s (Swtch t) = False"

lemma mem_only_refl [simp, intro]: "mem_only s s"
  by (simp add: mem_only_def)

lemma mem_only_trans: "mem_only s t \<Longrightarrow> mem_only t u \<Longrightarrow> mem_only s u"
  by (cases s; cases t; cases u) (simp add: mem_only_def)

lemma mem_only_upd [simp, intro]:
  "mem_only s (s\<lparr>mem := m\<rparr>)" "mem_only s (s\<lparr>mem := m, freelist := f\<rparr>)" "mem_only s (s\<lparr>freelist := f\<rparr>)"
  by (simp_all add: mem_only_def)

lemma mem_onlyD:
  assumes "mem_only s t"
  shows "held t = held s" "kend t = kend s" "kdata t = kdata s" "use_lock t = use_lock s"
    "kmem.more t = kmem.more s"
  using assms by (cases s; cases t; simp add: mem_only_def)+

lemma mem_code_Ret: "mem_code s m \<Longrightarrow> m = Ret a t \<Longrightarrow> mem_only s t"
  and mem_code_Swtch: "mem_code s m \<Longrightarrow> m \<noteq> Swtch t"
  by auto

lemma mem_code_from: "mem_only s t \<Longrightarrow> mem_code t m \<Longrightarrow> mem_code s m"
  by (cases m) (auto intro: mem_only_trans)

lemma mem_code_bind:
  assumes "mem_code s m" and "\<And>a t. m = Ret a t \<Longrightarrow> mem_only s t \<Longrightarrow> mem_code t (f a t)"
  shows "mem_code s (bindK m f)"
  using assms by (cases m) (auto intro: mem_code_from)

lemma mem_code_forK:
  assumes "\<And>i t. i \<in> set is \<Longrightarrow> mem_code t (body i t)"
  shows "mem_code s (forK body is s)"
  using assms by (induction "is" arbitrary: s) (auto intro: mem_code_bind)

lemma kfree_mem_code [kframe]: "mem_code s (kfree v s)"
  by (cases "use_lock s"; cases "KmemLk \<in> set (held s)")
    (simp_all add: kfree_def kmem_lock_def kmem_unlock_def mem_only_def)

lemma kalloc_mem_code [kframe]: "mem_code s (kalloc s)"
  by (cases "use_lock s"; cases "KmemLk \<in> set (held s)")
    (simp_all add: kalloc_def kmem_lock_def kmem_unlock_def mem_only_def Let_def)

section \<open>The abstract free list\<close>

primrec chain :: "memory \<Rightarrow> addr \<Rightarrow> addr list \<Rightarrow> bool" where
  "chain m p [] \<longleftrightarrow> p = 0"
| "chain m p (q # qs) \<longleftrightarrow> p = q \<and> q \<noteq> 0 \<and> chain m (load32 m q) qs"

definition pg_aligned :: "addr \<Rightarrow> bool" where
  "pg_aligned p \<longleftrightarrow> unat p mod 4096 = 0"

definition page_ok :: "addr \<Rightarrow> addr \<Rightarrow> bool" where
  "page_ok ke p \<longleftrightarrow> pg_aligned p \<and> ke \<le> p \<and> V2P p < PHYSTOP"

text \<open>
  \<open>pool s ps\<close>: the allocator is at rest, its lock free, and its free list holds the distinct,
  page-aligned addresses \<open>ps\<close> between the end of the kernel and the top of memory.
\<close>

definition pool :: "'a kmem_scheme \<Rightarrow> addr list \<Rightarrow> bool" where
  "pool s ps \<longleftrightarrow> KERNBASE \<le> kend s \<and> KmemLk \<notin> set (held s)
     \<and> chain (mem s) (freelist s) ps \<and> distinct ps \<and> (\<forall>p\<in>set ps. page_ok (kend s) p)"

definition page_of :: "addr \<Rightarrow> nat" where "page_of a = unat a div 4096"

text \<open>The pages of a range, and the memory that freeing a page leaves behind.\<close>

primrec range_pages :: "nat \<Rightarrow> addr \<Rightarrow> addr list" where
  "range_pages 0 p = []"
| "range_pages (Suc k) p = p # range_pages k (p + PGSIZE)"

definition kfree_mem :: "addr \<Rightarrow> 'a kmem_scheme \<Rightarrow> memory" where
  "kfree_mem v s = store32 v (freelist s) (memset v 1 PGSIZE (mem s))"

section \<open>Pages and alignment\<close>

lemma pg_aligned_iff: "p mod PGSIZE = 0 \<longleftrightarrow> pg_aligned p"
proof -
  have "unat (p mod 4096) = unat p mod 4096" by (simp add: unat_mod)
  then show ?thesis unfolding PGSIZE_def pg_aligned_def by (metis unat_eq_zero)
qed

lemma alignedE:
  assumes "pg_aligned p"
  obtains k where "unat p = 4096 * k" and "k < 2 ^ 20"
proof -
  from assms obtain k where "unat p = 4096 * k"
    unfolding pg_aligned_def by (metis dvdE mod_eq_0_iff_dvd)
  with unsigned_less [of p, where 'a = nat] that show ?thesis by simp
qed

lemma aligned_room: "pg_aligned p \<Longrightarrow> unat p + 4096 \<le> 2 ^ 32"
  by (erule alignedE) simp

lemma unat_in_page:
  "pg_aligned p \<Longrightarrow> i < 4096 \<Longrightarrow> unat (p + of_nat i) = unat p + i"
  using aligned_room [of p] by (intro unat_plus_simple) simp

lemma page_of_offset:
  assumes "pg_aligned p" and "i < 4096"
  shows "page_of (p + of_nat i) = page_of p"
proof -
  from assms(1) obtain k where "unat p = 4096 * k" by (rule alignedE)
  with assms show ?thesis by (simp only: page_of_def unat_in_page) simp
qed

lemma page_of_inj:
  "pg_aligned p \<Longrightarrow> pg_aligned q \<Longrightarrow> page_of p = page_of q \<Longrightarrow> p = q"
  unfolding page_of_def pg_aligned_def
  by (rule unat_inj) (metis add.right_neutral mult_div_mod_eq)

lemma in_page_iff:
  assumes "pg_aligned v"
  shows "unat (a - v) < 4096 \<longleftrightarrow> page_of a = page_of v"
proof -
  from assms obtain k where k: "unat v = 4096 * k" by (rule alignedE)
  have "(4096 * k \<le> unat a \<and> unat a < 4096 * k + 4096) \<longleftrightarrow> unat a div 4096 = k"
    using div_mult_mod_eq [of "unat a" 4096] mod_less_divisor [of 4096 "unat a"]
    by (auto intro: div_nat_eqI)
  then show ?thesis
    using in_range_iff [OF aligned_room [OF assms], of a] by (simp add: page_of_def k)
qed

lemma load32_agree:
  "(\<And>i. i < 4 \<Longrightarrow> m (a + of_nat i) = m' (a + of_nat i)) \<Longrightarrow> load32 m a = load32 m' a"
proof -
  assume a: "\<And>i. i < 4 \<Longrightarrow> m (a + of_nat i) = m' (a + of_nat i)"
  from a [of 0] a [of 1] a [of 2] a [of 3] show ?thesis by (simp add: load32_def)
qed

lemma load32_agree_page:
  assumes "\<And>a. page_of a = page_of p \<Longrightarrow> m' a = m a" and "pg_aligned p"
  shows "load32 m' p = load32 m p"
  using assms page_of_offset [OF assms(2)] by (intro load32_agree) auto

lemma store32_other_page:
  assumes "pg_aligned v" and "page_of a \<noteq> page_of v"
  shows "store32 v w m a = m a"
  using assms page_of_offset [OF assms(1), of 0] page_of_offset [OF assms(1), of 1]
    page_of_offset [OF assms(1), of 2] page_of_offset [OF assms(1), of 3]
  by (auto simp: store32_def)

lemma memset_other_page:
  assumes "pg_aligned v" and "page_of a \<noteq> page_of v"
  shows "memset v c PGSIZE m a = m a"
  using assms by (simp add: memset_apply in_page_iff PGSIZE_def)

lemma page_ok_nonzero: "page_ok ke p \<Longrightarrow> KERNBASE \<le> ke \<Longrightarrow> p \<noteq> 0"
  by (auto simp: page_ok_def KERNBASE_def)

lemma chain_frame:
  assumes "chain m p ps" and "\<And>q. q \<in> set ps \<Longrightarrow> pg_aligned q"
    and "\<And>q a. q \<in> set ps \<Longrightarrow> page_of a = page_of q \<Longrightarrow> m' a = m a"
  shows "chain m' p ps"
  using assms
proof (induction ps arbitrary: p)
  case (Cons q qs)
  then have "load32 m' q = load32 m q"
    by (intro load32_agree_page) auto
  with Cons show ?case by auto
qed simp

lemma unat_and_not_mask12: "unat (a AND - 4096 :: uint) = 4096 * (unat a div 4096)"
proof -
  have m: "(- 4096 :: uint) = NOT (mask 12)" by (simp add: mask_eq_exp_minus_1)
  have "a AND NOT (mask 12) = push_bit 12 (drop_bit 12 a)"
    by (rule bit_word_eqI) (auto simp: bit_simps)
  then have "a AND - 4096 = push_bit 12 (drop_bit 12 a)"
    by (simp only: m)
  also have "\<dots> = a div 4096 * 4096"
    by (simp add: push_bit_eq_mult drop_bit_eq_div)
  finally have "unat (a AND - 4096) = (unat a div 4096 * 4096) mod 2 ^ 32"
    by (simp add: unat_word_ariths unat_div mod_mult_left_eq)
  moreover have "unat a div 4096 * 4096 < 2 ^ 32"
    using unsigned_less [of a, where 'a = nat] div_mult_mod_eq [of "unat a" 4096] by simp
  ultimately show ?thesis by simp
qed

lemma unat_PGROUNDDOWN: "unat (PGROUNDDOWN a) = 4096 * (unat a div 4096)"
  by (simp add: PGROUNDDOWN_def PGSIZE_def unat_and_not_mask12)

lemma PGROUNDUP_down: "PGROUNDUP a = PGROUNDDOWN (a + 4095)"
  by (simp add: PGROUNDUP_def PGROUNDDOWN_def PGSIZE_def add.commute)

lemma unat_PGROUNDUP:
  assumes "unat a + 4095 < 2 ^ 32"
  shows "unat (PGROUNDUP a) = 4096 * ((unat a + 4095) div 4096)"
proof -
  have "unat (a + 4095) = unat a + 4095"
    using unat_plus_simple [OF assms] by simp
  then show ?thesis by (simp only: PGROUNDUP_down unat_PGROUNDDOWN)
qed

lemma PGROUNDDOWN_aligned: "pg_aligned (PGROUNDDOWN a)"
  by (simp only: pg_aligned_def unat_PGROUNDDOWN) simp

lemma PGROUNDUP_aligned: "pg_aligned (PGROUNDUP a)"
  by (simp only: PGROUNDUP_down PGROUNDDOWN_aligned)

section \<open>The allocator keeps its free list\<close>

lemma kfree_eq:
  assumes "page_ok (kend s) v" and "KmemLk \<notin> set (held s)"
  shows "kfree v s = Ret () (s\<lparr>mem := kfree_mem v s, freelist := v\<rparr>)"
  using assms by (auto simp: kfree_def page_ok_def kmem_lock_def kmem_unlock_def kfree_mem_def not_le not_less pg_aligned_iff)

lemma kfree_pool:
  assumes "pool s ps" and "page_ok (kend s) v" and "v \<notin> set ps"
  shows "pool (s\<lparr>mem := kfree_mem v s, freelist := v\<rparr>) (v # ps)"
proof -
  have al: "pg_aligned v" using assms(2) by (simp add: page_ok_def)
  have ok: "\<And>p. p \<in> set ps \<Longrightarrow> page_ok (kend s) p" using assms(1) by (simp add: pool_def)
  have other: "kfree_mem v s a = mem s a" if "q \<in> set ps" "page_of a = page_of q" for q a
  proof -
    have "page_of q \<noteq> page_of v"
      using that ok [of q] al assms(3) page_of_inj [of q v] by (auto simp: page_ok_def)
    then show ?thesis
      using that al by (simp add: kfree_mem_def store32_other_page memset_other_page)
  qed
  have "chain (kfree_mem v s) (freelist s) ps"
  proof (rule chain_frame)
    show "chain (mem s) (freelist s) ps" using assms(1) by (simp add: pool_def)
    show "pg_aligned q" if "q \<in> set ps" for q using ok [OF that] by (simp add: page_ok_def)
  qed (rule other)
  moreover have "load32 (kfree_mem v s) v = freelist s"
    by (simp add: kfree_mem_def)
  ultimately show ?thesis
    using assms by (auto simp: pool_def dest: page_ok_nonzero)
qed

lemma poolD: "pool s ps \<Longrightarrow> KmemLk \<notin> set (held s)"
  by (simp add: pool_def)

lemma kalloc_Cons:
  assumes "pool s (p # ps)"
  shows "kalloc s = Ret p (s\<lparr>freelist := load32 (mem s) p\<rparr>)"
    and "pool (s\<lparr>freelist := load32 (mem s) p\<rparr>) ps"
  using assms by (auto simp: kalloc_def pool_def kmem_lock_def kmem_unlock_def)

text \<open>Writes outside the free pages, and changes to other parts of the state, keep the pool.\<close>

lemma pool_frame:
  assumes "pool s ps" and "KmemLk \<notin> set (held t)" and "freelist t = freelist s" and "kend t = kend s"
    and "\<And>q a. q \<in> set ps \<Longrightarrow> page_of a = page_of q \<Longrightarrow> mem t a = mem s a"
  shows "pool t ps"
  using assms chain_frame [of "mem s" "freelist s" ps "mem t"]
  by (auto simp: pool_def page_ok_def)

lemma kalloc_Nil: "pool s [] \<Longrightarrow> kalloc s = Ret 0 s"
  by (auto simp: kalloc_def pool_def kmem_lock_def kmem_unlock_def)

section \<open>The contract of a page allocator\<close>

text \<open>
  What the clients of kalloc.c rely on. \<open>invar s ps\<close> says that the free pages are \<open>ps\<close> in the order
  they will be handed out.
\<close>

locale page_allocator =
  fixes alloc :: "'s \<Rightarrow> (addr, 's) outcome"
    and free :: "addr \<Rightarrow> 's \<Rightarrow> (unit, 's) outcome"
    and invar :: "'s \<Rightarrow> addr list \<Rightarrow> bool"
    and legal :: "'s \<Rightarrow> addr \<Rightarrow> bool"
  assumes alloc_Nil: "invar s [] \<Longrightarrow> alloc s = Ret 0 s"
    and alloc_Cons: "invar s (p # ps) \<Longrightarrow> \<exists>t. alloc s = Ret p t \<and> invar t ps"
    and free: "invar s ps \<Longrightarrow> legal s p \<Longrightarrow> p \<notin> set ps \<Longrightarrow> \<exists>t. free p s = Ret () t \<and> invar t (p # ps)"
    and invar_pages: "invar s ps \<Longrightarrow> distinct ps \<and> 0 \<notin> set ps"
begin

text \<open>Freeing a page and allocating again hands out the same page.\<close>

lemma free_alloc:
  assumes "invar s ps" and "legal s p" and "p \<notin> set ps"
  shows "\<exists>t. bindK (free p s) (\<lambda>_. alloc) = Ret p t \<and> invar t ps"
proof -
  from free [OF assms] obtain t where "free p s = Ret () t" "invar t (p # ps)" by blast
  with alloc_Cons [of t p ps] show ?thesis by auto
qed

primrec alloc_many :: "nat \<Rightarrow> 's \<Rightarrow> (addr list, 's) outcome" where
  "alloc_many 0 s = Ret [] s"
| "alloc_many (Suc n) s =
     bindK (alloc s) (\<lambda>p s. bindK (alloc_many n s) (\<lambda>ps s. Ret (p # ps) s))"

lemma alloc_many:
  assumes "invar s ps" and "n \<le> length ps"
  shows "\<exists>t. alloc_many n s = Ret (take n ps) t \<and> invar t (drop n ps)"
  using assms
proof (induction n arbitrary: s ps)
  case (Suc n)
  then obtain p qs where ps: "ps = p # qs" by (cases ps) auto
  with Suc alloc_Cons [of s p qs] obtain t where "alloc s = Ret p t" "invar t qs" by auto
  with Suc ps Suc.IH [of t qs] show ?case by auto
qed simp

end

interpretation kmem: page_allocator kalloc kfree pool "\<lambda>s. page_ok (kend s)"
proof unfold_locales
  fix s :: "'a kmem_scheme" and ps p
  show "pool s ps \<Longrightarrow> distinct ps \<and> 0 \<notin> set ps"
    by (auto simp: pool_def dest: page_ok_nonzero)
  show "pool s ps \<Longrightarrow> page_ok (kend s) p \<Longrightarrow> p \<notin> set ps \<Longrightarrow> \<exists>t. kfree p s = Ret () t \<and> pool t (p # ps)"
    by (metis kfree_eq kfree_pool poolD)
qed (auto simp: kalloc_Nil kalloc_Cons)

section \<open>Freeing a range\<close>

lemma set_range_pages:
  assumes "pg_aligned p" and "unat p + 4096 * k < 2 ^ 32"
  shows "set (range_pages k p) = {q. pg_aligned q \<and> p \<le> q \<and> unat q + 4096 \<le> unat p + 4096 * k}"
  using assms
proof (induction k arbitrary: p)
  case 0
  then show ?case by (auto simp: word_le_nat_alt)
next
  case (Suc k)
  have up: "unat (p + PGSIZE) = unat p + 4096"
    using Suc.prems by (simp add: PGSIZE_def unat_word_ariths)
  then have al: "pg_aligned (p + PGSIZE)"
    using Suc.prems(1) unfolding pg_aligned_def by simp
  have "q \<in> set (range_pages (Suc k) p) \<longleftrightarrow>
      pg_aligned q \<and> p \<le> q \<and> unat q + 4096 \<le> unat p + 4096 * Suc k" for q
  proof -
    have IH: "set (range_pages k (p + PGSIZE)) =
       {q. pg_aligned q \<and> p + PGSIZE \<le> q \<and> unat q + 4096 \<le> unat p + 4096 * Suc k}"
      using Suc.IH [OF al] Suc.prems(2) up by simp
    have "p + PGSIZE \<le> q" if le: "p \<le> q" and ne: "p \<noteq> q" and aq: "pg_aligned q"
    proof -
      obtain a where "unat p = 4096 * a" using Suc.prems(1) by (rule alignedE)
      moreover obtain b where "unat q = 4096 * b" using aq by (rule alignedE)
      moreover have "unat p < unat q" using le ne unat_inj [of p q] by (auto simp: word_le_nat_alt order_le_less)
      ultimately show ?thesis using up by (simp add: word_le_nat_alt)
    qed
    moreover have "p \<le> q" if "p + PGSIZE \<le> q" using that up by (simp add: word_le_nat_alt)
    ultimately show ?thesis
      unfolding range_pages.simps list.set(2) IH insert_iff mem_Collect_eq
      using Suc.prems(1) by auto
  qed
  then show ?case by blast
qed

lemma freerange_loop_pool:
  assumes "pool s ps" and "pg_aligned p" and "kend s \<le> p"
    and "vend \<le> KERNBASE + PHYSTOP"
    and "unat p + 4096 * k \<le> unat vend" and "unat vend < unat p + 4096 * Suc k"
    and "set (range_pages k p) \<inter> set ps = {}"
  shows "\<exists>t. freerange_loop p vend s = Ret () t \<and> pool t (rev (range_pages k p) @ ps) \<and> kend t = kend s
     \<and> held t = held s \<and> use_lock t = use_lock s"
  using assms
proof (induction k arbitrary: p s ps)
  case 0
  have lim: "unat vend \<le> 2 ^ 32 - 2 * 4096" using 0(4) by (simp add: word_le_nat_alt KERNBASE_def PHYSTOP_def)
  then have "unat (p + PGSIZE) = unat p + 4096"
    using 0 by (simp add: PGSIZE_def unat_word_ariths)
  then have "\<not> p + PGSIZE \<le> vend" using 0 by (simp add: word_le_nat_alt)
  with 0 show ?case by (simp add: freerange_loop.simps)
next
  case (Suc k)
  have lim: "unat vend \<le> 2 ^ 32 - 2 * 4096" "unat vend \<le> unat (KERNBASE + PHYSTOP)"
    using Suc.prems(4) by (simp_all add: word_le_nat_alt KERNBASE_def PHYSTOP_def)
  have up: "unat (p + PGSIZE) = unat p + 4096"
    using Suc.prems lim by (simp add: PGSIZE_def unat_word_ariths)
  then have al: "pg_aligned (p + PGSIZE)"
    using Suc.prems(2) unfolding pg_aligned_def by simp
  have kb: "unat KERNBASE \<le> unat p" using Suc.prems(1,3)
    by (simp add: pool_def word_le_nat_alt)
  have "unat (V2P p) = unat p - unat KERNBASE"
    using kb by (simp add: V2P_def unat_minus_le)
  then have ok: "page_ok (kend s) p"
    using Suc.prems lim up kb unfolding page_ok_def
    by (simp add: word_less_nat_alt KERNBASE_def PHYSTOP_def)
  have pn: "p \<notin> set ps" using Suc.prems(7) by auto
  let ?s1 = "s\<lparr>mem := kfree_mem p s, freelist := p\<rparr>"
  have s1: "kfree p s = Ret () ?s1" "pool ?s1 (p # ps)"
    using kfree_eq [OF ok poolD [OF Suc.prems(1)]] kfree_pool [OF Suc.prems(1) ok pn] by auto
  have "p \<notin> set (range_pages k (p + PGSIZE))"
    using set_range_pages [OF al, of k] up Suc.prems(5) lim by (auto simp: word_le_nat_alt)
  then have "\<exists>t. freerange_loop (p + PGSIZE) vend ?s1 = Ret () t
      \<and> pool t (rev (range_pages k (p + PGSIZE)) @ p # ps) \<and> kend t = kend ?s1
      \<and> held t = held ?s1 \<and> use_lock t = use_lock ?s1"
    using Suc.prems up s1(2) al by (intro Suc.IH) (auto simp: word_le_nat_alt)
  moreover have "p + PGSIZE \<le> vend" using up Suc.prems(5) by (simp add: word_le_nat_alt)
  ultimately show ?case
    using s1(1) by (subst freerange_loop.simps) auto
qed

lemma freerange_pool:
  assumes "pool s ps" and "kend s \<le> vstart" and "vstart \<le> vend" and "vend \<le> KERNBASE + PHYSTOP"
    and "\<And>q. q \<in> set ps \<Longrightarrow> \<not> (vstart \<le> q \<and> unat q + 4096 \<le> unat vend)"
  shows "\<exists>t qs. freerange vstart vend s = Ret () t \<and> pool t (qs @ ps)
    \<and> set qs = {q. pg_aligned q \<and> vstart \<le> q \<and> unat q + 4096 \<le> unat vend}
    \<and> held t = held s \<and> use_lock t = use_lock s"
proof -
  let ?p = "PGROUNDUP vstart"
  have lim: "unat vend \<le> unat KERNBASE + unat PHYSTOP" "unat vstart \<le> unat vend"
    using assms(3,4) by (simp_all add: word_le_nat_alt KERNBASE_def PHYSTOP_def)
  have up: "unat ?p = 4096 * ((unat vstart + 4095) div 4096)"
    using lim by (intro unat_PGROUNDUP) (simp add: KERNBASE_def PHYSTOP_def)
  have ge: "unat vstart \<le> unat ?p" "unat ?p \<le> unat vstart + 4095"
    using up div_mult_mod_eq [of "unat vstart + 4095" 4096]
      mod_less_divisor [of 4096 "unat vstart + 4095"] by linarith+
  have al: "pg_aligned ?p" by (rule PGROUNDUP_aligned)
  have first: "vstart \<le> q \<longleftrightarrow> ?p \<le> q" if al_q: "pg_aligned q" for q
  proof -
    obtain a where a: "unat q = 4096 * a" using al_q by (rule alignedE)
    have "unat vstart \<le> 4096 * a \<longleftrightarrow> (unat vstart + 4095) div 4096 \<le> a"
      using div_mult_mod_eq [of "unat vstart + 4095" 4096]
        mod_less_divisor [of 4096 "unat vstart + 4095"] by linarith
    then show ?thesis using a up by (simp add: word_le_nat_alt)
  qed
  show ?thesis
  proof (cases "?p \<le> vend")
    case False
    have "unat (?p + PGSIZE) = unat ?p + 4096"
      using ge lim by (simp add: PGSIZE_def KERNBASE_def PHYSTOP_def unat_word_ariths)
    with False have "freerange vstart vend s = Ret () s"
      by (simp add: freerange_def freerange_loop.simps word_le_nat_alt)
    moreover have "{q. pg_aligned q \<and> vstart \<le> q \<and> unat q + 4096 \<le> unat vend} = {}"
      using False first by (auto simp: word_le_nat_alt)
    ultimately show ?thesis using assms(1) by (intro exI [of _ s] exI [of _ "[]"]) simp
  next
    case True
    define k where "k = (unat vend - unat ?p) div 4096"
    have "unat ?p + 4096 * k \<le> unat vend" "unat vend < unat ?p + 4096 * k + 4096"
      using True div_mult_mod_eq [of "unat vend - unat ?p" 4096]
        mod_less_divisor [of 4096 "unat vend - unat ?p"]
      unfolding k_def word_le_nat_alt by linarith+
    then have k: "unat ?p + 4096 * k \<le> unat vend" "unat vend < unat ?p + 4096 * Suc k"
      by simp_all
    have pages: "set (range_pages k ?p) = {q. pg_aligned q \<and> vstart \<le> q \<and> unat q + 4096 \<le> unat vend}"
    proof -
      have "unat q + 4096 \<le> unat ?p + 4096 * k \<longleftrightarrow> unat q + 4096 \<le> unat vend" if al_q: "pg_aligned q" for q
      proof -
        obtain a where a: "unat q = 4096 * a" using al_q by (rule alignedE)
        define c where "c = (unat vstart + 4095) div 4096"
        have ck: "4096 * (c + k) \<le> unat vend" "unat vend < 4096 * (c + k + 1)"
          using k up unfolding c_def by simp_all
        have "4096 * (a + 1) \<le> unat vend \<longleftrightarrow> a + 1 \<le> c + k"
        proof
          assume "4096 * (a + 1) \<le> unat vend"
          with ck(2) have "4096 * (a + 1) < 4096 * (c + k + 1)" by linarith
          then show "a + 1 \<le> c + k" by simp
        next
          assume "a + 1 \<le> c + k"
          then have "4096 * (a + 1) \<le> 4096 * (c + k)" by simp
          with ck(1) show "4096 * (a + 1) \<le> unat vend" by linarith
        qed
        moreover have "4096 * a + 4096 \<le> 4096 * c + 4096 * k \<longleftrightarrow> a + 1 \<le> c + k"
          by arith
        ultimately show ?thesis unfolding a up c_def [symmetric] by (simp add: add.commute)
      qed
      moreover have "unat ?p + 4096 * k < 2 ^ 32"
        using k(1) unsigned_less [of vend, where 'a = nat] by simp
      ultimately show ?thesis using set_range_pages [OF al] first by blast
    qed
    have "kend s \<le> ?p" using assms(2) ge(1) by (simp add: word_le_nat_alt)
    moreover have "set (range_pages k ?p) \<inter> set ps = {}" using pages assms(5) by blast
    ultimately show ?thesis
      using freerange_loop_pool [OF assms(1) al _ assms(4) k] pages
      by (fastforce simp: freerange_def)
  qed
qed

section \<open>Properties\<close>

text \<open>
  C8: the page allocator is correct on every branch. Freeing a legal page that is not free puts it
  at the head of the free list and leaves every other page's contents and the lock as they were;
  allocating takes the head of the list, never a page that is still free, and answers null exactly
  when the list is empty; freeing an illegal address panics.
\<close>

theorem kalloc_kfree_correct:
  assumes "pool s ps"
  shows "(page_ok (kend s) v \<and> v \<notin> set ps \<longrightarrow>
      returns (\<lambda>_ t. pool t (v # ps) \<and> held t = held s
        \<and> (\<forall>a. page_of a \<noteq> page_of v \<longrightarrow> mem t a = mem s a)) (kfree v s))
    \<and> (\<not> page_ok (kend s) v \<longrightarrow> kfree v s = Panic ''kfree'')
    \<and> (case ps of [] \<Rightarrow> kalloc s = Ret 0 s
       | p # qs \<Rightarrow> returns (\<lambda>r t. r = p \<and> r \<noteq> 0 \<and> r \<notin> set qs \<and> pool t qs
           \<and> held t = held s \<and> mem t = mem s) (kalloc s))"
proof (intro conjI impI)
  assume v: "page_ok (kend s) v \<and> v \<notin> set ps"
  then have "pg_aligned v" by (simp add: page_ok_def)
  then have "kfree_mem v s a = mem s a" if "page_of a \<noteq> page_of v" for a
    using that by (simp add: kfree_mem_def store32_other_page memset_other_page)
  with v show "returns (\<lambda>_ t. pool t (v # ps) \<and> held t = held s
      \<and> (\<forall>a. page_of a \<noteq> page_of v \<longrightarrow> mem t a = mem s a)) (kfree v s)"
    using kfree_eq [of s v] kfree_pool [OF assms, of v] poolD [OF assms] by simp
next
  assume "\<not> page_ok (kend s) v"
  then show "kfree v s = Panic ''kfree''"
    by (auto simp: kfree_def page_ok_def pg_aligned_iff not_le not_less)
next
  show "case ps of [] \<Rightarrow> kalloc s = Ret 0 s
     | p # qs \<Rightarrow> returns (\<lambda>r t. r = p \<and> r \<noteq> 0 \<and> r \<notin> set qs \<and> pool t qs
         \<and> held t = held s \<and> mem t = mem s) (kalloc s)"
    using assms kmem.invar_pages [OF assms]
    by (cases ps) (auto simp: kalloc_Nil kalloc_Cons)
qed

definition kmem0 :: kmem where
  "kmem0 = \<lparr>held = [], mem = (\<lambda>_. 0), kend = 0x80100000, kdata = 0x80108000, use_lock = True, freelist = 0\<rparr>"

lemma pool_kmem0: "pool kmem0 []"
  by (simp add: pool_def kmem0_def KERNBASE_def)

lemma page_ok_kmem0: "page_ok (kend kmem0) 0x80200000"
  by (simp add: page_ok_def pg_aligned_def kmem0_def V2P_def KERNBASE_def PHYSTOP_def)

theorem kalloc_kfree_witness:
  "returns (\<lambda>_ t. pool t [0x80200000]) (kfree 0x80200000 kmem0) \<and> kalloc kmem0 = Ret 0 kmem0"
  using kalloc_kfree_correct [OF pool_kmem0, where v = "0x80200000"] page_ok_kmem0
  by (auto elim: returns_mono)

text \<open>
  C9: \<open>freerange\<close> returns, and the pages it adds to the free list are exactly the page-aligned
  addresses whose whole page lies between \<open>vstart\<close> and \<open>vend\<close>.
\<close>

theorem freerange_correct:
  assumes "pool s ps" and "kend s \<le> vstart" and "vstart \<le> vend" and "vend \<le> KERNBASE + PHYSTOP"
    and "\<forall>q\<in>set ps. \<not> (vstart \<le> q \<and> unat q + 4096 \<le> unat vend)"
  shows "\<exists>t qs. freerange vstart vend s = Ret () t \<and> pool t (qs @ ps)
    \<and> set qs = {q. pg_aligned q \<and> vstart \<le> q \<and> unat q + 4096 \<le> unat vend}"
  using freerange_pool [OF assms(1-4)] assms(5) by blast

theorem freerange_correct_witness:
  "\<exists>t qs. freerange 0x80100123 0x80105000 kmem0 = Ret () t \<and> pool t qs
    \<and> set qs = {q. pg_aligned q \<and> 0x80100123 \<le> q \<and> unat q + 4096 \<le> 2148552704}"
  using freerange_correct [OF pool_kmem0, where vstart = "0x80100123" and vend = "0x80105000"]
  by (simp add: kmem0_def KERNBASE_def PHYSTOP_def)

end
