(* ===== verification/Vm.thy ===== *)
theory Vm
  imports Kalloc
begin

text \<open>
  Page tables, vm.c: two-level x86 page tables kept in pages of the page allocator. A page-table
  entry is a 32-bit word in memory; \<open>walkpgdir\<close> answers the address of an entry, as the source
  does. A null pointer is the address 0. Copying from a file (\<open>loaduvm\<close>) is in theory Exec.
\<close>

section \<open>mmu.h\<close>

definition PTE_P :: uint where "PTE_P = 0x001"

definition PTE_W :: uint where "PTE_W = 0x002"

definition PTE_U :: uint where "PTE_U = 0x004"

definition PDX :: "addr \<Rightarrow> uint" where "PDX va = drop_bit 22 va AND 0x3FF"

definition PTX :: "addr \<Rightarrow> uint" where "PTX va = drop_bit 12 va AND 0x3FF"

definition PGADDR :: "uint \<Rightarrow> uint \<Rightarrow> uint \<Rightarrow> addr" where
  "PGADDR d t o' = push_bit 22 d OR push_bit 12 t OR o'"

definition PTE_ADDR :: "uint \<Rightarrow> addr" where "PTE_ADDR pte = pte AND NOT 0xFFF"

definition PTE_FLAGS :: "uint \<Rightarrow> uint" where "PTE_FLAGS pte = pte AND 0xFFF"

section \<open>Walking and mapping\<close>

definition walkpgdir :: "addr \<Rightarrow> addr \<Rightarrow> bool \<Rightarrow> 'a kmem_scheme \<Rightarrow> (addr, 'a kmem_scheme) outcome" where
  "walkpgdir pgdir va alloc s =
     (let pde = pgdir + 4 * PDX va
      in if load32 (mem s) pde AND PTE_P \<noteq> 0
         then Ret (P2V (PTE_ADDR (load32 (mem s) pde)) + 4 * PTX va) s
         else if \<not> alloc then Ret 0 s
         else bindK (kalloc s) (\<lambda>pgtab s.
           if pgtab = 0 then Ret 0 s
           else
             let m = memset pgtab 0 PGSIZE (mem s);
                 m = store32 pde (V2P pgtab OR PTE_P OR PTE_W OR PTE_U) m
             in Ret (pgtab + 4 * PTX va) (s\<lparr>mem := m\<rparr>)))"

text \<open>
  The loop of \<open>mappages\<close> stops when \<open>a\<close> has reached \<open>last\<close>. Its first argument bounds the number of
  pages still to map; \<open>mappages\<close> passes the exact number.
\<close>

fun mappages_loop ::
  "nat \<Rightarrow> addr \<Rightarrow> addr \<Rightarrow> addr \<Rightarrow> uint \<Rightarrow> uint \<Rightarrow> 'a kmem_scheme \<Rightarrow> (int, 'a kmem_scheme) outcome" where
  "mappages_loop 0 pgdir a lst pa perm s = Fault ''mappages: no pages left''"
| "mappages_loop (Suc n) pgdir a lst pa perm s =
     bindK (walkpgdir pgdir a True s) (\<lambda>pte s.
     if pte = 0 then Ret (-1) s
     else if load32 (mem s) pte AND PTE_P \<noteq> 0 then Panic ''remap''
     else
       let s = s\<lparr>mem := store32 pte (pa OR perm OR PTE_P) (mem s)\<rparr>
       in if a = lst then Ret 0 s
          else mappages_loop n pgdir (a + PGSIZE) lst (pa + PGSIZE) perm s)"

definition mappages ::
  "addr \<Rightarrow> addr \<Rightarrow> uint \<Rightarrow> uint \<Rightarrow> uint \<Rightarrow> 'a kmem_scheme \<Rightarrow> (int, 'a kmem_scheme) outcome" where
  "mappages pgdir va sz pa perm s =
     (let a = PGROUNDDOWN va; lst = PGROUNDDOWN (va + sz - 1)
      in mappages_loop (unat (lst - a) div 4096 + 1) pgdir a lst pa perm s)"

section \<open>Releasing user memory\<close>

text \<open>
  Every iteration of the loop of \<open>deallocuvm\<close> moves \<open>a\<close> to a later page, so \<open>2 ^ 20\<close> iterations, the
  number of pages of the address space, are enough.
\<close>

fun deallocuvm_loop :: "nat \<Rightarrow> addr \<Rightarrow> addr \<Rightarrow> addr \<Rightarrow> 'a kmem_scheme \<Rightarrow> (unit, 'a kmem_scheme) outcome" where
  "deallocuvm_loop 0 pgdir a oldsz s = Fault ''deallocuvm: no pages left''"
| "deallocuvm_loop (Suc n) pgdir a oldsz s =
     (if a < oldsz then
        bindK (walkpgdir pgdir a False s) (\<lambda>pte s.
        if pte = 0 then
          deallocuvm_loop n pgdir (PGADDR (PDX a + 1) 0 0 - PGSIZE + PGSIZE) oldsz s
        else if load32 (mem s) pte AND PTE_P \<noteq> 0 then
          (let pa = PTE_ADDR (load32 (mem s) pte)
           in if pa = 0 then Panic ''kfree''
              else bindK (kfree (P2V pa) s) (\<lambda>_ s.
                deallocuvm_loop n pgdir (a + PGSIZE) oldsz (s\<lparr>mem := store32 pte 0 (mem s)\<rparr>)))
        else deallocuvm_loop n pgdir (a + PGSIZE) oldsz s)
      else Ret () s)"

definition deallocuvm :: "addr \<Rightarrow> uint \<Rightarrow> uint \<Rightarrow> 'a kmem_scheme \<Rightarrow> (uint, 'a kmem_scheme) outcome" where
  "deallocuvm pgdir oldsz newsz s =
     (if newsz \<ge> oldsz then Ret oldsz s
      else bindK (deallocuvm_loop (2 ^ 20 + 1) pgdir (PGROUNDUP newsz) oldsz s) (\<lambda>_ s. Ret newsz s))"

definition freevm :: "addr \<Rightarrow> 'a kmem_scheme \<Rightarrow> (unit, 'a kmem_scheme) outcome" where
  "freevm pgdir s =
     (if pgdir = 0 then Panic ''freevm: no pgdir''
      else bindK (deallocuvm pgdir KERNBASE 0 s) (\<lambda>_ s.
        bindK (forK (\<lambda>i s.
            if load32 (mem s) (pgdir + 4 * of_nat i) AND PTE_P \<noteq> 0
            then kfree (P2V (PTE_ADDR (load32 (mem s) (pgdir + 4 * of_nat i)))) s
            else Ret () s) [0..<1024] s) (\<lambda>_ s.
        kfree pgdir s)))"

section \<open>Building address spaces\<close>

text \<open>\<open>kmap\<close>: virtual start, physical start and end, permissions.\<close>

definition kmap :: "'a kmem_scheme \<Rightarrow> (addr \<times> uint \<times> uint \<times> uint) list" where
  "kmap s =
     [(KERNBASE, 0, EXTMEM, PTE_W),
      (KERNBASE + EXTMEM, V2P (KERNBASE + EXTMEM), V2P (kdata s), 0),
      (kdata s, V2P (kdata s), PHYSTOP, PTE_W),
      (DEVSPACE, DEVSPACE, 0, PTE_W)]"

fun setupkvm_loop ::
  "addr \<Rightarrow> (addr \<times> uint \<times> uint \<times> uint) list \<Rightarrow> 'a kmem_scheme \<Rightarrow> (addr, 'a kmem_scheme) outcome" where
  "setupkvm_loop pgdir [] s = Ret pgdir s"
| "setupkvm_loop pgdir ((virt, phys_start, phys_end, perm) # ks) s =
     bindK (mappages pgdir virt (phys_end - phys_start) phys_start perm s) (\<lambda>r s.
     if r < 0 then bindK (freevm pgdir s) (\<lambda>_ s. Ret 0 s)
     else setupkvm_loop pgdir ks s)"

definition setupkvm :: "'a kmem_scheme \<Rightarrow> (addr, 'a kmem_scheme) outcome" where
  "setupkvm s =
     bindK (kalloc s) (\<lambda>pgdir s.
     if pgdir = 0 then Ret 0 s
     else
       let s = s\<lparr>mem := memset pgdir 0 PGSIZE (mem s)\<rparr>
       in if P2V PHYSTOP > DEVSPACE then Panic ''PHYSTOP too high''
          else setupkvm_loop pgdir (kmap s) s)"

text \<open>\<open>for (a = lo; a < hi; a += PGSIZE)\<close> for \<open>hi\<close> in the lower half of the address space.\<close>

definition page_steps :: "addr \<Rightarrow> addr \<Rightarrow> addr list" where
  "page_steps lo hi = map (\<lambda>i. lo + of_nat (4096 * i)) [0..<(unat hi - unat lo + 4095) div 4096]"

definition inituvm :: "addr \<Rightarrow> addr \<Rightarrow> uint \<Rightarrow> 'a kmem_scheme \<Rightarrow> (unit, 'a kmem_scheme) outcome" where
  "inituvm pgdir ini sz s =
     (if sz \<ge> PGSIZE then Panic ''inituvm: more than a page''
      else bindK (kalloc s) (\<lambda>m s.
        let s = s\<lparr>mem := memset m 0 PGSIZE (mem s)\<rparr>
        in bindK (mappages pgdir 0 PGSIZE (V2P m) (PTE_W OR PTE_U) s) (\<lambda>_ s.
           Ret () (s\<lparr>mem := memmove m ini sz (mem s)\<rparr>))))"

fun allocuvm_loop ::
  "addr \<Rightarrow> uint \<Rightarrow> uint \<Rightarrow> addr list \<Rightarrow> 'a kmem_scheme \<Rightarrow> (uint, 'a kmem_scheme) outcome" where
  "allocuvm_loop pgdir oldsz newsz [] s = Ret newsz s"
| "allocuvm_loop pgdir oldsz newsz (a # as) s =
     bindK (kalloc s) (\<lambda>m s.
     if m = 0 then bindK (deallocuvm pgdir newsz oldsz s) (\<lambda>_ s. Ret 0 s)
     else
       let s = s\<lparr>mem := memset m 0 PGSIZE (mem s)\<rparr>
       in bindK (mappages pgdir a PGSIZE (V2P m) (PTE_W OR PTE_U) s) (\<lambda>r s.
          if r < 0 then
            bindK (deallocuvm pgdir newsz oldsz s) (\<lambda>_ s.
            bindK (kfree m s) (\<lambda>_ s. Ret 0 s))
          else allocuvm_loop pgdir oldsz newsz as s))"

definition allocuvm :: "addr \<Rightarrow> uint \<Rightarrow> uint \<Rightarrow> 'a kmem_scheme \<Rightarrow> (uint, 'a kmem_scheme) outcome" where
  "allocuvm pgdir oldsz newsz s =
     (if newsz \<ge> KERNBASE then Ret 0 s
      else if newsz < oldsz then Ret oldsz s
      else allocuvm_loop pgdir oldsz newsz (page_steps (PGROUNDUP oldsz) newsz) s)"

definition clearpteu :: "addr \<Rightarrow> addr \<Rightarrow> 'a kmem_scheme \<Rightarrow> (unit, 'a kmem_scheme) outcome" where
  "clearpteu pgdir uva s =
     bindK (walkpgdir pgdir uva False s) (\<lambda>pte s.
     if pte = 0 then Panic ''clearpteu''
     else Ret () (s\<lparr>mem := store32 pte (load32 (mem s) pte AND NOT PTE_U) (mem s)\<rparr>))"

fun copyuvm_loop ::
  "addr \<Rightarrow> addr \<Rightarrow> addr list \<Rightarrow> 'a kmem_scheme \<Rightarrow> (addr, 'a kmem_scheme) outcome" where
  "copyuvm_loop pgdir d [] s = Ret d s"
| "copyuvm_loop pgdir d (i # is) s =
     bindK (walkpgdir pgdir i False s) (\<lambda>pte s.
     if pte = 0 then Panic ''copyuvm: pte should exist''
     else if load32 (mem s) pte AND PTE_P = 0 then Panic ''copyuvm: page not present''
     else
       let pa = PTE_ADDR (load32 (mem s) pte); flags = PTE_FLAGS (load32 (mem s) pte)
       in bindK (kalloc s) (\<lambda>m s.
          if m = 0 then bindK (freevm d s) (\<lambda>_ s. Ret 0 s)
          else
            let s = s\<lparr>mem := memmove m (P2V pa) PGSIZE (mem s)\<rparr>
            in bindK (mappages d i PGSIZE (V2P m) flags s) (\<lambda>r s.
               if r < 0 then bindK (kfree m s) (\<lambda>_ s. bindK (freevm d s) (\<lambda>_ s. Ret 0 s))
               else copyuvm_loop pgdir d is s)))"

definition copyuvm :: "addr \<Rightarrow> uint \<Rightarrow> 'a kmem_scheme \<Rightarrow> (addr, 'a kmem_scheme) outcome" where
  "copyuvm pgdir sz s =
     bindK (setupkvm s) (\<lambda>d s. if d = 0 then Ret 0 s else copyuvm_loop pgdir d (page_steps 0 sz) s)"

section \<open>Copying to user memory\<close>

text \<open>\<open>uva2ka\<close> dereferences the entry without checking that \<open>walkpgdir\<close> found one.\<close>

definition uva2ka :: "addr \<Rightarrow> addr \<Rightarrow> 'a kmem_scheme \<Rightarrow> (addr, 'a kmem_scheme) outcome" where
  "uva2ka pgdir uva s =
     bindK (walkpgdir pgdir uva False s) (\<lambda>pte s.
     if pte = 0 then Fault ''uva2ka: null pte''
     else if load32 (mem s) pte AND PTE_P = 0 then Ret 0 s
     else if load32 (mem s) pte AND PTE_U = 0 then Ret 0 s
     else Ret (P2V (PTE_ADDR (load32 (mem s) pte))) s)"

lemma copyout_chunk_pos: "PGSIZE - (va - PGROUNDDOWN va) \<noteq> 0"
proof -
  have "unat va div 4096 * 4096 \<le> unat va" and "unat va < unat va div 4096 * 4096 + 4096"
    using div_mult_mod_eq [of "unat va" 4096] mod_less_divisor [of 4096 "unat va"] by linarith+
  then have "unat (va - PGROUNDDOWN va) < 4096"
    by (subst unat_minus_le) (auto simp: unat_PGROUNDDOWN mult.commute)
  then have "va - PGROUNDDOWN va \<noteq> 4096" by auto
  then show ?thesis by (simp add: PGSIZE_def)
qed

function copyout :: "addr \<Rightarrow> addr \<Rightarrow> addr \<Rightarrow> uint \<Rightarrow> 'a kmem_scheme \<Rightarrow> (int, 'a kmem_scheme) outcome" where
  "copyout pgdir va buf len s =
     (if len > 0 then
        let va0 = PGROUNDDOWN va
        in bindK (uva2ka pgdir va0 s) (\<lambda>pa0 s.
           if pa0 = 0 then Ret (-1) s
           else
             let n = PGSIZE - (va - va0);
                 n = (if n > len then len else n)
             in copyout pgdir (va0 + PGSIZE) (buf + n) (len - n)
                  (s\<lparr>mem := memmove (pa0 + (va - va0)) buf n (mem s)\<rparr>))
      else Ret 0 s)"
  by pat_completeness auto
termination
proof (relation "measure (\<lambda>(pgdir, va, buf, len, s). unat len)", goal_cases)
  case (2 pgdir va buf len s va0 pa0 s' n n')
  then have "n' \<noteq> 0" "n' \<le> len"
    using copyout_chunk_pos [of va] by (auto split: if_splits)
  then have "0 < unat n'" "unat n' \<le> unat len"
    by (auto simp: word_le_nat_alt unat_gt_0)
  then have "unat (len - n') < unat len"
    by (simp add: unat_minus_le)
  then show ?case by simp
qed simp

declare copyout.simps [simp del]

section \<open>What the routines leave alone\<close>

lemma walkpgdir_mem_code [kframe]: "mem_code s (walkpgdir pgdir va alloc s)"
  by (auto simp: walkpgdir_def Let_def intro!: mem_code_bind kalloc_mem_code)

lemma mappages_loop_mem_code: "mem_code s (mappages_loop n pgdir a lst pa perm s)"
proof (induction n arbitrary: a pa s)
  case (Suc n)
  show ?case
    by (auto simp: Let_def intro!: mem_code_bind [OF walkpgdir_mem_code] intro!: mem_code_from [OF _ Suc.IH])
qed simp

lemma mappages_mem_code [kframe]: "mem_code s (mappages pgdir va sz pa perm s)"
  by (simp only: mappages_def Let_def mappages_loop_mem_code)

lemma deallocuvm_loop_mem_code: "mem_code s (deallocuvm_loop n pgdir a oldsz s)"
proof (induction n arbitrary: a s)
  case (Suc n)
  show ?case
    by (auto simp: Let_def Suc.IH intro!: mem_code_bind [OF walkpgdir_mem_code] mem_code_bind [OF kfree_mem_code]
        intro!: mem_code_from [OF _ Suc.IH])
qed simp

lemma deallocuvm_mem_code [kframe]: "mem_code s (deallocuvm pgdir oldsz newsz s)"
  by (auto simp: deallocuvm_def intro!: mem_code_bind deallocuvm_loop_mem_code)

lemma freevm_mem_code [kframe]: "mem_code s (freevm pgdir s)"
  by (auto simp: freevm_def intro!: mem_code_bind deallocuvm_mem_code mem_code_forK kfree_mem_code)

lemma setupkvm_loop_mem_code: "mem_code s (setupkvm_loop pgdir ks s)"
  by (induction pgdir ks s rule: setupkvm_loop.induct)
    (auto intro!: mem_code_bind mappages_mem_code freevm_mem_code)

lemma setupkvm_mem_code [kframe]: "mem_code s (setupkvm s)"
  by (auto simp: setupkvm_def Let_def intro!: mem_code_bind [OF kalloc_mem_code]
      intro!: mem_code_from [OF _ setupkvm_loop_mem_code])

lemma allocuvm_loop_mem_code: "mem_code s (allocuvm_loop pgdir oldsz newsz as s)"
proof (induction "as" arbitrary: s)
  case (Cons a as)
  have *: "mem_code u (bindK (mappages pgdir a PGSIZE (V2P m) (PTE_W OR PTE_U) u) (\<lambda>r s.
          if r < 0 then bindK (deallocuvm pgdir newsz oldsz s) (\<lambda>_ s.
            bindK (kfree m s) (\<lambda>_ s. Ret 0 s))
          else allocuvm_loop pgdir oldsz newsz as s))" for u :: "'a kmem_scheme" and m
    by (auto intro!: mem_code_bind mappages_mem_code deallocuvm_mem_code kfree_mem_code Cons.IH)
  show ?case
    by (auto simp: Let_def intro!: mem_code_bind [OF kalloc_mem_code]
        mem_code_bind [OF deallocuvm_mem_code] intro!: mem_code_from [OF _ *])
qed simp

lemma allocuvm_mem_code [kframe]: "mem_code s (allocuvm pgdir oldsz newsz s)"
  by (auto simp: allocuvm_def allocuvm_loop_mem_code)

lemma inituvm_mem_code [kframe]: "mem_code s (inituvm pgdir ini sz s)"
  by (auto simp: inituvm_def Let_def intro!: mem_code_bind [OF kalloc_mem_code]
      intro!: mem_code_from [OF _ mem_code_bind [OF mappages_mem_code]])

lemma copyuvm_loop_mem_code: "mem_code s (copyuvm_loop pgdir d is s)"
proof (induction "is" arbitrary: s)
  case (Cons i "is")
  have *: "mem_code u (bindK (mappages d i PGSIZE pa flags u) (\<lambda>r s.
      if r < 0 then bindK (kfree m s) (\<lambda>_ s. bindK (freevm d s) (\<lambda>_ s. Ret 0 s))
      else copyuvm_loop pgdir d is s))" for u :: "'a kmem_scheme" and pa flags m
    by (auto intro!: mem_code_bind mappages_mem_code freevm_mem_code kfree_mem_code Cons.IH)
  show ?case
    by (auto simp: Let_def intro!: mem_code_bind [OF walkpgdir_mem_code]
        mem_code_bind [OF kalloc_mem_code] mem_code_bind [OF freevm_mem_code]
        intro!: mem_code_from [OF _ *])
qed simp

lemma copyuvm_mem_code [kframe]: "mem_code s (copyuvm pgdir sz s)"
  by (auto simp: copyuvm_def intro!: mem_code_bind setupkvm_mem_code copyuvm_loop_mem_code)

lemma clearpteu_mem_code [kframe]: "mem_code s (clearpteu pgdir uva s)"
  by (auto simp: clearpteu_def intro!: mem_code_bind walkpgdir_mem_code)

lemma uva2ka_mem_code [kframe]: "mem_code s (uva2ka pgdir uva s)"
  by (auto simp: uva2ka_def intro!: mem_code_bind walkpgdir_mem_code)

lemma copyout_mem_code [kframe]: "mem_code s (copyout pgdir va buf len s)"
proof (induction pgdir va buf len s rule: copyout.induct)
  case (1 pgdir va buf len s)
  show ?case
  proof (cases "0 < len")
    case True
    have "mem_code u (if pa = 0 then Ret (- 1) u else copyout pgdir (PGROUNDDOWN va + PGSIZE) (buf + n) (len - n)
            (u\<lparr>mem := memmove (pa + (va - PGROUNDDOWN va)) buf n (mem u)\<rparr>))"
      if "uva2ka pgdir (PGROUNDDOWN va) s = Ret pa u"
        and "n = (if PGSIZE - (va - PGROUNDDOWN va) > len then len else PGSIZE - (va - PGROUNDDOWN va))" for pa u n
      using mem_code_from [OF mem_only_upd(1) 1 [OF True refl that(1) _ refl that(2)]] by simp
    from this [OF _ refl] True show ?thesis
      by (subst copyout.simps) (auto simp only: Let_def if_True intro!: mem_code_bind [OF uva2ka_mem_code])
  qed (subst copyout.simps, simp)
qed

end
