(* ===== verification/Kprint.thy ===== *)
theory Kprint
  imports Kalloc
begin

text \<open>
  Formatted output of the kernel: \<open>printint\<close>, \<open>cprintf\<close> and \<open>consputc\<close> of console.c. The state
  records the characters handed to \<open>consputc\<close>, in order; theory Console says what the screen and
  the serial port make of them.
\<close>

section \<open>Model\<close>

datatype conch = Ch char | BACKSPACE

record kcons = kmem +
  conout :: "conch list"
  cons_locking :: bool

definition consputc :: "conch \<Rightarrow> 'a kcons_scheme \<Rightarrow> 'a kcons_scheme" where
  "consputc c s = s\<lparr>conout := conout s @ [c]\<rparr>"

definition digits :: string where
  "digits = ''0123456789abcdef''"

text \<open>The contents of \<open>buf\<close> after the \<open>do\<close> loop. The callers pass 10 or 16 as the base.\<close>

function printint_loop :: "nat \<Rightarrow> nat \<Rightarrow> string" where
  "printint_loop base x =
     (if base < 2 then []
      else digits ! (x mod base) #
           (if x div base \<noteq> 0 then printint_loop base (x div base) else []))"
  by pat_completeness auto
termination
  by (relation "measure snd") (auto intro!: div_less_dividend simp: div_greater_zero_iff)

declare printint_loop.simps [simp del]

definition printint :: "uint \<Rightarrow> nat \<Rightarrow> bool \<Rightarrow> 'a kcons_scheme \<Rightarrow> 'a kcons_scheme" where
  "printint xx base sign s =
     (let neg = (sign \<and> sint xx < 0);
          x = (if neg then - xx else xx);
          buf = printint_loop base (unat x) @ (if neg then ''-'' else [])
      in fold (\<lambda>c. consputc (Ch c)) (rev buf) s)"

text \<open>An argument of \<open>cprintf\<close>: a word, or a pointer to a string, which may be null.\<close>

datatype parg = PInt uint | PStr "string option"

fun cprintf_loop :: "string \<Rightarrow> parg list \<Rightarrow> 'a kcons_scheme \<Rightarrow> (unit, 'a kcons_scheme) outcome" where
  "cprintf_loop [] args s = Ret () s"
| "cprintf_loop (c # fmt) args s =
     (if c \<noteq> CHR ''%'' then cprintf_loop fmt args (consputc (Ch c) s)
      else case fmt of
        [] \<Rightarrow> Ret () s
      | d # fmt \<Rightarrow>
          if d = CHR ''d'' then
            (case args of PInt x # args \<Rightarrow> cprintf_loop fmt args (printint x 10 True s)
                        | _ \<Rightarrow> Fault ''cprintf: argument'')
          else if d = CHR ''x'' \<or> d = CHR ''p'' then
            (case args of PInt x # args \<Rightarrow> cprintf_loop fmt args (printint x 16 False s)
                        | _ \<Rightarrow> Fault ''cprintf: argument'')
          else if d = CHR ''s'' then
            (case args of
               PStr p # args \<Rightarrow>
                 cprintf_loop fmt args
                   (fold (\<lambda>c. consputc (Ch c)) (case p of None \<Rightarrow> ''(null)'' | Some str \<Rightarrow> str) s)
             | _ \<Rightarrow> Fault ''cprintf: argument'')
          else if d = CHR ''%'' then cprintf_loop fmt args (consputc (Ch d) s)
          else cprintf_loop fmt args (consputc (Ch d) (consputc (Ch CHR ''%'') s)))"

definition cprintf :: "string \<Rightarrow> parg list \<Rightarrow> 'a kcons_scheme \<Rightarrow> (unit, 'a kcons_scheme) outcome" where
  "cprintf fmt args s =
     (if cons_locking s then
        bindK (acquire ConsLk s) (\<lambda>_ s.
        bindK (cprintf_loop fmt args s) (\<lambda>_ s.
        release ConsLk s))
      else cprintf_loop fmt args s)"

section \<open>Numbers\<close>

text \<open>The value of a digit, and of a digit string, least significant digit first.\<close>

definition digit_val :: "char \<Rightarrow> nat" where
  "digit_val c = length (takeWhile (\<lambda>d. d \<noteq> c) digits)"

definition number :: "nat \<Rightarrow> string \<Rightarrow> nat" where
  "number base ds = foldr (\<lambda>c v. digit_val c + base * v) ds 0"

lemma digit_val_digits: "d < 16 \<Longrightarrow> digit_val (digits ! d) = d"
proof -
  assume "d < 16"
  have "map digit_val digits = [0..<16]"
    by (simp add: digit_val_def digits_def upt_rec)
  then have "map digit_val digits ! d = [0..<16] ! d" by simp
  moreover have "length digits = 16" by (simp add: digits_def)
  ultimately show ?thesis using \<open>d < 16\<close> by (simp only: nth_map nth_upt)
qed

lemma number_printint_loop:
  "2 \<le> base \<Longrightarrow> base \<le> 16 \<Longrightarrow> number base (printint_loop base x) = x"
proof (induction base x rule: printint_loop.induct)
  case (1 base x)
  have "x mod base < 16" using 1 by (meson mod_less_divisor less_le_trans zero_less_numeral)
  then show ?case
    using 1 by (subst printint_loop.simps) (auto simp: number_def digit_val_digits div_eq_0_iff)
qed

lemma printint_loop_length:
  "2 \<le> base \<Longrightarrow> x < base ^ n \<Longrightarrow> 0 < n \<Longrightarrow> length (printint_loop base x) \<le> n"
proof (induction n arbitrary: x)
  case (Suc n)
  have "x div base < base ^ n" using Suc.prems by (simp add: less_mult_imp_div_less mult.commute)
  then show ?case
    using Suc by (subst printint_loop.simps, cases n) auto
qed simp

lemma consputc_fold: "fold (\<lambda>c. consputc (Ch c)) cs s = s\<lparr>conout := conout s @ map Ch cs\<rparr>"
  by (induction cs arbitrary: s) (auto simp: consputc_def)

lemma cprintf_loop_plain:
  "CHR ''%'' \<notin> set xs \<Longrightarrow>
   cprintf_loop (xs @ ys) args s = cprintf_loop ys args (s\<lparr>conout := conout s @ map Ch xs\<rparr>)"
  by (induction xs arbitrary: s) (auto simp: consputc_def)

text \<open>Formatted output changes the console only and gives back its lock.\<close>

definition con_only :: "'a kcons_scheme \<Rightarrow> 'a kcons_scheme \<Rightarrow> bool" where
  "con_only s t = (t = s\<lparr>conout := conout t\<rparr>)"

lemma con_only_upd [simp]: "con_only s (s\<lparr>conout := x\<rparr>)"
  by (simp add: con_only_def)

lemma con_only_refl [simp]: "con_only s s"
  by (simp add: con_only_def)

lemma con_only_trans: "con_only s t \<Longrightarrow> con_only t u \<Longrightarrow> con_only s u"
  by (cases s; cases t; cases u) (simp add: con_only_def)

lemma con_only_output:
  "con_only s (consputc c s)" "con_only s (printint x b sg s)" "con_only s (fold (\<lambda>c. consputc (Ch c)) cs s)"
  by (simp_all add: consputc_def printint_def Let_def consputc_fold)

text \<open>The number of words a format consumes, and its arguments being of the right kind.\<close>

fun fmt_ok :: "string \<Rightarrow> parg list \<Rightarrow> bool" where
  "fmt_ok [] args = True"
| "fmt_ok (c # fmt) args =
     (if c \<noteq> CHR ''%'' then fmt_ok fmt args
      else case fmt of
        [] \<Rightarrow> True
      | d # fmt \<Rightarrow>
          if d \<in> {CHR ''d'', CHR ''x'', CHR ''p''} then
            (case args of PInt x # args \<Rightarrow> fmt_ok fmt args | _ \<Rightarrow> False)
          else if d = CHR ''s'' then (case args of PStr x # args \<Rightarrow> fmt_ok fmt args | _ \<Rightarrow> False)
          else fmt_ok fmt args)"

lemma cprintf_loop_returns:
  "fmt_ok fmt args \<Longrightarrow> returns (\<lambda>_ t. con_only s t) (cprintf_loop fmt args s)"
proof (induction "length fmt" arbitrary: fmt args s rule: less_induct)
  case less
  have IH: "returns (\<lambda>_. con_only s) (cprintf_loop f a u)"
    if "fmt_ok f a" "length f < length fmt" "con_only s u" for f a u
    using less.hyps [OF that(2,1), of u] by (rule returns_mono) (rule con_only_trans [OF that(3)])
  have two: "con_only s (consputc d (consputc c s))" for c d
    by (rule con_only_trans) (rule con_only_output)+
  show ?case
  proof (cases fmt)
    case (Cons c f)
    show ?thesis
    proof (cases "c = CHR ''%''")
      case False
      with Cons less.prems show ?thesis by (auto intro!: IH con_only_output)
    next
      case True
      show ?thesis
      proof (cases f)
        case (Cons d g)
        with \<open>fmt = c # f\<close> True less.prems show ?thesis
          by (auto split: list.splits parg.splits if_splits intro!: IH con_only_output two)
      qed (use Cons True in simp)
    qed
  qed simp
qed

lemma cprintf_Ret:
  assumes "fmt_ok fmt args" and "ConsLk \<notin> set (held s)"
  shows "\<exists>out. cprintf fmt args s = Ret () (s\<lparr>conout := out\<rparr>)"
proof -
  have "\<exists>out. cprintf_loop fmt args u = Ret () (u\<lparr>conout := out\<rparr>)" for u :: "'a kcons_scheme"
    using cprintf_loop_returns [OF assms(1), of u] by (auto simp: returns_iff con_only_def)
  from this [of s] this [of "s\<lparr>held := ConsLk # held s\<rparr>"] show ?thesis
    using assms(2) by (auto simp: cprintf_def)
qed

lemma unat_magnitude:
  fixes x :: uint
  shows "int (unat (if sint x < 0 then - x else x)) = \<bar>sint x\<bar>"
proof (cases "uint x < 2 ^ 31")
  case True
  then have "sint x = uint x"
    by (simp add: sint_uint signed_take_bit_eq_take_bit_shift take_bit_eq_mod)
  then show ?thesis by simp
next
  case False
  have k: "uint x < 2 ^ 32" using uint_lt2p [of x] by simp
  have "(uint x + 2 ^ 31) mod 2 ^ 32 = (uint x - 2 ^ 31) mod 2 ^ 32"
    using mod_add_self2 [of "uint x - 2 ^ 31" "2 ^ 32"] by (simp add: algebra_simps)
  also have "\<dots> = uint x - 2 ^ 31" using False k by simp
  finally have "sint x = uint x - 2 ^ 32"
    by (simp add: sint_uint signed_take_bit_eq_take_bit_shift take_bit_eq_mod)
  moreover have "uint (- x) = 2 ^ 32 - uint x"
    using False k by (simp add: uint_word_ariths zmod_zminus1_eq_if)
  ultimately show ?thesis using k by simp
qed

text \<open>
  C25: what \<open>printint\<close> prints is the number in decimal (with its sign) or in hexadecimal, and it
  never overruns its 16-character buffer.
\<close>

theorem printint_correct:
  assumes "b \<in> {10, 16}"
  shows "\<exists>ds. conout (printint x b sign s) = conout s @ map Ch (if sign \<and> sint x < 0 then CHR ''-'' # ds else ds)
      \<and> int (number b (rev ds)) = (if sign then \<bar>sint x\<bar> else uint x) \<and> length ds + 1 \<le> 16"
proof -
  let ?x = "if sign \<and> sint x < 0 then - x else x"
  let ?ds = "printint_loop b (unat ?x)"
  have "length ?ds \<le> 11"
  proof (rule printint_loop_length)
    have "unat ?x < 2 ^ 32" using unsigned_less [of ?x, where 'a = nat] by simp
    also have "(2 :: nat) ^ 32 \<le> b ^ 11" using assms by auto
    finally show "unat ?x < b ^ 11" .
  qed (use assms in auto)
  moreover have "int (number b ?ds) = (if sign then \<bar>sint x\<bar> else uint x)"
    using assms unat_magnitude [of x] by (auto simp: number_printint_loop)
  ultimately show ?thesis
    by (intro exI [of _ "rev ?ds"]) (auto simp: printint_def consputc_fold Let_def)
qed

theorem printint_correct_witness:
  "\<forall>s. \<exists>ds. conout (printint (- 42) 10 True s) = conout s @ map Ch (CHR ''-'' # ds)
      \<and> int (number 10 (rev ds)) = 42 \<and> length ds + 1 \<le> 16"
proof
  fix s :: "'a kcons_scheme"
  show "\<exists>ds. conout (printint (- 42) 10 True s) = conout s @ map Ch (CHR ''-'' # ds)
      \<and> int (number 10 (rev ds)) = 42 \<and> length ds + 1 \<le> 16"
    using printint_correct [of 10 "- 42" True s] by simp
qed

end
