(* ===== verification/Proc.thy ===== *)
theory Proc
  imports Vm Kprint
begin

text \<open>
  The process table: proc.h and the part of proc.c that creates, blocks, wakes, kills and reaps
  processes, and keeps their statistics. The schedulers are in theories Sched and Mlfq; \<open>fork\<close>,
  \<open>exit\<close> and \<open>userinit\<close>, which also handle files, are in theory Procops.

  A pointer to a table entry is its index; a null pointer is \<^term>\<open>None\<close>. The trap frame and the
  saved context of a process are in memory, on its kernel stack, and the entry has their addresses.
\<close>

section \<open>State\<close>

definition NPROC :: nat where "NPROC = 64"

definition NOFILE :: nat where "NOFILE = 16"

definition KSTACKSIZE :: uint where "KSTACKSIZE = 4096"

datatype procstate = UNUSED | EMBRYO | SLEEPING | RUNNABLE | RUNNING | ZOMBIE

record proc =
  p_sz :: uint
  p_pgdir :: addr
  p_kstack :: addr
  p_state :: procstate
  p_pid :: int
  p_parent :: "nat option"
  p_tf :: addr
  p_context :: addr
  p_chan :: "chan option"
  p_killed :: bool
  p_ofile :: "nat \<Rightarrow> nat option"
  p_cwd :: "nat option"
  p_name :: string
  p_priority :: int
  p_ctime :: uint
  p_etime :: uint
  p_rtime :: uint

text \<open>\<open>struct proc_stat\<close>: every array has 64 entries, indexed by process identifier.\<close>

record proc_stat =
  inuse :: "nat \<Rightarrow> int"
  st_pid :: "nat \<Rightarrow> int"
  runtime :: "nat \<Rightarrow> uint"
  num_run :: "nat \<Rightarrow> int"
  current_queue :: "nat \<Rightarrow> int"
  st_ticks :: "nat \<Rightarrow> nat \<Rightarrow> int"

text \<open>
  The globals of proc.c, the clock, and the fields of \<open>struct cpu\<close> of the executing CPU: the
  process it runs, the stack it enters the kernel on and the page directory it uses.
\<close>

record kproc = kcons +
  procs :: "nat \<Rightarrow> proc"
  nextpid :: int
  initproc :: "nat option"
  cxj :: "nat \<Rightarrow> int"
  qxj :: "nat \<Rightarrow> nat \<Rightarrow> nat option"
  pstat_var :: proc_stat
  running_p :: "nat option"
  ticks :: uint
  cpu_proc :: "nat option"
  ts_esp0 :: uint
  cr3 :: uint
  kpgdir :: addr

abbreviation upd_proc :: "nat \<Rightarrow> (proc \<Rightarrow> proc) \<Rightarrow> 'a kproc_scheme \<Rightarrow> 'a kproc_scheme" where
  "upd_proc i f s \<equiv> s\<lparr>procs := (procs s)(i := f (procs s i))\<rparr>"

abbreviation pst :: "'a kproc_scheme \<Rightarrow> nat \<Rightarrow> procstate" where
  "pst s i \<equiv> p_state (procs s i)"

definition pinit :: "'a kproc_scheme \<Rightarrow> 'a kproc_scheme" where
  "pinit s = initlock PtableLk s"

text \<open>The code that calls \<open>myproc\<close> and uses the result without a check.\<close>

definition myproc :: "'a kproc_scheme \<Rightarrow> (nat, 'a kproc_scheme) outcome" where
  "myproc s = (case cpu_proc s of Some p \<Rightarrow> Ret p s | None \<Rightarrow> Fault ''null process'')"

section \<open>Creating a process\<close>

text \<open>
  \<open>mlfq_enter p pid\<close>: the entry of \<open>pstat_var\<close> for a new process and its place at the end of queue
  0. The arrays have 64 entries; an index beyond them is a fault.
\<close>

definition new_stat :: "int \<Rightarrow> uint \<Rightarrow> proc_stat \<Rightarrow> proc_stat" where
  "new_stat pid now st =
     (let n = nat pid
      in st\<lparr>inuse := (inuse st)(n := 1),
            st_ticks := (st_ticks st)(n := (st_ticks st n)(0 := 0, 1 := 0, 2 := 0, 3 := 0)),
            st_pid := (st_pid st)(n := pid),
            current_queue := (current_queue st)(n := 0),
            runtime := (runtime st)(n := now)\<rparr>)"

definition mlfq_enter :: "nat \<Rightarrow> int \<Rightarrow> 'a kproc_scheme \<Rightarrow> (unit, 'a kproc_scheme) outcome" where
  "mlfq_enter p pid s =
     (if pid < 0 \<or> 64 \<le> pid then Fault ''pstat_var''
      else
        let c = cxj s 0 + 1
        in if c < 0 \<or> 64 \<le> c then Fault ''qxj''
           else Ret () (s\<lparr>
             cxj := (cxj s)(0 := c),
             qxj := (qxj s)(0 := (qxj s 0)(nat c := Some p)),
             pstat_var := new_stat pid (ticks s) (pstat_var s)\<rparr>))"

text \<open>Offsets of the fields of \<open>struct trapframe\<close> and \<open>struct context\<close>, and their sizes.\<close>

definition tf_eax :: uint where "tf_eax = 28"

definition tf_es :: uint where "tf_es = 40"

definition tf_ds :: uint where "tf_ds = 44"

definition tf_trapno :: uint where "tf_trapno = 48"

definition tf_eip :: uint where "tf_eip = 56"

definition tf_cs :: uint where "tf_cs = 60"

definition tf_eflags :: uint where "tf_eflags = 64"

definition tf_esp :: uint where "tf_esp = 68"

definition tf_ss :: uint where "tf_ss = 72"

definition sizeof_trapframe :: uint where "sizeof_trapframe = 76"

definition sizeof_context :: uint where "sizeof_context = 20"

definition ctx_eip :: uint where "ctx_eip = 16"

text \<open>
  \<open>allocproc\<close>, given the addresses of the assembly routine \<open>trapret\<close> and of \<open>forkret\<close>. When the
  table is full the code still files \<open>p\<close>, which then points behind the table, in queue 0 and reads
  its \<open>pid\<close>.
\<close>

definition allocproc :: "addr \<Rightarrow> addr \<Rightarrow> 'a kproc_scheme \<Rightarrow> (nat option, 'a kproc_scheme) outcome" where
  "allocproc trapret forkret s =
     bindK (acquire PtableLk s) (\<lambda>_ s.
     case scan (\<lambda>i. pst s i = UNUSED) NPROC of
       None \<Rightarrow>
         (let c = cxj s 0 + 1
          in if c < 0 \<or> 64 \<le> c then Fault ''qxj'' else Fault ''ptable.proc[NPROC].pid'')
     | Some p \<Rightarrow>
         let s = upd_proc p (\<lambda>q. q\<lparr>p_state := EMBRYO, p_priority := 60, p_pid := nextpid s\<rparr>) s;
             s = s\<lparr>nextpid := nextpid s + 1\<rparr>
         in bindK (mlfq_enter p (p_pid (procs s p)) s) (\<lambda>_ s.
            let s = upd_proc p (\<lambda>q. q\<lparr>p_ctime := ticks s, p_rtime := 0\<rparr>) s
            in bindK (release PtableLk s) (\<lambda>_ s.
               bindK (kalloc s) (\<lambda>ks s.
               let s = upd_proc p (\<lambda>q. q\<lparr>p_kstack := ks\<rparr>) s
               in if ks = 0 then Ret None (upd_proc p (\<lambda>q. q\<lparr>p_state := UNUSED\<rparr>) s)
                  else
                    let sp = ks + KSTACKSIZE;
                        sp = sp - sizeof_trapframe;
                        s = upd_proc p (\<lambda>q. q\<lparr>p_tf := sp\<rparr>) s;
                        sp = sp - 4;
                        s = s\<lparr>mem := store32 sp trapret (mem s)\<rparr>;
                        sp = sp - sizeof_context;
                        s = upd_proc p (\<lambda>q. q\<lparr>p_context := sp\<rparr>) s;
                        s = s\<lparr>mem := memset sp 0 sizeof_context (mem s)\<rparr>;
                        s = s\<lparr>mem := store32 (sp + ctx_eip) forkret (mem s)\<rparr>
                    in Ret (Some p) s))))"

section \<open>Giving up the CPU\<close>

text \<open>
  Interrupts are off exactly while a spin lock is held, so the last check of \<open>sched\<close> holds
  whenever the second does.
\<close>

definition sched :: "nat \<Rightarrow> 'a kproc_scheme \<Rightarrow> (unit, 'a kproc_scheme) outcome" where
  "sched p s =
     (if PtableLk \<notin> set (held s) then Panic ''sched ptable.lock''
      else if length (held s) \<noteq> 1 then Panic ''sched locks''
      else if pst s p = RUNNING then Panic ''sched running''
      else Swtch s)"

definition yield :: "'a kproc_scheme \<Rightarrow> (unit, 'a kproc_scheme) outcome" where
  "yield s =
     bindK (acquire PtableLk s) (\<lambda>_ s.
     bindK (myproc s) (\<lambda>p s.
     sched p (upd_proc p (\<lambda>q. q\<lparr>p_state := RUNNABLE\<rparr>) s)))"

definition yield_resume :: "'a kproc_scheme \<Rightarrow> (unit, 'a kproc_scheme) outcome" where
  "yield_resume s = release PtableLk s"

definition sleep :: "chan \<Rightarrow> lockid \<Rightarrow> 'a kproc_scheme \<Rightarrow> (unit, 'a kproc_scheme) outcome" where
  "sleep c lk s =
     (case cpu_proc s of
        None \<Rightarrow> Panic ''sleep''
      | Some p \<Rightarrow>
          bindK (if lk \<noteq> PtableLk
                 then bindK (acquire PtableLk s) (\<lambda>_ s. release lk s)
                 else Ret () s) (\<lambda>_ s.
          sched p (upd_proc p (\<lambda>q. q\<lparr>p_chan := Some c, p_state := SLEEPING\<rparr>) s)))"

text \<open>The rest of \<open>sleep\<close>, when the process runs again.\<close>

definition sleep_resume :: "lockid \<Rightarrow> 'a kproc_scheme \<Rightarrow> (unit, 'a kproc_scheme) outcome" where
  "sleep_resume lk s =
     bindK (myproc s) (\<lambda>p s.
     let s = upd_proc p (\<lambda>q. q\<lparr>p_chan := None\<rparr>) s
     in if lk \<noteq> PtableLk
        then bindK (release PtableLk s) (\<lambda>_ s. acquire lk s)
        else Ret () s)"

definition wake_tab :: "chan option \<Rightarrow> (nat \<Rightarrow> proc) \<Rightarrow> (nat \<Rightarrow> proc)" where
  "wake_tab c = for_each NPROC
     (\<lambda>q. if p_state q = SLEEPING \<and> p_chan q = c then q\<lparr>p_state := RUNNABLE\<rparr> else q)"

definition wakeup1 :: "chan option \<Rightarrow> 'a kproc_scheme \<Rightarrow> 'a kproc_scheme" where
  "wakeup1 c s = s\<lparr>procs := wake_tab c (procs s)\<rparr>"

definition wakeup :: "chan \<Rightarrow> 'a kproc_scheme \<Rightarrow> (unit, 'a kproc_scheme) outcome" where
  "wakeup c s =
     bindK (acquire PtableLk s) (\<lambda>_ s. release PtableLk (wakeup1 (Some c) s))"

section \<open>Signals, priorities, statistics\<close>

definition kill :: "int \<Rightarrow> 'a kproc_scheme \<Rightarrow> (int, 'a kproc_scheme) outcome" where
  "kill pid s =
     bindK (acquire PtableLk s) (\<lambda>_ s.
     case scan (\<lambda>i. p_pid (procs s i) = pid) NPROC of
       Some i \<Rightarrow>
         (let s = upd_proc i (\<lambda>q. q\<lparr>p_killed := True\<rparr>) s;
              s = (if pst s i = SLEEPING then upd_proc i (\<lambda>q. q\<lparr>p_state := RUNNABLE\<rparr>) s else s)
          in bindK (release PtableLk s) (\<lambda>_ s. Ret 0 s))
     | None \<Rightarrow> bindK (release PtableLk s) (\<lambda>_ s. Ret (-1) s))"

definition chprty :: "int \<Rightarrow> int \<Rightarrow> 'a kproc_scheme \<Rightarrow> (int, 'a kproc_scheme) outcome" where
  "chprty pid priority s =
     bindK (acquire PtableLk s) (\<lambda>_ s.
     let s = (case scan (\<lambda>i. p_pid (procs s i) = pid) NPROC of
                Some i \<Rightarrow> upd_proc i (\<lambda>q. q\<lparr>p_priority := priority\<rparr>) s
              | None \<Rightarrow> s)
     in bindK (release PtableLk s) (\<lambda>_ s. Ret pid s))"

definition updatestatistics :: "'a kproc_scheme \<Rightarrow> (unit, 'a kproc_scheme) outcome" where
  "updatestatistics s =
     bindK (acquire PtableLk s) (\<lambda>_ s.
     release PtableLk (s\<lparr>procs := for_each NPROC
       (\<lambda>q. if p_state q = RUNNING then q\<lparr>p_rtime := p_rtime q + 1\<rparr> else q) (procs s)\<rparr>))"

text \<open>\<open>sti\<close> has no effect on the state of the model: no lock is held when \<open>cps\<close> is called.\<close>

definition cps_row :: "'a kproc_scheme \<Rightarrow> proc \<Rightarrow> string \<Rightarrow> (unit, 'a kproc_scheme) outcome" where
  "cps_row s q st =
     cprintf (''%s '' @ [CHR 0x09] @ '' %d '' @ [CHR 0x09] @ '' %d '' @ [CHR 0x09] @ '' '' @ st @ '' ''
              @ [CHR 0x09, CHR 0x09] @ '' %d'' @ [CHR 0x0A] @ '' '')
       [PStr (Some (p_name q)), PInt (word_of_int (p_pid q)),
        PInt (case p_parent q of Some i \<Rightarrow> word_of_int (p_pid (procs s i)) | None \<Rightarrow> 0),
        PInt (p_ctime q)] s"

definition cps :: "'a kproc_scheme \<Rightarrow> (int, 'a kproc_scheme) outcome" where
  "cps s =
     bindK (acquire PtableLk s) (\<lambda>_ s.
     bindK (cprintf (''name '' @ [CHR 0x09] @ '' pid '' @ [CHR 0x09] @ '' ppid '' @ [CHR 0x09]
              @ '' state '' @ [CHR 0x09, CHR 0x09] @ '' ctime '' @ [CHR 0x0A]) [] s) (\<lambda>_ s.
     bindK (forK (\<lambda>i s.
         if pst s i = SLEEPING then cps_row s (procs s i) ''SLEEPING''
         else if pst s i = RUNNING then cps_row s (procs s i) ''RUNNING''
         else if pst s i = RUNNABLE then cps_row s (procs s i) ''RUNNABLE''
         else Ret () s) [0..<NPROC] s) (\<lambda>_ s.
     bindK (release PtableLk s) (\<lambda>_ s. Ret 23 s))))"

section \<open>Reaping children\<close>

definition zombie_child :: "nat \<Rightarrow> 'a kproc_scheme \<Rightarrow> nat \<Rightarrow> bool" where
  "zombie_child c s i = (p_parent (procs s i) = Some c \<and> pst s i = ZOMBIE)"

definition havekids :: "nat \<Rightarrow> 'a kproc_scheme \<Rightarrow> bool" where
  "havekids c s = (scan (\<lambda>i. p_parent (procs s i) = Some c) NPROC \<noteq> None)"

text \<open>Releases what entry \<open>i\<close> owns and marks it unused; the times are still there.\<close>

definition reap :: "nat \<Rightarrow> 'a kproc_scheme \<Rightarrow> (int, 'a kproc_scheme) outcome" where
  "reap i s =
     (let pid = p_pid (procs s i)
      in bindK (kfree (p_kstack (procs s i)) s) (\<lambda>_ s.
         bindK (freevm (p_pgdir (procs s i)) (upd_proc i (\<lambda>q. q\<lparr>p_kstack := 0\<rparr>) s)) (\<lambda>_ s.
         Ret pid (upd_proc i (\<lambda>q. q\<lparr>p_pid := 0, p_parent := None, p_name := [],
                                     p_killed := False, p_state := UNUSED\<rparr>) s))))"

definition reset_times :: "proc \<Rightarrow> proc" where
  "reset_times q = q\<lparr>p_etime := 0, p_ctime := 0, p_rtime := 0\<rparr>"

text \<open>One turn of the endless loop of \<open>wait\<close>; it is entered and left with the table locked.\<close>

definition wait_body :: "nat \<Rightarrow> 'a kproc_scheme \<Rightarrow> (int, 'a kproc_scheme) outcome" where
  "wait_body c s =
     (case scan (zombie_child c s) NPROC of
        Some i \<Rightarrow>
          bindK (reap i s) (\<lambda>pid s.
          bindK (release PtableLk (upd_proc i reset_times s)) (\<lambda>_ s. Ret pid s))
      | None \<Rightarrow>
          if \<not> havekids c s \<or> p_killed (procs s c)
          then bindK (release PtableLk s) (\<lambda>_ s. Ret (-1) s)
          else bindK (sleep (CProc c) PtableLk s) (\<lambda>_ s. Ret 0 s))"

definition wait :: "'a kproc_scheme \<Rightarrow> (int, 'a kproc_scheme) outcome" where
  "wait s =
     bindK (myproc s) (\<lambda>c s.
     bindK (acquire PtableLk s) (\<lambda>_ s. wait_body c s))"

definition wait_resume :: "'a kproc_scheme \<Rightarrow> (int, 'a kproc_scheme) outcome" where
  "wait_resume s =
     bindK (myproc s) (\<lambda>c s.
     bindK (sleep_resume PtableLk s) (\<lambda>_ s. wait_body c s))"

text \<open>
  \<open>waitx\<close> stores the waiting and the running time through pointers into the memory of the caller;
  they are the second component of the result. The subtraction is unsigned.
\<close>

definition waitx_body :: "nat \<Rightarrow> 'a kproc_scheme \<Rightarrow> (int \<times> (uint \<times> uint) option, 'a kproc_scheme) outcome" where
  "waitx_body c s =
     (case scan (zombie_child c s) NPROC of
        Some i \<Rightarrow>
          bindK (reap i s) (\<lambda>pid s.
          let q = procs s i; wtime = p_etime q - p_ctime q - p_rtime q; rtime = p_rtime q
          in bindK (release PtableLk (upd_proc i reset_times s)) (\<lambda>_ s.
             Ret (pid, Some (wtime, rtime)) s))
      | None \<Rightarrow>
          if \<not> havekids c s \<or> p_killed (procs s c)
          then bindK (release PtableLk s) (\<lambda>_ s. Ret (-1, None) s)
          else bindK (sleep (CProc c) PtableLk s) (\<lambda>_ s. Ret (0, None) s))"

definition waitx :: "'a kproc_scheme \<Rightarrow> (int \<times> (uint \<times> uint) option, 'a kproc_scheme) outcome" where
  "waitx s =
     bindK (myproc s) (\<lambda>c s.
     bindK (acquire PtableLk s) (\<lambda>_ s. waitx_body c s))"

section \<open>Exiting\<close>

text \<open>
  The end of \<open>exit\<close>, once the files and the working directory are released: the parent is woken,
  the children go to \<open>initproc\<close>, which is woken when one of them is a zombie.
\<close>

definition reparent1 :: "nat \<Rightarrow> nat option \<Rightarrow> nat \<Rightarrow> (nat \<Rightarrow> proc) \<Rightarrow> (nat \<Rightarrow> proc)" where
  "reparent1 c ini i ps =
     (if p_parent (ps i) = Some c then
        let ps = ps(i := (ps i)\<lparr>p_parent := ini\<rparr>)
        in if p_state (ps i) = ZOMBIE then wake_tab (map_option CProc ini) ps else ps
      else ps)"

definition reparent :: "nat \<Rightarrow> 'a kproc_scheme \<Rightarrow> 'a kproc_scheme" where
  "reparent c s = s\<lparr>procs := fold (reparent1 c (initproc s)) [0..<NPROC] (procs s)\<rparr>"

definition exit_tail :: "nat \<Rightarrow> 'a kproc_scheme \<Rightarrow> (unit, 'a kproc_scheme) outcome" where
  "exit_tail c s =
     (let s = upd_proc c (\<lambda>q. q\<lparr>p_cwd := None, p_etime := ticks s\<rparr>) s
      in bindK (acquire PtableLk s) (\<lambda>_ s.
         let s = wakeup1 (map_option CProc (p_parent (procs s c))) s;
             s = reparent c s;
             s = upd_proc c (\<lambda>q. q\<lparr>p_state := ZOMBIE\<rparr>) s
         in bindK (sched c s) (\<lambda>_ s. Panic ''zombie exit'')))"

section \<open>Address space of the running process\<close>

definition switchuvm :: "nat \<Rightarrow> 'a kproc_scheme \<Rightarrow> (unit, 'a kproc_scheme) outcome" where
  "switchuvm p s =
     (if p_kstack (procs s p) = 0 then Panic ''switchuvm: no kstack''
      else if p_pgdir (procs s p) = 0 then Panic ''switchuvm: no pgdir''
      else Ret () (s\<lparr>ts_esp0 := p_kstack (procs s p) + KSTACKSIZE,
                      cr3 := V2P (p_pgdir (procs s p))\<rparr>))"

definition switchkvm :: "'a kproc_scheme \<Rightarrow> 'a kproc_scheme" where
  "switchkvm s = s\<lparr>cr3 := V2P (kpgdir s)\<rparr>"

definition growproc :: "int \<Rightarrow> 'a kproc_scheme \<Rightarrow> (int, 'a kproc_scheme) outcome" where
  "growproc n s =
     bindK (myproc s) (\<lambda>c s.
     let sz = p_sz (procs s c)
     in bindK (if n > 0 then allocuvm (p_pgdir (procs s c)) sz (sz + word_of_int n) s
               else if n < 0 then deallocuvm (p_pgdir (procs s c)) sz (sz + word_of_int n) s
               else Ret sz s) (\<lambda>sz s.
        if n \<noteq> 0 \<and> sz = 0 then Ret (-1) s
        else
          let s = upd_proc c (\<lambda>q. q\<lparr>p_sz := sz\<rparr>) s
          in bindK (switchuvm c s) (\<lambda>_ s. Ret 0 s)))"

section \<open>Well-formed process tables\<close>

definition live :: "'a kproc_scheme \<Rightarrow> nat \<Rightarrow> bool" where
  "live s i = (i < NPROC \<and> pst s i \<noteq> UNUSED)"

text \<open>
  Identifiers in the table were handed out before; those that are not 0 differ, and those of live
  processes are not 0. A sleeping process has a channel; parents are table entries.
\<close>

definition ptable_ok :: "'a kproc_scheme \<Rightarrow> bool" where
  "ptable_ok s \<longleftrightarrow>
     0 < nextpid s
   \<and> (\<forall>i<NPROC. 0 \<le> p_pid (procs s i) \<and> p_pid (procs s i) < nextpid s)
   \<and> (\<forall>i. live s i \<longrightarrow> p_pid (procs s i) \<noteq> 0)
   \<and> (\<forall>i<NPROC. \<forall>j<NPROC. p_pid (procs s i) = p_pid (procs s j) \<longrightarrow> p_pid (procs s i) \<noteq> 0 \<longrightarrow> i = j)
   \<and> (\<forall>i<NPROC. pst s i = SLEEPING \<longrightarrow> p_chan (procs s i) \<noteq> None)
   \<and> (\<forall>i<NPROC. \<forall>q. p_parent (procs s i) = Some q \<longrightarrow> q < NPROC)
   \<and> (\<forall>q. initproc s = Some q \<longrightarrow> q < NPROC)"

lemma mem_only_kproc:
  assumes "mem_only s t"
  shows "procs t = procs s" "nextpid t = nextpid s" "initproc t = initproc s" "cxj t = cxj s"
    "qxj t = qxj s" "pstat_var t = pstat_var s" "running_p t = running_p s" "ticks t = ticks s"
    "cpu_proc t = cpu_proc s" "conout t = conout s"
  using assms by (cases s; cases t; simp add: mem_only_def)+

lemma ptable_ok_cong:
  "procs t = procs s \<Longrightarrow> nextpid t = nextpid s \<Longrightarrow> initproc t = initproc s \<Longrightarrow> ptable_ok t = ptable_ok s"
  by (simp add: ptable_ok_def live_def)

section \<open>Normal forms of the table operations\<close>

lemma wakeup1_apply:
  "procs (wakeup1 c s) i =
     (if i < NPROC \<and> pst s i = SLEEPING \<and> p_chan (procs s i) = c
      then (procs s i)\<lparr>p_state := RUNNABLE\<rparr> else procs s i)"
  by (simp add: wakeup1_def wake_tab_def)

lemma wakeup_eq: "PtableLk \<notin> set (held s) \<Longrightarrow> wakeup c s = Ret () (wakeup1 (Some c) s)"
  by (simp add: wakeup_def wakeup1_def)

lemma kill_eq:
  "PtableLk \<notin> set (held s) \<Longrightarrow>
   kill pid s =
     (case scan (\<lambda>i. p_pid (procs s i) = pid) NPROC of
        Some i \<Rightarrow> Ret 0 (upd_proc i (\<lambda>q. q\<lparr>p_killed := True,
                     p_state := (if p_state q = SLEEPING then RUNNABLE else p_state q)\<rparr>) s)
      | None \<Rightarrow> Ret (-1) s)"
  by (auto simp: kill_def Let_def split: option.splits)

lemma chprty_eq:
  "PtableLk \<notin> set (held s) \<Longrightarrow>
   chprty pid prio s =
     Ret pid (case scan (\<lambda>i. p_pid (procs s i) = pid) NPROC of
                Some i \<Rightarrow> upd_proc i (\<lambda>q. q\<lparr>p_priority := prio\<rparr>) s
              | None \<Rightarrow> s)"
  by (auto simp: chprty_def Let_def split: option.splits)

lemma updatestatistics_eq:
  "PtableLk \<notin> set (held s) \<Longrightarrow>
   updatestatistics s = Ret () (s\<lparr>procs := for_each NPROC
     (\<lambda>q. if p_state q = RUNNING then q\<lparr>p_rtime := p_rtime q + 1\<rparr> else q) (procs s)\<rparr>)"
  by (simp add: updatestatistics_def)

lemma sleep_eq:
  "cpu_proc s = Some p \<Longrightarrow> held s = [lk] \<Longrightarrow>
   sleep c lk s = Swtch (upd_proc p (\<lambda>q. q\<lparr>p_chan := Some c, p_state := SLEEPING\<rparr>) (s\<lparr>held := [PtableLk]\<rparr>))"
  by (auto simp: sleep_def sched_def release_def)

lemma yield_eq:
  "cpu_proc s = Some p \<Longrightarrow> held s = [] \<Longrightarrow>
   yield s = Swtch (upd_proc p (\<lambda>q. q\<lparr>p_state := RUNNABLE\<rparr>) (s\<lparr>held := [PtableLk]\<rparr>))"
  by (simp add: yield_def myproc_def sched_def)

lemma sleep_resume_eq:
  "cpu_proc s = Some p \<Longrightarrow> held s = [PtableLk] \<Longrightarrow>
   sleep_resume lk s = Ret () (upd_proc p (\<lambda>q. q\<lparr>p_chan := None\<rparr>) (s\<lparr>held := [lk]\<rparr>))"
  by (auto simp: sleep_resume_def myproc_def Let_def)

section \<open>Reaping and exiting\<close>

definition reaped :: "proc \<Rightarrow> proc" where
  "reaped q = q\<lparr>p_kstack := 0, p_pid := 0, p_parent := None, p_name := [], p_killed := False,
                p_state := UNUSED\<rparr>"

text \<open>States that agree on everything but memory, the free list and the process table.\<close>

definition table_only :: "'a kproc_scheme \<Rightarrow> 'a kproc_scheme \<Rightarrow> bool" where
  "table_only s t = mem_only s (t\<lparr>procs := procs s\<rparr>)"

lemma table_onlyD:
  assumes "table_only s t"
  shows "held t = held s" "nextpid t = nextpid s" "initproc t = initproc s" "cxj t = cxj s"
    "qxj t = qxj s" "pstat_var t = pstat_var s" "running_p t = running_p s" "ticks t = ticks s"
    "cpu_proc t = cpu_proc s" "conout t = conout s"
  using assms by (cases s; cases t; simp add: table_only_def mem_only_def)+

lemma reap_Ret:
  assumes "reap i s = Ret pid t"
  shows "pid = p_pid (procs s i)" and "procs t = (procs s)(i := reaped (procs s i))" and "table_only s t"
proof -
  obtain u v where u: "kfree (p_kstack (procs s i)) s = Ret () u"
    and v: "freevm (p_pgdir (procs u i)) (upd_proc i (\<lambda>q. q\<lparr>p_kstack := 0\<rparr>) u) = Ret () v"
    and t: "t = upd_proc i (\<lambda>q. q\<lparr>p_pid := 0, p_parent := None, p_name := [],
                 p_killed := False, p_state := UNUSED\<rparr>) v"
    and pid: "pid = p_pid (procs s i)"
    using assms by (auto simp: reap_def Let_def)
  have us: "mem_only s u" using kfree_mem_code [of s] u by (metis mem_code.simps(1))
  have vu: "mem_only (upd_proc i (\<lambda>q. q\<lparr>p_kstack := 0\<rparr>) u) v"
    using freevm_mem_code v by (metis mem_code.simps(1))
  note frame = mem_only_kproc [OF us] mem_only_kproc [OF vu]
  show "pid = p_pid (procs s i)" by (rule pid)
  show "procs t = (procs s)(i := reaped (procs s i))"
    by (simp add: t frame reaped_def)
  have "mem_only u (v\<lparr>procs := procs u\<rparr>)"
    using vu by (cases u; cases v; simp add: mem_only_def)
  with us have "mem_only s (v\<lparr>procs := procs u\<rparr>)" by (rule mem_only_trans)
  then show "table_only s t" by (simp add: table_only_def t frame)
qed

lemma reap_not_Swtch: "reap i s \<noteq> Swtch t"
  by (simp add: reap_def Let_def mem_code_Swtch [OF kfree_mem_code] mem_code_Swtch [OF freevm_mem_code])

text \<open>The table after the first \<open>n\<close> turns of the loop of \<open>exit\<close>.\<close>

definition reparented :: "nat \<Rightarrow> nat option \<Rightarrow> nat \<Rightarrow> (nat \<Rightarrow> proc) \<Rightarrow> nat \<Rightarrow> proc" where
  "reparented c ini n ps i =
     (ps i)\<lparr>p_parent := (if i < n \<and> p_parent (ps i) = Some c then ini else p_parent (ps i)),
            p_state := (if i < NPROC \<and> p_state (ps i) = SLEEPING \<and> p_chan (ps i) = map_option CProc ini
                          \<and> (\<exists>j<n. p_parent (ps j) = Some c \<and> p_state (ps j) = ZOMBIE)
                        then RUNNABLE else p_state (ps i))\<rparr>"

lemma reparented_Suc:
  assumes "n < NPROC"
  shows "reparent1 c ini n (reparented c ini n ps) = reparented c ini (Suc n) ps"
proof
  fix i
  have Z: "p_state (reparented c ini n ps n) = ZOMBIE \<longleftrightarrow> p_state (ps n) = ZOMBIE"
    and P: "p_parent (reparented c ini n ps n) = p_parent (ps n)"
    by (simp_all add: reparented_def)
  consider "p_parent (ps n) \<noteq> Some c" | "p_parent (ps n) = Some c" "p_state (ps n) \<noteq> ZOMBIE"
    | "p_parent (ps n) = Some c" "p_state (ps n) = ZOMBIE" by blast
  then show "reparent1 c ini n (reparented c ini n ps) i = reparented c ini (Suc n) ps i"
  proof cases
    case 1
    then have "p_parent (ps i) = Some c \<Longrightarrow> i < Suc n \<longleftrightarrow> i < n" by (auto simp: less_Suc_eq)
    with 1 show ?thesis by (auto simp: reparent1_def P reparented_def less_Suc_eq)
  next
    case 2
    then show ?thesis by (cases "i = n") (auto simp: reparent1_def P Z reparented_def less_Suc_eq)
  next
    case 3
    then show ?thesis
      by (cases "i = n") (auto simp: reparent1_def P Z Let_def wake_tab_def reparented_def less_Suc_eq)
  qed
qed

lemma reparent_eq: "reparent c s = s\<lparr>procs := reparented c (initproc s) NPROC (procs s)\<rparr>"
proof -
  have "fold (reparent1 c ini) [0..<n] ps = reparented c ini n ps" if "n \<le> NPROC" for n ini ps
    using that by (induction n) (auto simp: reparented_Suc, auto simp: reparented_def fun_eq_iff)
  then show ?thesis by (simp add: reparent_def)
qed

definition exited :: "nat \<Rightarrow> 'a kproc_scheme \<Rightarrow> nat \<Rightarrow> proc" where
  "exited c s =
     (let ps = (procs s)(c := (procs s c)\<lparr>p_cwd := None, p_etime := ticks s\<rparr>);
          ps = wake_tab (map_option CProc (p_parent (ps c))) ps;
          ps = reparented c (initproc s) NPROC ps
      in ps(c := (ps c)\<lparr>p_state := ZOMBIE\<rparr>))"

lemma exit_tail_eq:
  "held s = [] \<Longrightarrow> exit_tail c s = Swtch (s\<lparr>held := [PtableLk], procs := exited c s\<rparr>)"
  by (simp add: exit_tail_def Let_def wakeup1_def reparent_eq sched_def exited_def wake_tab_def)

section \<open>Waiting\<close>

lemma wait_body_reaps:
  assumes "scan (zombie_child c s) NPROC = Some i" and "held s = [PtableLk]"
    and "wait_body c s = Ret r t"
  shows "r = p_pid (procs s i)" and "held t = []"
    and "procs t = (procs s)(i := reset_times (reaped (procs s i)))"
    and "nextpid t = nextpid s" "initproc t = initproc s" "cpu_proc t = cpu_proc s"
proof -
  obtain u where u: "reap i s = Ret r u" and t: "release PtableLk (upd_proc i reset_times u) = Ret () t"
    using assms by (auto simp: wait_body_def)
  note R = reap_Ret [OF u]
  have t': "t = upd_proc i reset_times (u\<lparr>held := []\<rparr>)"
    using t table_onlyD(1) [OF R(3)] assms(2) by auto
  show "r = p_pid (procs s i)" "held t = []" "procs t = (procs s)(i := reset_times (reaped (procs s i)))"
    "nextpid t = nextpid s" "initproc t = initproc s" "cpu_proc t = cpu_proc s"
    using R table_onlyD [OF R(3)] by (simp_all add: t')
qed

lemma wait_body_none:
  assumes "scan (zombie_child c s) NPROC = None" and "held s = [PtableLk]"
  shows "\<not> havekids c s \<or> p_killed (procs s c) \<Longrightarrow> wait_body c s = Ret (- 1) (s\<lparr>held := []\<rparr>)"
    and "havekids c s \<Longrightarrow> \<not> p_killed (procs s c) \<Longrightarrow> cpu_proc s = Some c \<Longrightarrow>
         wait_body c s = Swtch (upd_proc c (\<lambda>q. q\<lparr>p_chan := Some (CProc c), p_state := SLEEPING\<rparr>) s)"
  using assms by (auto simp: wait_body_def sleep_eq)

section \<open>Allocating a process\<close>

text \<open>The state \<open>allocproc\<close> leaves behind when it takes entry \<open>p\<close> and the page \<open>k\<close>.\<close>

definition new_proc :: "addr \<Rightarrow> 'a kproc_scheme \<Rightarrow> proc \<Rightarrow> proc" where
  "new_proc k s q = q\<lparr>p_state := EMBRYO, p_priority := 60, p_pid := nextpid s, p_ctime := ticks s,
     p_rtime := 0, p_kstack := k, p_tf := k + 4020, p_context := k + 3996\<rparr>"

definition new_stack :: "addr \<Rightarrow> addr \<Rightarrow> addr \<Rightarrow> memory \<Rightarrow> memory" where
  "new_stack trapret forkret k m =
     store32 (k + 4012) forkret (memset (k + 3996) 0 sizeof_context (store32 (k + 4016) trapret m))"

lemma kalloc_head:
  "freelist s = k \<Longrightarrow> k \<noteq> 0 \<Longrightarrow> KmemLk \<notin> set (held s) \<Longrightarrow>
   kalloc s = Ret k (s\<lparr>freelist := load32 (mem s) k\<rparr>)"
  by (simp add: kalloc_def kmem_lock_def kmem_unlock_def)

lemma stack_arith:
  "k + KSTACKSIZE - sizeof_trapframe = k + 4020" "k + 4020 - 4 = (k + 4016 :: uint)"
  "k + 4016 - sizeof_context = k + 3996" "k + 3996 + ctx_eip = k + 4012"
  by (simp_all add: KSTACKSIZE_def sizeof_trapframe_def sizeof_context_def ctx_eip_def algebra_simps)

lemma allocproc_Some:
  assumes "PtableLk \<notin> set (held s)" and "scan (\<lambda>i. pst s i = UNUSED) NPROC = Some p"
    and "0 \<le> nextpid s" "nextpid s < 64" "-1 \<le> cxj s 0" "cxj s 0 < 63" and "pool s (k # ks)"
  shows "allocproc trapret forkret s =
      Ret (Some p) (s\<lparr>mem := new_stack trapret forkret k (mem s), freelist := load32 (mem s) k,
        procs := (procs s)(p := new_proc k s (procs s p)), nextpid := nextpid s + 1,
        cxj := (cxj s)(0 := cxj s 0 + 1),
        qxj := (qxj s)(0 := (qxj s 0)(nat (cxj s 0 + 1) := Some p)),
        pstat_var := new_stat (nextpid s) (ticks s) (pstat_var s)\<rparr>)"
proof -
  have k: "k \<noteq> 0" "freelist s = k" "KmemLk \<notin> set (held s)"
    using kmem.invar_pages [OF assms(7)] poolD [OF assms(7)] assms(7) by (auto simp: pool_def)
  show ?thesis
    using assms(1-6) k
    by (simp add: allocproc_def mlfq_enter_def kalloc_head Let_def stack_arith new_proc_def new_stack_def)
qed

lemma new_stack_loads:
  "load32 (new_stack trapret forkret k m) (k + 4012) = forkret"
  "load32 (new_stack trapret forkret k m) (k + 4016) = trapret"
proof -
  show "load32 (new_stack trapret forkret k m) (k + 4012) = forkret" by (simp add: new_stack_def)
  have "load32 (new_stack trapret forkret k m) (k + 4016) = load32 (store32 (k + 4016) trapret m) (k + 4016)"
    by (simp add: new_stack_def load32_def memset_apply sizeof_context_def store32_def add.assoc)
  then show "load32 (new_stack trapret forkret k m) (k + 4016) = trapret" by simp
qed

lemma new_stack_frame:
  assumes "pg_aligned k" and "page_of a \<noteq> page_of k"
  shows "new_stack trapret forkret k m a = m a"
proof -
  have "a \<noteq> k + of_nat i" if "i < 4096" for i
    using page_of_offset [OF assms(1) that] assms(2) by auto
  from this [of 4012] this [of 4013] this [of 4014] this [of 4015] this [of 4016] this [of 4017]
    this [of 4018] this [of 4019]
  have "store32 (k + 4012) forkret x a = x a" "store32 (k + 4016) trapret x a = x a" for x
    by (simp_all add: store32_def add.assoc)
  moreover have "\<not> unat (a - (k + 3996)) < 20"
  proof
    assume lt: "unat (a - (k + 3996)) < 20"
    have "a = k + of_nat (3996 + unat (a - (k + 3996)))" by simp
    with lt page_of_offset [OF assms(1), of "3996 + unat (a - (k + 3996))"] assms(2) show False by auto
  qed
  ultimately show ?thesis by (simp add: new_stack_def memset_apply sizeof_context_def)
qed

section \<open>Every operation keeps the table well formed\<close>

lemma ptable_okD:
  assumes "ptable_ok s"
  shows "0 < nextpid s" and "live s i \<Longrightarrow> p_pid (procs s i) \<noteq> 0" and "i < NPROC \<Longrightarrow> p_pid (procs s i) < nextpid s"
    and "i < NPROC \<Longrightarrow> j < NPROC \<Longrightarrow> p_pid (procs s i) = p_pid (procs s j) \<Longrightarrow> p_pid (procs s i) \<noteq> 0 \<Longrightarrow> i = j"
    and "i < NPROC \<Longrightarrow> pst s i = SLEEPING \<Longrightarrow> p_chan (procs s i) \<noteq> None"
    and "i < NPROC \<Longrightarrow> p_parent (procs s i) = Some q \<Longrightarrow> q < NPROC"
    and "initproc s = Some q \<Longrightarrow> q < NPROC" and "i < NPROC \<Longrightarrow> 0 \<le> p_pid (procs s i)"
  using assms unfolding ptable_ok_def by blast+

lemma ptable_okI:
  assumes ok: "ptable_ok s" and np: "nextpid t = nextpid s" and ip: "initproc t = initproc s"
    and pid: "\<And>i. i < NPROC \<Longrightarrow> p_pid (procs t i) \<in> {p_pid (procs s i), 0}"
    and lv: "\<And>i. live t i \<Longrightarrow> live s i \<and> p_pid (procs t i) = p_pid (procs s i)"
    and sl: "\<And>i. i < NPROC \<Longrightarrow> pst t i = SLEEPING \<Longrightarrow> p_chan (procs t i) \<noteq> None"
    and par: "\<And>i r. i < NPROC \<Longrightarrow> p_parent (procs t i) = Some r \<Longrightarrow>
      p_parent (procs s i) = Some r \<or> initproc s = Some r \<or> r < NPROC"
  shows "ptable_ok t"
  unfolding ptable_ok_def np ip
proof (intro conjI allI impI)
  fix i j
  assume "i < NPROC" "j < NPROC" "p_pid (procs t i) = p_pid (procs t j)" "p_pid (procs t i) \<noteq> 0"
  then show "i = j" using pid [of i] pid [of j] ptable_okD(4) [OF ok, of i j] by auto
next
  fix i q
  assume "i < NPROC" "p_parent (procs t i) = Some q"
  then show "q < NPROC" using par [of i q] ptable_okD(6) [OF ok, of i q] ptable_okD(7) [OF ok, of q] by auto
next
  fix i
  assume "i < NPROC"
  then show "0 \<le> p_pid (procs t i)" "p_pid (procs t i) < nextpid s"
    using pid [of i] ptable_okD(1) [OF ok] ptable_okD(3,8) [OF ok, of i] by auto
next
  fix i
  assume "live t i"
  then show "p_pid (procs t i) \<noteq> 0" using lv [of i] ptable_okD(2) [OF ok, of i] by simp
qed (use sl ptable_okD(1,7) [OF ok] in \<open>simp_all\<close>)

lemma live_wakeup1 [simp]: "live (wakeup1 c s) i = live s i"
  by (auto simp: live_def wakeup1_apply)

lemma wakeup1_ok: "ptable_ok s \<Longrightarrow> ptable_ok (wakeup1 c s)"
  by (rule ptable_okI [where s = s])
    (auto simp: wakeup1_apply dest: ptable_okD(5) split: if_splits, auto simp: wakeup1_def)

text \<open>Updating one live entry, keeping its identity.\<close>

lemma ptable_ok_upd:
  assumes ok: "ptable_ok s" and t: "procs t = (procs s)(p := q)" "nextpid t = nextpid s" "initproc t = initproc s"
    and "p_state q \<noteq> UNUSED \<Longrightarrow> p < NPROC \<Longrightarrow> pst s p \<noteq> UNUSED \<and> p_pid q = p_pid (procs s p)"
    and "p_state q = SLEEPING \<Longrightarrow> p < NPROC \<Longrightarrow> p_chan q \<noteq> None"
    and "\<And>r. p_parent q = Some r \<Longrightarrow> p_parent (procs s p) = Some r \<or> r < NPROC"
    and "p_pid q \<in> {p_pid (procs s p), 0}"
  shows "ptable_ok t"
proof (rule ptable_okI [OF ok t(2,3)])
  fix i
  show "p_pid (procs t i) \<in> {p_pid (procs s i), 0}" using assms(8) by (auto simp: t)
  show "i < NPROC \<Longrightarrow> pst t i = SLEEPING \<Longrightarrow> p_chan (procs t i) \<noteq> None"
    using assms(6) ptable_okD(5) [OF ok, of i] by (cases "i = p") (auto simp: t)
  show "\<And>r. p_parent (procs t i) = Some r \<Longrightarrow> p_parent (procs s i) = Some r \<or> initproc s = Some r \<or> r < NPROC"
    using assms(7) by (auto simp: t split: if_splits)
  show "live s i \<and> p_pid (procs t i) = p_pid (procs s i)" if "live t i"
    using that assms(5) by (cases "i = p") (auto simp: t live_def)
qed

lemma kill_ok:
  assumes "ptable_ok s" and "PtableLk \<notin> set (held s)" and "kill pid s = Ret r t"
  shows "ptable_ok t"
proof (cases "scan (\<lambda>i. p_pid (procs s i) = pid) NPROC")
  case (Some i)
  then show ?thesis
    using assms by (auto simp: kill_eq intro!: ptable_ok_upd [where s = s] split: if_splits dest: ptable_okD(5))
qed (use assms in \<open>auto simp: kill_eq\<close>)

lemma chprty_ok:
  assumes "ptable_ok s" and "PtableLk \<notin> set (held s)" and "chprty pid pr s = Ret r t"
  shows "ptable_ok t"
proof (cases "scan (\<lambda>i. p_pid (procs s i) = pid) NPROC")
  case (Some i)
  then show ?thesis
    using assms by (auto simp: chprty_eq intro!: ptable_ok_upd [where s = s] dest: ptable_okD(5))
qed (use assms in \<open>auto simp: chprty_eq\<close>)

lemma updatestatistics_ok:
  assumes "ptable_ok s" and "PtableLk \<notin> set (held s)" and "updatestatistics s = Ret r t"
  shows "ptable_ok t"
  using assms
  by (auto simp: updatestatistics_eq live_def intro!: ptable_okI [where s = s] split: if_splits dest: ptable_okD(5))

lemma exited_ok:
  assumes ok: "ptable_ok s" and c: "live s c"
  shows "ptable_ok (s\<lparr>held := h, procs := exited c s\<rparr>)"
proof (rule ptable_okI [OF ok])
  fix i
  show "p_pid (procs (s\<lparr>held := h, procs := exited c s\<rparr>) i) \<in> {p_pid (procs s i), 0}"
    by (auto simp: exited_def Let_def wake_tab_def reparented_def)
  show "live s i \<and> p_pid (procs (s\<lparr>held := h, procs := exited c s\<rparr>) i) = p_pid (procs s i)"
    if "live (s\<lparr>held := h, procs := exited c s\<rparr>) i"
    using that c by (auto simp: live_def exited_def Let_def wake_tab_def reparented_def split: if_splits)
  show "p_chan (procs (s\<lparr>held := h, procs := exited c s\<rparr>) i) \<noteq> None"
    if "i < NPROC" "pst (s\<lparr>held := h, procs := exited c s\<rparr>) i = SLEEPING"
    using that ptable_okD(5) [OF ok, of i]
    by (auto simp: exited_def Let_def wake_tab_def reparented_def split: if_splits)
  show "\<And>r. p_parent (procs (s\<lparr>held := h, procs := exited c s\<rparr>) i) = Some r \<Longrightarrow>
      p_parent (procs s i) = Some r \<or> initproc s = Some r \<or> r < NPROC"
    by (auto simp: exited_def Let_def wake_tab_def reparented_def split: if_splits)
qed auto

lemma waitx_wait: "bindK (waitx_body c s) (\<lambda>(pid, _) s. Ret pid s) = wait_body c s"
  by (cases "scan (zombie_child c s) NPROC"; cases "havekids c s"; cases "p_killed (procs s c)")
    (simp_all add: waitx_body_def wait_body_def bindK_assoc Let_def)

lemma wait_body_ok:
  assumes ok: "ptable_ok s" and h: "held s = [PtableLk]" and c: "cpu_proc s = Some c" "live s c"
  shows "wait_body c s = Ret r t \<Longrightarrow> ptable_ok t" and "wait_body c s = Swtch t \<Longrightarrow> ptable_ok t"
proof -
  show "ptable_ok t" if "wait_body c s = Ret r t"
  proof (cases "scan (zombie_child c s) NPROC")
    case None
    then have "t = s\<lparr>held := []\<rparr>"
      using that h wait_body_none [OF None h] c by (cases "\<not> havekids c s \<or> p_killed (procs s c)") auto
    then show ?thesis using ok ptable_ok_cong [of t s] by simp
  next
    case (Some i)
    note R = wait_body_reaps [OF Some h that]
    show ?thesis
      by (rule ptable_ok_upd [OF ok R(3-5)]) (auto simp: reset_times_def reaped_def)
  qed
  show "ptable_ok t" if "wait_body c s = Swtch t"
  proof (cases "scan (zombie_child c s) NPROC")
    case None
    with that h wait_body_none [OF None h] c
    have "t = upd_proc c (\<lambda>q. q\<lparr>p_chan := Some (CProc c), p_state := SLEEPING\<rparr>) s"
      by (cases "\<not> havekids c s \<or> p_killed (procs s c)") auto
    with c show ?thesis by (auto simp: live_def intro!: ptable_ok_upd [OF ok])
  next
    case (Some i)
    with that show ?thesis
      by (auto simp: wait_body_def reap_not_Swtch release_def split: if_splits)
  qed
qed

lemma ptable_ok_new:
  assumes ok: "ptable_ok s" and p: "p < NPROC" "pst s p = UNUSED"
    and t: "procs t = (procs s)(p := q)" "nextpid t = nextpid s + 1" "initproc t = initproc s"
    and q: "p_pid q = nextpid s" "p_state q \<in> {EMBRYO, UNUSED}" "p_parent q = p_parent (procs s p)"
  shows "ptable_ok t"
proof -
  have L: "live t i \<Longrightarrow> i = p \<or> live s i" for i using p q by (auto simp: live_def t split: if_splits)
  note D = ptable_okD [OF ok]
  show ?thesis
    unfolding ptable_ok_def t
  proof (intro conjI allI impI)
    fix i
    assume "i < NPROC"
    then show "0 \<le> p_pid (((procs s)(p := q)) i)" "p_pid (((procs s)(p := q)) i) < nextpid s + 1"
      using D(1) D(3,8) [of i] by (auto simp: q)
  next
    fix i
    assume "live t i"
    then show "p_pid (((procs s)(p := q)) i) \<noteq> 0" using D(1) D(2) [of i] L [of i] by (auto simp: q)
  next
    fix i j
    assume "i < NPROC" "j < NPROC" "p_pid (((procs s)(p := q)) i) = p_pid (((procs s)(p := q)) j)"
      "p_pid (((procs s)(p := q)) i) \<noteq> 0"
    then show "i = j" using D(3) [of i] D(3) [of j] D(4) [of i j] by (auto simp: q split: if_splits)
  next
    fix i r
    assume "i < NPROC" "p_parent (((procs s)(p := q)) i) = Some r"
    then show "r < NPROC" using D(6) [of i r] q(3) by (auto split: if_splits)
  next
    fix i
    assume "i < NPROC" "p_state (((procs s)(p := q)) i) = SLEEPING"
    then show "p_chan (((procs s)(p := q)) i) \<noteq> None" using D(5) [of i] q(2) by (auto split: if_splits)
  qed (use D(1,7) in auto)
qed

lemma allocproc_ok:
  assumes "PtableLk \<notin> set (held s)" and "scan (\<lambda>i. pst s i = UNUSED) NPROC = Some p"
    and "0 \<le> nextpid s" "nextpid s < 64" "-1 \<le> cxj s 0" "cxj s 0 < 63" and "pool s (k # ks)"
    and "allocproc trapret forkret s = Ret (Some p) t" and ok: "ptable_ok s"
  shows "ptable_ok t" and "pool t ks" and "held t = held s"
    and "procs t = (procs s)(p := new_proc k s (procs s p))" and "mem t = new_stack trapret forkret k (mem s)"
    and "cxj t = (cxj s)(0 := cxj s 0 + 1)" and "qxj t 0 (nat (cxj t 0)) = Some p" and "nextpid t = nextpid s + 1"
proof -
  have t: "t = s\<lparr>mem := new_stack trapret forkret k (mem s), freelist := load32 (mem s) k,
        procs := (procs s)(p := new_proc k s (procs s p)), nextpid := nextpid s + 1,
        cxj := (cxj s)(0 := cxj s 0 + 1),
        qxj := (qxj s)(0 := (qxj s 0)(nat (cxj s 0 + 1) := Some p)),
        pstat_var := new_stat (nextpid s) (ticks s) (pstat_var s)\<rparr>"
    using assms(8) allocproc_Some [OF assms(1-7), of trapret forkret] by simp
  have k: "pg_aligned k" "k \<notin> set ks" "\<And>q. q \<in> set ks \<Longrightarrow> pg_aligned q"
    using assms(7) by (auto simp: pool_def page_ok_def)
  show "pool t ks"
  proof (rule pool_frame [OF kalloc_Cons(2) [OF assms(7)]])
    fix q a
    assume "q \<in> set ks" "page_of a = page_of q"
    then have "page_of a \<noteq> page_of k" using k page_of_inj by metis
    then show "mem t a = mem (s\<lparr>freelist := load32 (mem s) k\<rparr>) a"
      using new_stack_frame [OF k(1)] by (simp add: t)
  qed (use poolD [OF assms(7)] in \<open>simp_all add: t\<close>)
  show "held t = held s" "procs t = (procs s)(p := new_proc k s (procs s p))"
    "mem t = new_stack trapret forkret k (mem s)" "cxj t = (cxj s)(0 := cxj s 0 + 1)"
    "qxj t 0 (nat (cxj t 0)) = Some p" "nextpid t = nextpid s + 1"
    by (simp_all add: t)
  have "p < NPROC" "pst s p = UNUSED" using scan_SomeD [OF assms(2)] by simp_all
  then show "ptable_ok t"
    by (intro ptable_ok_new [OF ok, where p = p and q = "new_proc k s (procs s p)"])
      (simp_all add: t new_proc_def)
qed

lemma kalloc_kproc:
  fixes s :: "'a kproc_scheme"
  assumes "kalloc s = Ret k t"
  shows "procs t = procs s \<and> nextpid t = nextpid s \<and> initproc t = initproc s \<and> cpu_proc t = cpu_proc s \<and> held t = held s"
  using mem_only_kproc [OF mem_code_Ret [OF kalloc_mem_code assms]]
    mem_onlyD(1) [OF mem_code_Ret [OF kalloc_mem_code assms]] by simp

lemma allocproc_Ret:
  assumes "allocproc trapret forkret s = Ret r t" and "PtableLk \<notin> set (held s)"
  shows "\<exists>p q. p < NPROC \<and> pst s p = UNUSED \<and> procs t = (procs s)(p := q) \<and> nextpid t = nextpid s + 1
    \<and> initproc t = initproc s \<and> cpu_proc t = cpu_proc s \<and> held t = held s \<and> p_pid q = nextpid s
    \<and> p_state q \<in> {EMBRYO, UNUSED} \<and> p_parent q = p_parent (procs s p) \<and> p_chan q = p_chan (procs s p)"
proof -
  obtain p where p: "scan (\<lambda>i. pst s i = UNUSED) NPROC = Some p"
    using assms by (cases "scan (\<lambda>i. pst s i = UNUSED) NPROC") (auto simp: allocproc_def Let_def split: if_splits)
  have "p < NPROC" "pst s p = UNUSED" using scan_SomeD [OF p] by simp_all
  then show ?thesis
    using assms p
    by (auto simp: allocproc_def mlfq_enter_def Let_def split: if_splits dest!: kalloc_kproc intro!: exI [of _ p])
qed

section \<open>Properties\<close>

text \<open>The globals as the loader leaves them, with one free page.\<close>

definition proc0 :: proc where
  "proc0 = \<lparr>p_sz = 0, p_pgdir = 0, p_kstack = 0, p_state = UNUSED, p_pid = 0, p_parent = None, p_tf = 0,
     p_context = 0, p_chan = None, p_killed = False, p_ofile = (\<lambda>_. None), p_cwd = None, p_name = [],
     p_priority = 0, p_ctime = 0, p_etime = 0, p_rtime = 0\<rparr>"

definition proc_stat0 :: proc_stat where
  "proc_stat0 = \<lparr>inuse = (\<lambda>_. 0), st_pid = (\<lambda>_. 0), runtime = (\<lambda>_. 0), num_run = (\<lambda>_. 0),
     current_queue = (\<lambda>_. 0), st_ticks = (\<lambda>_ _. 0)\<rparr>"

definition kproc0 :: kproc where
  "kproc0 = \<lparr>held = [], mem = (\<lambda>_. 0), kend = 0x80100000, kdata = 0x80108000, use_lock = True,
     freelist = 0x80200000, conout = [], cons_locking = True, procs = (\<lambda>_. proc0), nextpid = 1,
     initproc = None, cxj = (\<lambda>_. - 1), qxj = (\<lambda>_ _. None), pstat_var = proc_stat0, running_p = None,
     ticks = 0, cpu_proc = None, ts_esp0 = 0, cr3 = 0, kpgdir = 0\<rparr>"

lemma pool_kproc0: "pool kproc0 [0x80200000]"
  by (simp add: pool_def kproc0_def page_ok_def pg_aligned_def load32_def KERNBASE_def PHYSTOP_def V2P_def)

lemma ptable_ok_kproc0: "ptable_ok kproc0"
  by (simp add: ptable_ok_def live_def kproc0_def proc0_def)

lemma scan_0: "P 0 \<Longrightarrow> scan P NPROC = Some 0"
  by (simp add: scan_Some_iff NPROC_def)

text \<open>
  C6: on a well-formed table with a free slot and a free page, \<open>allocproc\<close> takes an unused slot and
  the first free page, gives the process a fresh identifier, puts it at the end of queue 0, builds a
  kernel stack on which the process starts in \<open>forkret\<close> and returns to \<open>trapret\<close>, leaves the other
  entries alone and keeps the table well formed.
\<close>

theorem allocproc_correct:
  assumes "ptable_ok s" and "PtableLk \<notin> set (held s)" and "\<exists>i<NPROC. pst s i = UNUSED"
    and "nextpid s < 64" and "-1 \<le> cxj s 0" and "cxj s 0 < 63" and "pool s (k # ks)"
  shows "\<exists>p t. allocproc trapret forkret s = Ret (Some p) t \<and> ptable_ok t \<and> pool t ks \<and> held t = held s
    \<and> p < NPROC \<and> pst s p = UNUSED \<and> (\<forall>i. i \<noteq> p \<longrightarrow> procs t i = procs s i)
    \<and> pst t p = EMBRYO \<and> p_pid (procs t p) = nextpid s \<and> p_kstack (procs t p) = k
    \<and> p_tf (procs t p) + sizeof_trapframe = k + KSTACKSIZE
    \<and> load32 (mem t) (p_context (procs t p) + ctx_eip) = forkret
    \<and> load32 (mem t) (p_context (procs t p) + sizeof_context) = trapret
    \<and> cxj t 0 = cxj s 0 + 1 \<and> qxj t 0 (nat (cxj t 0)) = Some p"
proof -
  obtain p where p: "scan (\<lambda>i. pst s i = UNUSED) NPROC = Some p"
    using assms(3) by (auto dest: scan_ex [where P = "\<lambda>i. pst s i = UNUSED"])
  have n: "0 \<le> nextpid s" using ptable_okD(1) [OF assms(1)] by simp
  obtain t where A: "allocproc trapret forkret s = Ret (Some p) t"
    using allocproc_Some [OF assms(2) p n assms(4-7), of trapret forkret] by blast
  note B = allocproc_ok [OF assms(2) p n assms(4-7) A assms(1)]
  have "p < NPROC" "pst s p = UNUSED" using scan_SomeD [OF p] by auto
  then show ?thesis
    using A B(1-3,7) by (intro exI [of _ p] exI [of _ t] conjI)
      (simp_all add: B(4-6) new_proc_def new_stack_loads ctx_eip_def sizeof_context_def
        KSTACKSIZE_def sizeof_trapframe_def add.assoc)
qed

theorem allocproc_correct_witness:
  "ptable_ok kproc0 \<and> (\<exists>p t. allocproc 0x80105C00 0x80103000 kproc0 = Ret (Some p) t \<and> ptable_ok t \<and> pool t []
     \<and> p_pid (procs t p) = 1)"
proof -
  have "\<exists>i<NPROC. pst kproc0 i = UNUSED" by (auto simp: kproc0_def proc0_def NPROC_def intro: exI [of _ 0])
  moreover have "PtableLk \<notin> set (held kproc0)" "nextpid kproc0 = 1" "cxj kproc0 0 = - 1"
    by (simp_all add: kproc0_def)
  ultimately show ?thesis
    using allocproc_correct [OF ptable_ok_kproc0 _ _ _ _ _ pool_kproc0, of "0x80105C00" "0x80103000"]
      ptable_ok_kproc0 by auto
qed





text \<open>
  C15: \<open>kill\<close> of the identifier of a live process returns 0, marks exactly that process and makes
  it runnable if it sleeps; \<open>kill\<close> of an identifier no table entry carries returns -1 and changes
  nothing.
\<close>

theorem kill_correct:
  assumes "ptable_ok s" and "PtableLk \<notin> set (held s)"
  shows "(live s p \<longrightarrow>
      kill (p_pid (procs s p)) s = Ret 0 (upd_proc p (\<lambda>q. q\<lparr>p_killed := True,
        p_state := (if p_state q = SLEEPING then RUNNABLE else p_state q)\<rparr>) s))
    \<and> ((\<forall>i<NPROC. p_pid (procs s i) \<noteq> pid) \<longrightarrow> kill pid s = Ret (- 1) s)"
proof (intro conjI impI)
  assume p: "live s p"
  have "scan (\<lambda>i. p_pid (procs s i) = p_pid (procs s p)) NPROC = Some p"
  proof (rule scan_SomeI)
    fix j
    assume "j < p"
    then show "p_pid (procs s j) \<noteq> p_pid (procs s p)"
      using p ptable_okD(2) [OF assms(1), of p] ptable_okD(4) [OF assms(1), of j p] by (auto simp: live_def)
  qed (use p in \<open>auto simp: live_def\<close>)
  then show "kill (p_pid (procs s p)) s = Ret 0 (upd_proc p (\<lambda>q. q\<lparr>p_killed := True,
        p_state := (if p_state q = SLEEPING then RUNNABLE else p_state q)\<rparr>) s)"
    using assms(2) by (simp add: kill_eq)
next
  assume "\<forall>i<NPROC. p_pid (procs s i) \<noteq> pid"
  then show "kill pid s = Ret (- 1) s"
    using assms(2) scan_None_iff [of "\<lambda>i. p_pid (procs s i) = pid" NPROC] by (simp add: kill_eq)
qed

theorem kill_correct_witness:
  "\<exists>s :: kproc. ptable_ok s \<and> live s 2 \<and> pst s 2 = SLEEPING
     \<and> (\<exists>t. kill 7 s = Ret 0 t \<and> p_killed (procs t 2) \<and> pst t 2 = RUNNABLE) \<and> kill 9 s = Ret (- 1) s"
proof -
  let ?s = "kproc0\<lparr>procs := (\<lambda>_. proc0)(2 := proc0\<lparr>p_state := SLEEPING, p_chan := Some CTicks, p_pid := 7\<rparr>), nextpid := 8\<rparr>"
  have ok: "ptable_ok ?s" and l: "live ?s 2" and h: "PtableLk \<notin> set (held ?s)"
    by (auto simp: ptable_ok_def live_def proc0_def NPROC_def kproc0_def)
  have "\<forall>i<NPROC. p_pid (procs ?s i) \<noteq> 9" by (simp add: proc0_def)
  with kill_correct [OF ok h, of 2 9] l ok show ?thesis
    by (intro exI [of _ ?s]) (simp add: proc0_def)
qed



text \<open>
  C7: the end of \<open>exit\<close> makes the caller a zombie with its end time set, wakes the parent if it
  sleeps in \<open>wait\<close>, hands every child to \<open>initproc\<close> and wakes \<open>initproc\<close> if one of them is a zombie;
  nobody else changes, and the next \<open>wait\<close> of the parent has a zombie to find.
\<close>

theorem exit_correct:
  assumes "ptable_ok s" and "held s = []" and "live s c" and "p_parent (procs s c) = Some pp" and "pp \<noteq> c"
    and "pst s c = RUNNING"
  shows "\<exists>t. exit_tail c s = Swtch t \<and> ptable_ok t \<and> held t = [PtableLk]
      \<and> pst t c = ZOMBIE \<and> p_etime (procs t c) = ticks s \<and> zombie_child pp t c
      \<and> (pst s pp = SLEEPING \<and> p_chan (procs s pp) = Some (CProc pp) \<longrightarrow> pst t pp = RUNNABLE)
      \<and> (\<forall>i<NPROC. i \<noteq> c \<and> p_parent (procs s i) = Some c \<longrightarrow> p_parent (procs t i) = initproc s
           \<and> (pst s i = ZOMBIE \<longrightarrow> (\<forall>q<NPROC. initproc s = Some q \<and> q \<noteq> c \<and> pst s q = SLEEPING
                \<and> p_chan (procs s q) = Some (CProc q) \<longrightarrow> pst t q = RUNNABLE)))
      \<and> (\<forall>i<NPROC. i \<noteq> c \<and> p_parent (procs s i) \<noteq> Some c \<and> pst s i \<noteq> SLEEPING \<longrightarrow> procs t i = procs s i)"
proof -
  let ?t = "s\<lparr>held := [PtableLk], procs := exited c s\<rparr>"
  have pp: "pp < NPROC" "c < NPROC" using ptable_okD(6) [OF assms(1), of c pp] assms(3,4) by (auto simp: live_def)
  let ?ps = "wake_tab (Some (CProc pp)) ((procs s)(c := (procs s c)\<lparr>p_cwd := None, p_etime := ticks s\<rparr>))"
  have Z: "p_parent (?ps j) = Some c \<and> p_state (?ps j) = ZOMBIE \<longleftrightarrow> zombie_child c s j" for j
    using assms(4-6) by (auto simp: wake_tab_def zombie_child_def)
  have E: "exited c s i =
      (let q = (if i = c then (procs s c)\<lparr>p_cwd := None, p_etime := ticks s, p_state := ZOMBIE\<rparr> else procs s i)
       in q\<lparr>p_parent := (if i < NPROC \<and> p_parent q = Some c then initproc s else p_parent q),
            p_state := (if i \<noteq> c \<and> i < NPROC \<and> p_state q = SLEEPING \<and> (p_chan q = Some (CProc pp)
                            \<or> p_chan q = map_option CProc (initproc s) \<and> (\<exists>j<NPROC. zombie_child c s j))
                        then RUNNABLE else p_state q)\<rparr>)" for i
  proof -
    have "exited c s = (let ps = reparented c (initproc s) NPROC ?ps in ps(c := (ps c)\<lparr>p_state := ZOMBIE\<rparr>))"
      using assms(4) by (simp add: exited_def Let_def)
    then show ?thesis
      using assms(4-6) by (simp only: Let_def reparented_def Z fun_upd_apply) (auto simp: wake_tab_def)
  qed
  have "\<forall>i<NPROC. i \<noteq> c \<and> p_parent (procs s i) = Some c \<longrightarrow> p_parent (procs ?t i) = initproc s
           \<and> (pst s i = ZOMBIE \<longrightarrow> (\<forall>q<NPROC. initproc s = Some q \<and> q \<noteq> c \<and> pst s q = SLEEPING
                \<and> p_chan (procs s q) = Some (CProc q) \<longrightarrow> pst ?t q = RUNNABLE))"
    by (auto simp: E Let_def zombie_child_def)
  moreover have "\<forall>i<NPROC. i \<noteq> c \<and> p_parent (procs s i) \<noteq> Some c \<and> pst s i \<noteq> SLEEPING \<longrightarrow> procs ?t i = procs s i"
    by (auto simp: E Let_def)
  moreover have "zombie_child pp ?t c" "p_etime (procs ?t c) = ticks s"
    using assms(4,5) by (auto simp: zombie_child_def E Let_def)
  moreover have "pst s pp = SLEEPING \<and> p_chan (procs s pp) = Some (CProc pp) \<longrightarrow> pst ?t pp = RUNNABLE"
    using pp assms(5) by (auto simp: E Let_def)
  ultimately show ?thesis
    using exit_tail_eq [OF assms(2)] exited_ok [OF assms(1,3)]
    by (intro exI [of _ ?t]) (simp add: zombie_child_def)
qed

text \<open>A parent that sleeps in \<open>wait\<close> and its running child.\<close>

definition kproc_family :: kproc where
  "kproc_family = kproc0\<lparr>nextpid := 3, initproc := Some 0, cpu_proc := Some 1, ticks := 50,
     procs := (\<lambda>_. proc0)(
       0 := proc0\<lparr>p_state := SLEEPING, p_chan := Some (CProc 0), p_pid := 1\<rparr>,
       1 := proc0\<lparr>p_state := RUNNING, p_pid := 2, p_parent := Some 0, p_ctime := 10, p_rtime := 15\<rparr>)\<rparr>"

lemma kproc_family_ok: "ptable_ok kproc_family" "held kproc_family = []" "live kproc_family 1"
  by (auto simp: ptable_ok_def live_def kproc_family_def kproc0_def proc0_def NPROC_def)

theorem exit_correct_witness:
  "\<exists>t. exit_tail 1 kproc_family = Swtch t \<and> pst t 1 = ZOMBIE \<and> p_etime (procs t 1) = 50
      \<and> pst t 0 = RUNNABLE \<and> zombie_child 0 t 1"
proof -
  have "p_parent (procs kproc_family 1) = Some 0" "pst kproc_family 1 = RUNNING" "pst kproc_family 0 = SLEEPING"
    "p_chan (procs kproc_family 0) = Some (CProc 0)" "ticks kproc_family = 50"
    by (simp_all add: kproc_family_def proc0_def)
  with exit_correct [OF kproc_family_ok, of 0] show ?thesis by auto
qed

end
