(* ===== verification/Bio.thy ===== *)
theory Bio
  imports Proc
begin

text \<open>
  Sleep locks (sleeplock.c), the memory disk (memide.c) and the buffer cache (bio.c). The cache
  keeps its buffers on a circular doubly linked list in order of use; the list is modelled by its
  pointers, with the list head as node \<open>NBUF\<close>, and proved to represent a list. Block numbers and
  device numbers are the values of the C \<open>uint\<close>s. A block is a function from byte offsets, of
  which only those below \<open>BSIZE\<close> are used. Reference counts wrap around below 0 as in C; they do not
  reach \<open>2 ^ 32\<close>, since a process holds a bounded number of buffers. The disk also records the writes it has performed, in
  order, so that one can speak of a crash between two of them.
\<close>

section \<open>Sleep locks\<close>

record sleeplock =
  sl_locked :: bool
  sl_pid :: int

record ksleep = kproc +
  slocks :: "sleepid \<Rightarrow> sleeplock"

definition initsleeplock :: "sleepid \<Rightarrow> 'a ksleep_scheme \<Rightarrow> 'a ksleep_scheme" where
  "initsleeplock l s =
     (initlock (SleepLk l) s)\<lparr>slocks := (slocks s)(l := \<lparr>sl_locked = False, sl_pid = 0\<rparr>)\<rparr>"

text \<open>The loop of \<open>acquiresleep\<close>: a process that finds the lock taken goes to sleep on it.\<close>

definition acquiresleep_loop :: "sleepid \<Rightarrow> 'a ksleep_scheme \<Rightarrow> (unit, 'a ksleep_scheme) outcome" where
  "acquiresleep_loop l s =
     (if sl_locked (slocks s l) then sleep (CSleep l) (SleepLk l) s
      else bindK (myproc s) (\<lambda>p s.
        release (SleepLk l)
          (s\<lparr>slocks := (slocks s)(l := \<lparr>sl_locked = True, sl_pid = p_pid (procs s p)\<rparr>)\<rparr>)))"

definition acquiresleep :: "sleepid \<Rightarrow> 'a ksleep_scheme \<Rightarrow> (unit, 'a ksleep_scheme) outcome" where
  "acquiresleep l s = bindK (acquire (SleepLk l) s) (\<lambda>_ s. acquiresleep_loop l s)"

definition acquiresleep_resume :: "sleepid \<Rightarrow> 'a ksleep_scheme \<Rightarrow> (unit, 'a ksleep_scheme) outcome" where
  "acquiresleep_resume l s = bindK (sleep_resume (SleepLk l) s) (\<lambda>_ s. acquiresleep_loop l s)"

definition releasesleep :: "sleepid \<Rightarrow> 'a ksleep_scheme \<Rightarrow> (unit, 'a ksleep_scheme) outcome" where
  "releasesleep l s =
     bindK (acquire (SleepLk l) s) (\<lambda>_ s.
     bindK (wakeup (CSleep l) (s\<lparr>slocks := (slocks s)(l := \<lparr>sl_locked = False, sl_pid = 0\<rparr>)\<rparr>)) (\<lambda>_ s.
     release (SleepLk l) s))"

definition holdingsleep :: "sleepid \<Rightarrow> 'a ksleep_scheme \<Rightarrow> (bool, 'a ksleep_scheme) outcome" where
  "holdingsleep l s =
     bindK (acquire (SleepLk l) s) (\<lambda>_ s.
     bindK (myproc s) (\<lambda>p s.
     let r = (sl_locked (slocks s l) \<and> sl_pid (slocks s l) = p_pid (procs s p))
     in bindK (release (SleepLk l) s) (\<lambda>_ s. Ret r s)))"

section \<open>Disk and cache\<close>

definition BSIZE :: nat where "BSIZE = 512"

definition NBUF :: nat where "NBUF = 30"

type_synonym block = "nat \<Rightarrow> byte"

record buf =
  b_valid :: bool
  b_dirty :: bool
  b_dev :: nat
  b_blockno :: nat
  b_refcnt :: nat
  b_data :: block

record kbio = ksleep +
  disksize :: nat
  disk :: "nat \<Rightarrow> block"
  dhist :: "(nat \<times> block) list"
  bufs :: "nat \<Rightarrow> buf"
  bnext :: "nat \<Rightarrow> nat"
  bprev :: "nat \<Rightarrow> nat"

abbreviation upd_buf :: "nat \<Rightarrow> (buf \<Rightarrow> buf) \<Rightarrow> 'a kbio_scheme \<Rightarrow> 'a kbio_scheme" where
  "upd_buf i f s \<equiv> s\<lparr>bufs := (bufs s)(i := f (bufs s i))\<rparr>"

definition iderw :: "nat \<Rightarrow> 'a kbio_scheme \<Rightarrow> (unit, 'a kbio_scheme) outcome" where
  "iderw i s =
     bindK (holdingsleep (BufSL i) s) (\<lambda>h s.
     let b = bufs s i
     in if \<not> h then Panic ''iderw: buf not locked''
        else if b_valid b \<and> \<not> b_dirty b then Panic ''iderw: nothing to do''
        else if b_dev b \<noteq> 1 then Panic ''iderw: request not for disk 1''
        else if b_blockno b \<ge> disksize s then Panic ''iderw: block out of range''
        else if b_dirty b then
          Ret () (upd_buf i (\<lambda>b. b\<lparr>b_dirty := False, b_valid := True\<rparr>)
            (s\<lparr>disk := (disk s)(b_blockno b := b_data b), dhist := dhist s @ [(b_blockno b, b_data b)]\<rparr>))
        else Ret () (upd_buf i (\<lambda>b. b\<lparr>b_data := disk s (b_blockno b), b_valid := True\<rparr>) s))"

text \<open>\<open>b->next = head.next; b->prev = &head; head.next->prev = b; head.next = b;\<close>\<close>

definition bpush :: "nat \<Rightarrow> 'a kbio_scheme \<Rightarrow> 'a kbio_scheme" where
  "bpush b s =
     (let s = s\<lparr>bnext := (bnext s)(b := bnext s NBUF)\<rparr>;
          s = s\<lparr>bprev := (bprev s)(b := NBUF)\<rparr>;
          s = s\<lparr>bprev := (bprev s)(bnext s NBUF := b)\<rparr>
      in s\<lparr>bnext := (bnext s)(NBUF := b)\<rparr>)"

text \<open>\<open>b->next->prev = b->prev; b->prev->next = b->next;\<close>\<close>

definition bunlink :: "nat \<Rightarrow> 'a kbio_scheme \<Rightarrow> 'a kbio_scheme" where
  "bunlink b s =
     (let s = s\<lparr>bprev := (bprev s)(bnext s b := bprev s b)\<rparr>
      in s\<lparr>bnext := (bnext s)(bprev s b := bnext s b)\<rparr>)"

text \<open>One round of the loop of \<open>binit\<close>.\<close>

definition binit_link :: "nat \<Rightarrow> 'a kbio_scheme \<Rightarrow> 'a kbio_scheme" where
  "binit_link b s =
     (let s = s\<lparr>bnext := (bnext s)(b := bnext s NBUF)\<rparr>;
          s = s\<lparr>bprev := (bprev s)(b := NBUF)\<rparr>;
          s = initsleeplock (BufSL b) s;
          s = s\<lparr>bprev := (bprev s)(bnext s NBUF := b)\<rparr>
      in s\<lparr>bnext := (bnext s)(NBUF := b)\<rparr>)"

definition binit :: "'a kbio_scheme \<Rightarrow> 'a kbio_scheme" where
  "binit s =
     (let s = initlock BcacheLk s;
          s = s\<lparr>bprev := (bprev s)(NBUF := NBUF), bnext := (bnext s)(NBUF := NBUF)\<rparr>
      in fold binit_link [0..<NBUF] s)"

text \<open>
  \<open>for (b = link(head); b != &head; b = link(b)) if (P(b)) ...\<close>: the first node in the direction of
  \<open>link\<close> that satisfies \<open>P\<close>. The list has \<open>NBUF\<close> nodes besides the head, so \<open>NBUF + 1\<close> steps are
  enough; lemma \<open>bfind_lseg\<close> says so.
\<close>

fun bfind :: "nat \<Rightarrow> (nat \<Rightarrow> nat) \<Rightarrow> (nat \<Rightarrow> bool) \<Rightarrow> nat \<Rightarrow> nat option" where
  "bfind 0 link P b = None"
| "bfind (Suc n) link P b =
     (if b = NBUF then None else if P b then Some b else bfind n link P (link b))"

definition bget :: "nat \<Rightarrow> nat \<Rightarrow> 'a kbio_scheme \<Rightarrow> (nat, 'a kbio_scheme) outcome" where
  "bget dev blockno s =
     bindK (acquire BcacheLk s) (\<lambda>_ s.
     case bfind (NBUF + 1) (bnext s) (\<lambda>b. b_dev (bufs s b) = dev \<and> b_blockno (bufs s b) = blockno) (bnext s NBUF) of
       Some b \<Rightarrow>
         bindK (release BcacheLk (upd_buf b (\<lambda>q. q\<lparr>b_refcnt := b_refcnt q + 1\<rparr>) s)) (\<lambda>_ s.
         bindK (acquiresleep (BufSL b) s) (\<lambda>_ s. Ret b s))
     | None \<Rightarrow>
         (case bfind (NBUF + 1) (bprev s) (\<lambda>b. b_refcnt (bufs s b) = 0 \<and> \<not> b_dirty (bufs s b)) (bprev s NBUF) of
            Some b \<Rightarrow>
              bindK (release BcacheLk (upd_buf b (\<lambda>q. q\<lparr>b_dev := dev, b_blockno := blockno,
                       b_valid := False, b_dirty := False, b_refcnt := 1\<rparr>) s)) (\<lambda>_ s.
              bindK (acquiresleep (BufSL b) s) (\<lambda>_ s. Ret b s))
          | None \<Rightarrow> Panic ''bget: no buffers''))"

definition bread :: "nat \<Rightarrow> nat \<Rightarrow> 'a kbio_scheme \<Rightarrow> (nat, 'a kbio_scheme) outcome" where
  "bread dev blockno s =
     bindK (bget dev blockno s) (\<lambda>b s.
     if \<not> b_valid (bufs s b) then bindK (iderw b s) (\<lambda>_ s. Ret b s) else Ret b s)"

definition bwrite :: "nat \<Rightarrow> 'a kbio_scheme \<Rightarrow> (unit, 'a kbio_scheme) outcome" where
  "bwrite b s =
     bindK (holdingsleep (BufSL b) s) (\<lambda>h s.
     if \<not> h then Panic ''bwrite''
     else iderw b (upd_buf b (\<lambda>q. q\<lparr>b_dirty := True\<rparr>) s))"

definition brelse :: "nat \<Rightarrow> 'a kbio_scheme \<Rightarrow> (unit, 'a kbio_scheme) outcome" where
  "brelse b s =
     bindK (holdingsleep (BufSL b) s) (\<lambda>h s.
     if \<not> h then Panic ''brelse''
     else
       bindK (releasesleep (BufSL b) s) (\<lambda>_ s.
       bindK (acquire BcacheLk s) (\<lambda>_ s.
       let s = upd_buf b (\<lambda>q. q\<lparr>b_refcnt := (if b_refcnt q = 0 then 2 ^ 32 - 1 else b_refcnt q - 1)\<rparr>) s;
           s = (if b_refcnt (bufs s b) = 0 then bpush b (bunlink b s) else s)
       in release BcacheLk s)))"

section \<open>The list of buffers\<close>

text \<open>\<open>lseg l a xs b\<close>: following \<open>l\<close> from \<open>a\<close> one visits \<open>xs\<close> and then \<open>b\<close>.\<close>

fun lseg :: "(nat \<Rightarrow> nat) \<Rightarrow> nat \<Rightarrow> nat list \<Rightarrow> nat \<Rightarrow> bool" where
  "lseg l a [] b = (l a = b)"
| "lseg l a (x # xs) b = (l a = x \<and> lseg l x xs b)"

definition ring :: "(nat \<Rightarrow> nat) \<Rightarrow> (nat \<Rightarrow> nat) \<Rightarrow> nat list \<Rightarrow> bool" where
  "ring nx pv xs \<longleftrightarrow> lseg nx NBUF xs NBUF \<and> lseg pv NBUF (rev xs) NBUF \<and> distinct xs \<and> NBUF \<notin> set xs"

lemma lseg_append: "lseg l a (xs @ y # ys) b \<longleftrightarrow> lseg l a xs y \<and> lseg l y ys b"
  by (induction xs arbitrary: a) auto

lemma lseg_frame: "c \<notin> set (a # xs) \<Longrightarrow> lseg (l(c := v)) a xs b = lseg l a xs b"
  by (induction xs arbitrary: a) auto

lemma lseg_last: "lseg l a xs b \<Longrightarrow> l (last (a # xs)) = b"
  by (induction xs arbitrary: a) auto

lemma lseg_redirect: "lseg l a xs b \<Longrightarrow> distinct (a # xs) \<Longrightarrow> lseg (l(last (a # xs) := c)) a xs c"
proof (induction xs arbitrary: a)
  case (Cons x xs)
  then have "a \<noteq> last (x # xs)" by (metis distinct.simps(2) last_in_set list.discI)
  with Cons show ?case by auto
qed simp

lemma lseg_cut:
  assumes "lseg l a (ys @ b # zs) e" and "distinct (a # ys @ b # zs)"
  shows "lseg (l(last (a # ys) := l b)) a (ys @ zs) e"
proof -
  have seg: "lseg l a ys b" "lseg l b zs e" using assms(1) by (simp_all add: lseg_append)
  note cut = lseg_redirect [OF seg(1)]
  show ?thesis
  proof (cases zs)
    case Nil
    then show ?thesis using cut [of e] seg(2) assms(2) by simp
  next
    case (Cons z zs')
    have "last (a # ys) \<in> set (a # ys)" by (rule last_in_set) simp
    then have "last (a # ys) \<notin> set (z # zs')" using assms(2) Cons by auto
    then show ?thesis
      using cut [of z] seg(2) assms(2) Cons by (simp add: lseg_append lseg_frame)
  qed
qed

lemma bfind_lseg:
  "lseg l a xs NBUF \<Longrightarrow> NBUF \<notin> set xs \<Longrightarrow> length xs \<le> n \<Longrightarrow> bfind (Suc n) l P (l a) = List.find P xs"
proof (induction xs arbitrary: a n)
  case (Cons x xs)
  then show ?case by (cases n) auto
qed simp

declare bfind.simps [simp del]

lemma ring_unlink:
  assumes "ring nx pv (ys @ b # zs)"
  shows "ring (nx(pv b := nx b)) (pv(nx b := pv b)) (ys @ zs)"
proof -
  have d: "distinct (NBUF # ys @ b # zs)" and f: "lseg nx NBUF (ys @ b # zs) NBUF"
    and r: "lseg pv NBUF (rev zs @ b # rev ys) NBUF"
    using assms by (auto simp: ring_def)
  have n: "nx b = last (NBUF # rev zs)" using f by (cases zs) (auto simp: lseg_append)
  have p: "pv b = last (NBUF # ys)" using r by (cases ys rule: rev_cases) (auto simp: lseg_append)
  have "lseg (pv(last (NBUF # rev zs) := pv b)) NBUF (rev zs @ rev ys) NBUF"
    by (rule lseg_cut [OF r]) (use d in auto)
  then show ?thesis
    using lseg_cut [OF f d] d by (simp add: ring_def n p)
qed

lemma ring_push:
  assumes "ring nx pv xs" and "b \<notin> set xs" and "b \<noteq> NBUF"
  shows "ring (nx(b := nx NBUF, NBUF := b)) (pv(b := NBUF, nx NBUF := b)) (b # xs)"
proof -
  have r: "lseg nx NBUF xs NBUF" "lseg pv NBUF (rev xs) NBUF" "distinct xs" "NBUF \<notin> set xs"
    using assms(1) by (auto simp: ring_def)
  have n: "nx NBUF = last (NBUF # rev xs)" using r(1) by (cases xs) auto
  have "lseg (pv(b := NBUF)) NBUF (rev xs) NBUF" using r(2) assms(2,3) by (simp add: lseg_frame)
  then have "lseg ((pv(b := NBUF))(nx NBUF := b)) NBUF (rev xs) b"
    unfolding n by (rule lseg_redirect) (use r in auto)
  moreover have "nx NBUF \<noteq> b" using assms(2,3) r(1) by (cases xs) auto
  moreover have "lseg (nx(b := nx NBUF, NBUF := b)) b xs NBUF"
    using r assms(2,3) by (cases xs) (auto simp: lseg_frame)
  ultimately show ?thesis using assms r by (simp add: ring_def lseg_append)
qed

definition lru :: "'a kbio_scheme \<Rightarrow> nat list \<Rightarrow> bool" where
  "lru s xs \<longleftrightarrow> ring (bnext s) (bprev s) xs \<and> set xs = {..<NBUF}"

lemma lruD: "lru s xs \<Longrightarrow> distinct xs" "lru s xs \<Longrightarrow> set xs = {..<NBUF}" "lru s xs \<Longrightarrow> length xs = NBUF"
  using distinct_card [of xs] by (auto simp: lru_def ring_def)

lemma bfind_forward: "lru s xs \<Longrightarrow> bfind (NBUF + 1) (bnext s) P (bnext s NBUF) = List.find P xs"
  using bfind_lseg [of "bnext s" NBUF xs NBUF P] lruD(3) [of s xs] by (auto simp: lru_def ring_def)

lemma bfind_backward: "lru s xs \<Longrightarrow> bfind (NBUF + 1) (bprev s) P (bprev s NBUF) = List.find P (rev xs)"
  using bfind_lseg [of "bprev s" NBUF "rev xs" NBUF P] lruD(3) [of s xs] by (auto simp: lru_def ring_def)

lemma bpush_eq:
  "b \<noteq> NBUF \<Longrightarrow> bpush b s = s\<lparr>bnext := (bnext s)(b := bnext s NBUF, NBUF := b),
     bprev := (bprev s)(b := NBUF, bnext s NBUF := b)\<rparr>"
  by (simp add: bpush_def Let_def)

lemma bunlink_eq:
  "bnext s b \<noteq> b \<Longrightarrow> bunlink b s = s\<lparr>bnext := (bnext s)(bprev s b := bnext s b),
     bprev := (bprev s)(bnext s b := bprev s b)\<rparr>"
  by (simp add: bunlink_def Let_def)

text \<open>Moving a buffer to the front of the list.\<close>

lemma lru_touch:
  assumes "lru s xs" and "b < NBUF"
  shows "\<exists>nx pv. bpush b (bunlink b s) = s\<lparr>bnext := nx, bprev := pv\<rparr> \<and> ring nx pv (b # remove1 b xs)"
proof -
  have r: "ring (bnext s) (bprev s) xs" "b \<in> set xs" "distinct xs" using assms by (auto simp: lru_def ring_def)
  from r(2) obtain ys zs where xs: "xs = ys @ b # zs" by (meson split_list)
  have "bnext s b \<noteq> b" using r(1,3) by (cases zs) (auto simp: ring_def xs lseg_append)
  note u = bunlink_eq [OF this]
  have "remove1 b xs = ys @ zs" using r(3) by (simp add: xs remove1_append)
  moreover have "ring (bnext (bunlink b s)) (bprev (bunlink b s)) (ys @ zs)"
    using ring_unlink [of "bnext s" "bprev s" ys b zs] r(1) by (simp add: xs u)
  moreover have "b \<notin> set (ys @ zs)" "b \<noteq> NBUF" using r assms(2) by (auto simp: xs)
  ultimately have "ring (bnext (bpush b (bunlink b s))) (bprev (bpush b (bunlink b s))) (b # remove1 b xs)"
    using ring_push [of "bnext (bunlink b s)" "bprev (bunlink b s)" "ys @ zs" b] by (simp add: bpush_eq)
  moreover have "bpush b (bunlink b s) =
      s\<lparr>bnext := bnext (bpush b (bunlink b s)), bprev := bprev (bpush b (bunlink b s))\<rparr>"
    using assms(2) by (simp add: bpush_eq u)
  ultimately show ?thesis by blast
qed

section \<open>Normal forms of the lock operations\<close>

definition mypid :: "'a kproc_scheme \<Rightarrow> int" where
  "mypid s = (case cpu_proc s of Some p \<Rightarrow> p_pid (procs s p) | None \<Rightarrow> 0)"

text \<open>A process executes kernel code and holds no spin lock.\<close>

definition quiet :: "'a kproc_scheme \<Rightarrow> bool" where
  "quiet s \<longleftrightarrow> held s = [] \<and> cpu_proc s \<noteq> None"

abbreviation owned :: "int \<Rightarrow> sleeplock" where
  "owned pid \<equiv> \<lparr>sl_locked = True, sl_pid = pid\<rparr>"

abbreviation unowned :: sleeplock where
  "unowned \<equiv> \<lparr>sl_locked = False, sl_pid = 0\<rparr>"

lemma acquiresleep_eq:
  "quiet s \<Longrightarrow> \<not> sl_locked (slocks s l) \<Longrightarrow>
   acquiresleep l s = Ret () (s\<lparr>slocks := (slocks s)(l := owned (mypid s))\<rparr>)"
  by (auto simp: acquiresleep_def acquiresleep_loop_def myproc_def quiet_def mypid_def)

lemma acquiresleep_blocks:
  assumes "quiet s" and "sl_locked (slocks s l)"
  shows "\<exists>t. acquiresleep l s = Swtch t"
proof -
  from assms obtain p where "cpu_proc (s\<lparr>held := [SleepLk l]\<rparr>) = Some p" by (auto simp: quiet_def)
  from sleep_eq [OF this] assms show ?thesis
    by (auto simp: acquiresleep_def acquiresleep_loop_def quiet_def)
qed

lemma holdingsleep_eq:
  "quiet s \<Longrightarrow> holdingsleep l s = Ret (sl_locked (slocks s l) \<and> sl_pid (slocks s l) = mypid s) s"
  by (auto simp: holdingsleep_def myproc_def quiet_def mypid_def Let_def)

lemma releasesleep_eq:
  "quiet s \<Longrightarrow> releasesleep l s = Ret () (wakeup1 (Some (CSleep l)) (s\<lparr>slocks := (slocks s)(l := unowned)\<rparr>))"
  by (simp add: releasesleep_def quiet_def wakeup_eq wakeup1_def)

lemma quiet_upds [simp]:
  "quiet (s\<lparr>slocks := x\<rparr>) = quiet s" "quiet (s'\<lparr>bufs := y\<rparr>) = quiet s'" "quiet (s'\<lparr>disk := z\<rparr>) = quiet s'"
  "quiet (s'\<lparr>dhist := h\<rparr>) = quiet s'" "quiet (s'\<lparr>bnext := nx\<rparr>) = quiet s'" "quiet (s'\<lparr>bprev := nx\<rparr>) = quiet s'"
  "quiet (u\<lparr>procs := ps\<rparr>) = quiet u"
  by (simp_all add: quiet_def)

lemma mypid_upds [simp]:
  "mypid (s\<lparr>slocks := x\<rparr>) = mypid s" "mypid (s'\<lparr>bufs := y\<rparr>) = mypid s'" "mypid (s'\<lparr>disk := z\<rparr>) = mypid s'"
  "mypid (s'\<lparr>dhist := h\<rparr>) = mypid s'" "mypid (s'\<lparr>bnext := nx\<rparr>) = mypid s'" "mypid (s'\<lparr>bprev := nx\<rparr>) = mypid s'"
  by (simp_all add: mypid_def split: option.split)

lemma mypid_wake_tab [simp]: "mypid (s\<lparr>procs := wake_tab c (procs s)\<rparr>) = mypid s"
  by (simp add: mypid_def wake_tab_def split: option.split)

section \<open>Invariant and contents\<close>

text \<open>
  \<open>on_block s b i\<close>: buffer \<open>i\<close> is for block \<open>b\<close> of disk 1. In a well-formed cache a block has at most
  one buffer; buffers nobody holds are unlocked; those that are also not marked dirty agree with the
  disk.
\<close>

definition on_block :: "'a kbio_scheme \<Rightarrow> nat \<Rightarrow> nat \<Rightarrow> bool" where
  "on_block s b i \<longleftrightarrow> i < NBUF \<and> b_dev (bufs s i) = 1 \<and> b_blockno (bufs s i) = b"

definition bcache_ok :: "'a kbio_scheme \<Rightarrow> bool" where
  "bcache_ok s \<longleftrightarrow>
     (\<exists>xs. lru s xs)
   \<and> (\<forall>b i j. on_block s b i \<longrightarrow> on_block s b j \<longrightarrow> i = j)
   \<and> (\<forall>b i. on_block s b i \<longrightarrow> b_valid (bufs s i))
   \<and> (\<forall>b i. on_block s b i \<longrightarrow> b_refcnt (bufs s i) = 0 \<longrightarrow> \<not> b_dirty (bufs s i) \<longrightarrow> b_data (bufs s i) = disk s b)
   \<and> (\<forall>i<NBUF. b_refcnt (bufs s i) = 0 \<longrightarrow> \<not> sl_locked (slocks s (BufSL i)))
   \<and> (\<forall>i<NBUF. b_dirty (bufs s i) \<longrightarrow> b_dev (bufs s i) = 1)"

text \<open>The contents of block \<open>b\<close> as the kernel sees it.\<close>

definition bview :: "'a kbio_scheme \<Rightarrow> nat \<Rightarrow> block" where
  "bview s b = (case scan (on_block s b) NBUF of Some i \<Rightarrow> b_data (bufs s i) | None \<Rightarrow> disk s b)"

definition bcached :: "'a kbio_scheme \<Rightarrow> nat \<Rightarrow> bool" where
  "bcached s b \<longleftrightarrow> (\<exists>i. on_block s b i)"

definition bpinned :: "'a kbio_scheme \<Rightarrow> nat \<Rightarrow> bool" where
  "bpinned s b \<longleftrightarrow> (\<exists>i. on_block s b i \<and> b_dirty (bufs s i))"

definition bidle :: "'a kbio_scheme \<Rightarrow> nat set" where
  "bidle s = {i. i < NBUF \<and> b_refcnt (bufs s i) = 0 \<and> \<not> b_dirty (bufs s i)}"

lemma bcache_okD:
  assumes "bcache_ok s"
  shows "\<exists>xs. lru s xs" and "on_block s b i \<Longrightarrow> on_block s b j \<Longrightarrow> i = j" and "on_block s b i \<Longrightarrow> b_valid (bufs s i)"
    and "on_block s b i \<Longrightarrow> b_refcnt (bufs s i) = 0 \<Longrightarrow> \<not> b_dirty (bufs s i) \<Longrightarrow> b_data (bufs s i) = disk s b"
    and "i < NBUF \<Longrightarrow> b_refcnt (bufs s i) = 0 \<Longrightarrow> \<not> sl_locked (slocks s (BufSL i))"
    and "i < NBUF \<Longrightarrow> b_dirty (bufs s i) \<Longrightarrow> b_dev (bufs s i) = 1"
  using assms unfolding bcache_ok_def by blast+

lemma on_block_lt: "on_block s b i \<Longrightarrow> i < NBUF"
  by (simp add: on_block_def)

lemma scan_on_block: "bcache_ok s \<Longrightarrow> on_block s b i \<Longrightarrow> scan (on_block s b) NBUF = Some i"
  by (auto simp: scan_Some_iff on_block_lt dest: bcache_okD(2))

lemma bview_cached: "bcache_ok s \<Longrightarrow> on_block s b i \<Longrightarrow> bview s b = b_data (bufs s i)"
  by (simp add: bview_def scan_on_block)

lemma bview_disk: "\<not> bcached s b \<Longrightarrow> bview s b = disk s b"
  by (auto simp: bview_def bcached_def split: option.split dest: scan_SomeD(2))

lemma bpinned_iff: "bcache_ok s \<Longrightarrow> on_block s b i \<Longrightarrow> bpinned s b = b_dirty (bufs s i)"
  unfolding bpinned_def by (metis bcache_okD(2))

text \<open>The buffer \<open>bread\<close> returns, and the state it leaves.\<close>

definition bloaded :: "bool \<Rightarrow> nat \<Rightarrow> block \<Rightarrow> buf" where
  "bloaded d b x = \<lparr>b_valid = True, b_dirty = d, b_dev = 1, b_blockno = b, b_refcnt = 1, b_data = x\<rparr>"

lemma held_same: "held s = h \<Longrightarrow> s\<lparr>held := h\<rparr> = s"
  by simp

lemma find_unique:
  "List.find P xs = Some i" if "i \<in> set xs" "P i" "\<And>j. P j \<Longrightarrow> j = i"
proof -
  have "List.find P xs \<noteq> None" using that(1,2) by (auto simp: find_None_iff)
  then obtain j where "List.find P xs = Some j" by auto
  then show ?thesis using that(3) by (auto simp: find_Some_iff)
qed

lemma bfind_cached:
  assumes ok: "bcache_ok s"
  shows "bfind (NBUF + 1) (bnext s) (\<lambda>j. b_dev (bufs s j) = 1 \<and> b_blockno (bufs s j) = b) (bnext s NBUF) =
     scan (on_block s b) NBUF"
proof -
  obtain xs where x: "lru s xs" using bcache_okD(1) [OF ok] by blast
  have c: "List.find (\<lambda>j. b_dev (bufs s j) = 1 \<and> b_blockno (bufs s j) = b) xs = List.find (on_block s b) xs"
    by (rule find_cong) (use lruD(2) [OF x] in \<open>auto simp: on_block_def\<close>)
  show ?thesis
  proof (cases "scan (on_block s b) NBUF")
    case None
    then have "List.find (on_block s b) xs = None"
      using lruD(2) [OF x] by (auto simp: scan_None_iff find_None_iff)
    with None show ?thesis by (simp only: bfind_forward [OF x] c)
  next
    case (Some i)
    then have "on_block s b i" by (rule scan_SomeD(2))
    then have "List.find (on_block s b) xs = Some i"
      by (intro find_unique) (auto simp: lruD(2) [OF x] on_block_lt bcache_okD(2) [OF ok])
    with Some show ?thesis by (simp only: bfind_forward [OF x] c)
  qed
qed

lemma bread_hit:
  assumes ok: "bcache_ok s" and q: "quiet s" and i: "on_block s b i" "b_refcnt (bufs s i) = 0"
  shows "bread 1 b s = Ret i (s\<lparr>bufs := (bufs s)(i := bloaded (b_dirty (bufs s i)) b (bview s b)),
           slocks := (slocks s)(BufSL i := owned (mypid s))\<rparr>)"
proof -
  let ?q = "bloaded (b_dirty (bufs s i)) b (bview s b)"
  let ?t = "s\<lparr>bufs := (bufs s)(i := ?q)\<rparr>"
  have e: "(bufs s i)\<lparr>b_refcnt := Suc 0\<rparr> = ?q"
    using i bview_cached [OF ok i(1)] bcache_okD(3) [OF ok i(1)] by (simp add: bloaded_def on_block_def)
  have h: "held s = []" using q by (simp add: quiet_def)
  have "bget 1 b s = bindK (acquiresleep (BufSL i) ?t) (\<lambda>_ s. Ret i s)"
    using bfind_cached [OF ok, of b] scan_on_block [OF ok i(1)] h i(2) e by (simp add: bget_def held_same)
  moreover have "acquiresleep (BufSL i) ?t = Ret () (?t\<lparr>slocks := (slocks s)(BufSL i := owned (mypid s))\<rparr>)"
    using acquiresleep_eq [of ?t "BufSL i"] q bcache_okD(5) [OF ok on_block_lt [OF i(1)] i(2)] by simp
  ultimately show ?thesis by (simp add: bread_def bloaded_def)
qed

lemma bread_miss:
  assumes ok: "bcache_ok s" and q: "quiet s" and nc: "\<not> bcached s b" and f: "bidle s \<noteq> {}" and b: "b < disksize s"
  shows "\<exists>i\<in>bidle s. bread 1 b s = Ret i (s\<lparr>bufs := (bufs s)(i := bloaded False b (disk s b)),
           slocks := (slocks s)(BufSL i := owned (mypid s))\<rparr>)"
proof -
  obtain xs where x: "lru s xs" using bcache_okD(1) [OF ok] by blast
  let ?P = "\<lambda>j. b_refcnt (bufs s j) = 0 \<and> \<not> b_dirty (bufs s j)"
  have "List.find ?P (rev xs) \<noteq> None" using f lruD(2) [OF x] by (auto simp: bidle_def find_None_iff)
  then obtain i where i: "List.find ?P (rev xs) = Some i" by auto
  then have "i \<in> set (rev xs)" "?P i" by (auto simp: find_Some_iff) (metis length_rev nth_mem set_rev)
  then have fi: "i \<in> bidle s" "i < NBUF" "b_refcnt (bufs s i) = 0" using lruD(2) [OF x] by (auto simp: bidle_def)
  have none: "scan (on_block s b) NBUF = None" using nc by (auto simp: scan_None_iff bcached_def)
  have h: "held s = []" using q by (simp add: quiet_def)
  let ?q = "(bufs s i)\<lparr>b_dev := 1, b_blockno := b, b_valid := False, b_dirty := False, b_refcnt := 1\<rparr>"
  let ?t = "s\<lparr>bufs := (bufs s)(i := ?q)\<rparr>"
  let ?u = "?t\<lparr>slocks := (slocks s)(BufSL i := owned (mypid s))\<rparr>"
  have "bget 1 b s = bindK (acquiresleep (BufSL i) ?t) (\<lambda>_ s. Ret i s)"
    using bfind_cached [OF ok, of b] none bfind_backward [OF x, of ?P] i h by (simp add: bget_def held_same)
  moreover have "acquiresleep (BufSL i) ?t = Ret () ?u"
    using acquiresleep_eq [of ?t "BufSL i"] q bcache_okD(5) [OF ok fi(2,3)] by simp
  moreover have "iderw i ?u = Ret () (upd_buf i (\<lambda>q. q\<lparr>b_data := disk s b, b_valid := True\<rparr>) ?u)"
    using b q by (simp add: iderw_def holdingsleep_eq)
  ultimately have "bread 1 b s = Ret i (upd_buf i (\<lambda>q. q\<lparr>b_data := disk s b, b_valid := True\<rparr>) ?u)"
    by (simp add: bread_def)
  also have "upd_buf i (\<lambda>q. q\<lparr>b_data := disk s b, b_valid := True\<rparr>) ?u =
      s\<lparr>bufs := (bufs s)(i := bloaded False b (disk s b)), slocks := (slocks s)(BufSL i := owned (mypid s))\<rparr>"
    by (cases "bufs s i") (simp add: bloaded_def)
  finally show ?thesis by (rule bexI) (rule fi(1))
qed

text \<open>What the rest of the kernel relies on when it reads a block.\<close>

lemma bread_spec:
  assumes ok: "bcache_ok s" and q: "quiet s" and b: "b < disksize s"
    and idle: "\<And>i. on_block s b i \<Longrightarrow> b_refcnt (bufs s i) = 0" and avail: "bcached s b \<or> bidle s \<noteq> {}"
  obtains i where "bread 1 b s = Ret i (s\<lparr>bufs := (bufs s)(i := bloaded (bpinned s b) b (bview s b)),
           slocks := (slocks s)(BufSL i := owned (mypid s))\<rparr>)"
    and "i < NBUF" and "b_refcnt (bufs s i) = 0" and "on_block s b i \<or> \<not> bcached s b \<and> i \<in> bidle s"
proof (cases "bcached s b")
  case True
  then obtain i where i: "on_block s b i" by (auto simp: bcached_def)
  have "bpinned s b = b_dirty (bufs s i)" by (rule bpinned_iff [OF ok i])
  then show ?thesis
    using that [of i] bread_hit [OF ok q i idle [OF i]] i idle [OF i] on_block_lt [OF i] by simp
next
  case False
  with avail have "bidle s \<noteq> {}" by simp
  from bread_miss [OF ok q False this b] obtain i where i: "i \<in> bidle s"
    "bread 1 b s = Ret i (s\<lparr>bufs := (bufs s)(i := bloaded False b (disk s b)),
           slocks := (slocks s)(BufSL i := owned (mypid s))\<rparr>)" by blast
  have "\<not> bpinned s b" using False by (auto simp: bpinned_def bcached_def)
  with i False show ?thesis using that [of i] by (simp add: bview_disk bidle_def)
qed

section \<open>Working with blocks\<close>

text \<open>
  \<open>bstate s H\<close>: the cache is well formed and the running process holds exactly the buffers of the
  blocks in \<open>H\<close>, each once.
\<close>

definition bstate :: "'a kbio_scheme \<Rightarrow> (nat \<rightharpoonup> nat) \<Rightarrow> bool" where
  "bstate s H \<longleftrightarrow>
     bcache_ok s \<and> quiet s
   \<and> (\<forall>b i. H b = Some i \<longrightarrow> on_block s b i \<and> b_refcnt (bufs s i) = 1 \<and> slocks s (BufSL i) = owned (mypid s))
   \<and> (\<forall>i<NBUF. b_refcnt (bufs s i) \<noteq> 0 \<longrightarrow> (\<exists>b. H b = Some i))"

text \<open>The parts of the state the cache changes without touching the disk.\<close>

definition cache_only :: "'a kbio_scheme \<Rightarrow> 'a kbio_scheme \<Rightarrow> bool" where
  "cache_only s t \<longleftrightarrow> mypid t = mypid s \<and>
     t = s\<lparr>procs := procs t, slocks := slocks t, bufs := bufs t, bnext := bnext t, bprev := bprev t\<rparr>"

lemma bstateD:
  assumes "bstate s H"
  shows "bcache_ok s" and "quiet s" and "H b = Some i \<Longrightarrow> on_block s b i" and "H b = Some i \<Longrightarrow> b_refcnt (bufs s i) = 1"
    and "H b = Some i \<Longrightarrow> slocks s (BufSL i) = owned (mypid s)"
    and "i < NBUF \<Longrightarrow> b_refcnt (bufs s i) \<noteq> 0 \<Longrightarrow> \<exists>b. H b = Some i"
  using assms unfolding bstate_def by blast+

text \<open>A free buffer exists as long as fewer blocks than buffers are held or pinned.\<close>

lemma bidle_exists:
  assumes st: "bstate s H" and card: "finite (dom H \<union> Collect (bpinned s))" "card (dom H \<union> Collect (bpinned s)) < NBUF"
  shows "bidle s \<noteq> {}"
proof
  assume "bidle s = {}"
  have "\<exists>b. b \<in> dom H \<union> Collect (bpinned s) \<and> on_block s b i" if "i < NBUF" for i
  proof (cases "b_refcnt (bufs s i) = 0")
    case True
    with that \<open>bidle s = {}\<close> have "b_dirty (bufs s i)" by (auto simp: bidle_def)
    with that bcache_okD(6) [OF bstateD(1) [OF st]] show ?thesis by (auto simp: bpinned_def on_block_def)
  next
    case False
    then show ?thesis using bstateD(6) [OF st that] bstateD(3) [OF st] by blast
  qed
  then obtain f where f: "\<And>i. i < NBUF \<Longrightarrow> f i \<in> dom H \<union> Collect (bpinned s) \<and> on_block s (f i) i" by metis
  have "inj_on f {..<NBUF}"
    by (rule inj_onI) (metis f lessThan_iff on_block_def bcache_okD(2) [OF bstateD(1) [OF st]])
  moreover have "f ` {..<NBUF} \<subseteq> dom H \<union> Collect (bpinned s)" using f by auto
  ultimately have "card {..<NBUF} \<le> card (dom H \<union> Collect (bpinned s))"
    using card(1) card_inj_on_le by blast
  with card(2) show False by simp
qed

text \<open>Replacing the buffer \<open>i\<close> by one for block \<open>b\<close>, evicting a clean free buffer or one for the same block.\<close>

lemma on_block_upd:
  assumes "bufs t = (bufs s)(i := q)" and "b_dev q = 1" and "b_blockno q = b" and "i < NBUF"
  shows "on_block t c j \<longleftrightarrow> (if j = i then c = b else on_block s c j)"
  using assms by (auto simp: on_block_def)

definition bentered :: "nat \<Rightarrow> nat \<Rightarrow> 'a kbio_scheme \<Rightarrow> 'a kbio_scheme" where
  "bentered b i s = s\<lparr>bufs := (bufs s)(i := bloaded (bpinned s b) b (bview s b)),
     slocks := (slocks s)(BufSL i := owned (mypid s))\<rparr>"

lemma bentered_simps [simp]:
  "disk (bentered b i s) = disk s" "mypid (bentered b i s) = mypid s" "quiet (bentered b i s) = quiet s"
  "bnext (bentered b i s) = bnext s" "bprev (bentered b i s) = bprev s"
  "bufs (bentered b i s) = (bufs s)(i := bloaded (bpinned s b) b (bview s b))"
  "slocks (bentered b i s) = (slocks s)(BufSL i := owned (mypid s))"
  by (simp_all add: bentered_def)

lemma bloaded_simps [simp]:
  "b_valid (bloaded d b x)" "b_dirty (bloaded d b x) = d" "b_dev (bloaded d b x) = 1"
  "b_blockno (bloaded d b x) = b" "b_refcnt (bloaded d b x) = 1" "b_data (bloaded d b x) = x"
  by (simp_all add: bloaded_def)

lemma bentered_on_block: "i < NBUF \<Longrightarrow> on_block (bentered b i s) c j \<longleftrightarrow> (if j = i then c = b else on_block s c j)"
  by (rule on_block_upd [where q = "bloaded (bpinned s b) b (bview s b)"]) simp_all

lemma bentered_ok:
  assumes ok: "bcache_ok s" and i: "i < NBUF" and or: "on_block s b i \<or> \<not> bcached s b"
  shows "bcache_ok (bentered b i s)"
proof -
  note D = bcache_okD [OF ok] and U = bentered_on_block [OF i, of b s]
  have b: "j = i" if "on_block s b j" for j using or that D(2) by (auto simp: bcached_def)
  show ?thesis
    unfolding bcache_ok_def
  proof (intro conjI allI impI)
    show "\<exists>xs. lru (bentered b i s) xs" using D(1) by (simp add: lru_def)
    show "j = k" if "on_block (bentered b i s) c j" "on_block (bentered b i s) c k" for c j k
      using that b D(2) by (auto simp: U split: if_splits)
    show "b_valid (bufs (bentered b i s) j)" if "on_block (bentered b i s) c j" for c j
      using that D(3) by (auto simp: U split: if_splits)
    show "b_data (bufs (bentered b i s) j) = disk (bentered b i s) c"
      if "on_block (bentered b i s) c j" "b_refcnt (bufs (bentered b i s) j) = 0" "\<not> b_dirty (bufs (bentered b i s) j)" for c j
      using that D(4) by (auto simp: U split: if_splits)
    show "\<not> sl_locked (slocks (bentered b i s) (BufSL j))" if "j < NBUF" "b_refcnt (bufs (bentered b i s) j) = 0" for j
      using that D(5) by (auto split: if_splits)
    show "b_dev (bufs (bentered b i s) j) = 1" if "j < NBUF" "b_dirty (bufs (bentered b i s) j)" for j
      using that D(6) by (auto split: if_splits)
  qed
qed

lemma bentered_view:
  assumes ok: "bcache_ok s" and i: "i < NBUF" "b_refcnt (bufs s i) = 0"
    and or: "on_block s b i \<or> \<not> bcached s b \<and> i \<in> bidle s"
  shows "bview (bentered b i s) = bview s" and "bpinned (bentered b i s) = bpinned s"
proof -
  let ?t = "bentered b i s"
  have okt: "bcache_ok ?t" by (rule bentered_ok [OF ok i(1)]) (use or in auto)
  note U = bentered_on_block [OF i(1), of b s]
  have evicted: "bview s c = disk s c" "\<not> bpinned s c" if "on_block s c i" "c \<noteq> b" for c
  proof -
    have "\<not> on_block s b i" using that by (auto simp: on_block_def)
    with or have "\<not> b_dirty (bufs s i)" by (auto simp: bidle_def)
    then show "bview s c = disk s c" "\<not> bpinned s c"
      using that bcache_okD(4) [OF ok that(1) i(2)] bview_cached [OF ok that(1)] bpinned_iff [OF ok that(1)] by auto
  qed
  have "bview ?t c = bview s c \<and> bpinned ?t c = bpinned s c" for c
  proof (cases "bcached ?t c")
    case True
    then obtain j where j: "on_block ?t c j" by (auto simp: bcached_def)
    show ?thesis
    proof (cases "j = i")
      case True
      then show ?thesis using j bview_cached [OF okt j] bpinned_iff [OF okt j] by (auto simp: U)
    next
      case False
      then have "on_block s c j" using j by (simp add: U)
      then show ?thesis
        using False bview_cached [OF okt j] bpinned_iff [OF okt j] bview_cached [OF ok] bpinned_iff [OF ok] by simp
    qed
  next
    case False
    then have nt: "\<not> on_block ?t c k" for k by (simp add: bcached_def)
    have no: "\<not> on_block s c j" if "j \<noteq> i" for j using nt [of j] that by (simp add: U)
    have "bpinned ?t c = False" using False by (auto simp: bpinned_def bcached_def)
    moreover have "bview ?t c = disk s c" using bview_disk [OF False] by simp
    moreover have "bview s c = disk s c \<and> \<not> bpinned s c"
    proof (cases "on_block s c i")
      case True
      have "c \<noteq> b" using nt [of i] by (simp add: U)
      then show ?thesis using evicted [OF True] by simp
    next
      case no_i: False
      then have "\<not> bcached s c" unfolding bcached_def using no by metis
      then show ?thesis using bview_disk [of s c] by (auto simp: bpinned_def bcached_def)
    qed
    ultimately show ?thesis by simp
  qed
  then show "bview ?t = bview s" "bpinned ?t = bpinned s" by auto
qed

text \<open>Reading a block.\<close>

lemma bread_rule:
  assumes st: "bstate s H" and b: "b < disksize s" "b \<notin> dom H" and avail: "bcached s b \<or> bidle s \<noteq> {}"
  obtains i t where "bread 1 b s = Ret i t" and "bstate t (H(b \<mapsto> i))" and "bview t = bview s" and "bpinned t = bpinned s"
    and "cache_only s t" and "b_data (bufs t i) = bview s b" and "\<And>c. bcached s c \<Longrightarrow> c \<in> dom H \<Longrightarrow> bcached t c"
    and "i \<notin> ran H" and "\<And>j. j \<in> ran H \<Longrightarrow> bufs t j = bufs s j"
proof -
  note S = bstateD [OF st]
  have idle: "b_refcnt (bufs s i) = 0" if ob: "on_block s b i" for i
  proof (rule ccontr)
    assume "b_refcnt (bufs s i) \<noteq> 0"
    then obtain c where "H c = Some i" using S(6) on_block_lt [OF ob] by blast
    with S(3) [of c i] ob b(2) show False by (auto simp: on_block_def)
  qed
  obtain i where r: "bread 1 b s = Ret i (bentered b i s)" and i: "i < NBUF" "b_refcnt (bufs s i) = 0"
    and or: "on_block s b i \<or> \<not> bcached s b \<and> i \<in> bidle s"
    unfolding bentered_def by (rule bread_spec [OF S(1,2) b(1) idle avail])
  note U = bentered_on_block [OF i(1), of b s]
  have nH: "i \<notin> ran H"
  proof
    assume "i \<in> ran H"
    then obtain c where "H c = Some i" by (auto simp: ran_def)
    with S(4) i(2) show False by force
  qed
  have "bstate (bentered b i s) (H(b \<mapsto> i))"
    unfolding bstate_def
  proof (intro conjI allI impI)
    show "bcache_ok (bentered b i s)" by (rule bentered_ok [OF S(1) i(1)]) (use or in auto)
    fix c j
    assume c: "(H(b \<mapsto> i)) c = Some j"
    have "c = b \<and> j = i \<or> c \<noteq> b \<and> j \<noteq> i \<and> H c = Some j"
      using c nH by (auto simp: ran_def split: if_splits)
    then show "on_block (bentered b i s) c j" "b_refcnt (bufs (bentered b i s) j) = 1"
      "slocks (bentered b i s) (BufSL j) = owned (mypid (bentered b i s))"
      using S(3-5) [of c j] by (auto simp: U)
  next
    fix j
    assume "j < NBUF" "b_refcnt (bufs (bentered b i s) j) \<noteq> 0"
    then show "\<exists>c. (H(b \<mapsto> i)) c = Some j"
      using S(6) [of j] b(2) by (cases "j = i") auto
  qed (use S(2) in simp)
  moreover have "cache_only s (bentered b i s)" by (simp add: cache_only_def) (simp add: bentered_def)
  moreover have "bcached (bentered b i s) c" if "bcached s c" and c: "c \<in> dom H" for c
  proof -
    obtain j where j: "H c = Some j" using c by auto
    then have "j \<noteq> i" using nH by (auto simp: ran_def)
    then show ?thesis using S(3) [OF j] by (auto simp: bcached_def U)
  qed
  moreover have "bufs (bentered b i s) j = bufs s j" if "j \<in> ran H" for j using that nH by auto
  ultimately show thesis
    using that [OF r] bentered_view [OF S(1) i or] nH by simp
qed

text \<open>Changing the contents of a held buffer.\<close>

lemma bdata_rule:
  fixes x :: block
  assumes st: "bstate s H" and i: "H b = Some i"
  defines "t \<equiv> upd_buf i (\<lambda>q. q\<lparr>b_data := x\<rparr>) s"
  shows "bstate t H" and "bview t = (bview s)(b := x)" and "bpinned t = bpinned s" and "cache_only s t"
proof -
  note S = bstateD [OF st]
  have O: "on_block t = on_block s" by (rule ext)+ (auto simp: on_block_def t_def)
  have Q: "b_refcnt (bufs t j) = b_refcnt (bufs s j)" "b_valid (bufs t j) = b_valid (bufs s j)"
    "b_dirty (bufs t j) = b_dirty (bufs s j)" "b_dev (bufs t j) = b_dev (bufs s j)" for j by (auto simp: t_def)
  have X: "b_data (bufs t j) = (if j = i then x else b_data (bufs s j))" for j by (simp add: t_def)
  have F: "disk t = disk s" "slocks t = slocks s" "bnext t = bnext s" "bprev t = bprev s" "mypid t = mypid s"
    "quiet t = quiet s" by (simp_all add: t_def)
  have i': "on_block s b i" "b_refcnt (bufs s i) = 1" using S(3,4) [OF i] by simp_all
  have "bcache_ok t"
    unfolding bcache_ok_def O Q F lru_def
  proof (intro conjI allI impI)
    fix c j
    assume "on_block s c j" "b_refcnt (bufs s j) = 0" "\<not> b_dirty (bufs s j)"
    then show "b_data (bufs t j) = disk s c"
      using bcache_okD(4) [OF S(1)] i'(2) by (cases "j = i") (auto simp: t_def)
  qed (use bcache_okD [OF S(1)] in \<open>auto simp: lru_def\<close>)
  then show "bstate t H"
    using S unfolding bstate_def O Q F by blast
  have "bview t c = ((bview s)(b := x)) c" for c
  proof (cases "scan (on_block s c) NBUF")
    case (Some j)
    then have j: "on_block s c j" by (rule scan_SomeD)
    have "j = i \<longleftrightarrow> c = b" using j i'(1) bcache_okD(2) [OF S(1), of b i j] by (auto simp: on_block_def)
    then show ?thesis using Some by (simp add: bview_def O X)
  next
    case None
    then have "c \<noteq> b" using i'(1) on_block_lt [OF i'(1)] by (auto simp: scan_None_iff)
    then show ?thesis using None by (simp add: bview_def O F)
  qed
  then show "bview t = (bview s)(b := x)" by auto
  show "bpinned t = bpinned s" by (rule ext) (simp add: bpinned_def O Q)
  show "cache_only s t" by (simp add: cache_only_def F) (simp add: t_def)
qed

text \<open>Writing a held buffer to the disk.\<close>

lemma bwrite_rule:
  fixes s :: "'a kbio_scheme"
  assumes st: "bstate s H" and i: "H b = Some i" and b: "b < disksize s"
  defines "t \<equiv> s\<lparr>bufs := (bufs s)(i := (bufs s i)\<lparr>b_dirty := False\<rparr>), disk := (disk s)(b := bview s b),
      dhist := dhist s @ [(b, bview s b)]\<rparr>"
  shows "bwrite i s = Ret () t" and "bstate t H" and "bview t = bview s" and "bpinned t = (bpinned s)(b := False)"
proof -
  note S = bstateD [OF st]
  have i': "on_block s b i" "b_refcnt (bufs s i) = 1" "slocks s (BufSL i) = owned (mypid s)" using S(3-5) [OF i] by simp_all
  have v: "bview s b = b_data (bufs s i)" "b_valid (bufs s i)" by (rule bview_cached [OF S(1) i'(1)]) (rule bcache_okD(3) [OF S(1) i'(1)])
  have e: "(bufs s i)\<lparr>b_dirty := False, b_valid := True\<rparr> = (bufs s i)\<lparr>b_dirty := False\<rparr>"
    using v(2) by (cases "bufs s i") simp
  have d: "b_dev (bufs s i) = Suc 0" "b_blockno (bufs s i) = b" using i'(1) by (simp_all add: on_block_def)
  show "bwrite i s = Ret () t"
    by (simp add: bwrite_def holdingsleep_eq S(2) i'(3) iderw_def Let_def d b not_le t_def v(1) e)
  have O: "on_block t = on_block s" by (rule ext)+ (auto simp: on_block_def t_def)
  have Q: "b_refcnt (bufs t j) = b_refcnt (bufs s j)" "b_valid (bufs t j) = b_valid (bufs s j)"
    "b_dirty (bufs t j) = (j \<noteq> i \<and> b_dirty (bufs s j))" "b_dev (bufs t j) = b_dev (bufs s j)"
    "b_data (bufs t j) = b_data (bufs s j)" for j by (auto simp: t_def)
  have F: "disk t = (disk s)(b := bview s b)" "slocks t = slocks s" "bnext t = bnext s" "bprev t = bprev s"
    "mypid t = mypid s" "quiet t = quiet s" by (simp_all add: t_def)
  have eq: "j = i \<longleftrightarrow> c = b" if "on_block s c j" for c j
    using that i'(1) bcache_okD(2) [OF S(1), of b i j] by (auto simp: on_block_def)
  have "bcache_ok t"
    unfolding bcache_ok_def O Q F lru_def
  proof (intro conjI allI impI)
    fix c j
    assume "on_block s c j" "b_refcnt (bufs s j) = 0" "\<not> (j \<noteq> i \<and> b_dirty (bufs s j))"
    then show "b_data (bufs s j) = ((disk s)(b := bview s b)) c"
      using bcache_okD(4) [OF S(1), of c j] i'(2) eq [of c j] by (cases "j = i") auto
  qed (use bcache_okD [OF S(1)] in \<open>auto simp: lru_def\<close>)
  then show "bstate t H"
    using S unfolding bstate_def O Q F by blast
  have "bview t c = bview s c" for c
  proof (cases "scan (on_block s c) NBUF")
    case None
    then have "c \<noteq> b" using i'(1) on_block_lt [OF i'(1)] by (auto simp: scan_None_iff)
    with None show ?thesis by (simp add: bview_def O F)
  qed (simp add: bview_def O Q)
  then show "bview t = bview s" by auto
  have "bpinned t c = ((bpinned s)(b := False)) c" for c
    using eq by (auto simp: bpinned_def O Q)
  then show "bpinned t = (bpinned s)(b := False)" by auto
qed

text \<open>Releasing a held buffer; a buffer that is not pinned must have been written.\<close>

lemma brelse_rule:
  assumes st: "bstate s H" and i: "H b = Some i" and w: "bpinned s b \<or> disk s b = bview s b"
  obtains t where "brelse i s = Ret () t" and "bstate t (H(b := None))" and "bview t = bview s" and "bpinned t = bpinned s"
    and "cache_only s t" and "\<And>j. j \<noteq> i \<Longrightarrow> bufs t j = bufs s j" and "bcached t = bcached s"
proof -
  note S = bstateD [OF st]
  have i': "on_block s b i" "b_refcnt (bufs s i) = 1" "slocks s (BufSL i) = owned (mypid s)" using S(3-5) [OF i] by simp_all
  obtain xs where x: "lru s xs" using bcache_okD(1) [OF S(1)] by blast
  let ?u = "s\<lparr>procs := wake_tab (Some (CSleep (BufSL i))) (procs s), slocks := (slocks s)(BufSL i := unowned),
      bufs := (bufs s)(i := (bufs s i)\<lparr>b_refcnt := 0\<rparr>)\<rparr>"
  let ?v = "s\<lparr>slocks := (slocks s)(BufSL i := unowned), procs := wake_tab (Some (CSleep (BufSL i))) (procs s),
      held := [BcacheLk], bufs := (bufs s)(i := (bufs s i)\<lparr>b_refcnt := 0\<rparr>)\<rparr>"
  have "lru ?v xs" using x by (simp add: lru_def)
  from lru_touch [OF this on_block_lt [OF i'(1)]] obtain nx pv where
    r: "bpush i (bunlink i ?v) = ?v\<lparr>bnext := nx, bprev := pv\<rparr>" "ring nx pv (i # remove1 i xs)" by blast
  let ?t = "?u\<lparr>bnext := nx, bprev := pv\<rparr>"
  have h: "held s = []" using S(2) by (simp add: quiet_def)
  have "brelse i s = Ret () ?t"
    using i'(2,3) S(2) r(1) h by (simp add: brelse_def holdingsleep_eq releasesleep_eq wakeup1_def Let_def held_same)
  moreover have O: "on_block ?t = on_block s" by (rule ext)+ (auto simp: on_block_def)
  have Q: "b_refcnt (bufs ?t j) = (if j = i then 0 else b_refcnt (bufs s j))" "b_valid (bufs ?t j) = b_valid (bufs s j)"
    "b_dirty (bufs ?t j) = b_dirty (bufs s j)" "b_dev (bufs ?t j) = b_dev (bufs s j)"
    "b_data (bufs ?t j) = b_data (bufs s j)" for j by auto
  have F: "disk ?t = disk s" "slocks ?t = (slocks s)(BufSL i := unowned)" "bnext ?t = nx" "bprev ?t = pv"
    "mypid ?t = mypid s" "quiet ?t = quiet s" by (simp_all add: mypid_def wake_tab_def split: option.split)
  have eq: "j = i \<longleftrightarrow> c = b" if "on_block s c j" for c j
    using that i'(1) bcache_okD(2) [OF S(1), of b i j] by (auto simp: on_block_def)
  have ok: "bcache_ok ?t"
    unfolding bcache_ok_def O Q F lru_def
  proof (intro conjI allI impI)
    show "\<exists>xs. ring nx pv xs \<and> set xs = {..<NBUF}"
      using r(2) lruD(1,2) [OF x] on_block_lt [OF i'(1)] by (intro exI [of _ "i # remove1 i xs"]) auto
    fix c j
    assume "on_block s c j" "(if j = i then 0 else b_refcnt (bufs s j)) = 0" "\<not> b_dirty (bufs s j)"
    then show "b_data (bufs s j) = disk s c"
      using bcache_okD(4) [OF S(1), of c j] eq [of c j] w bpinned_iff [OF S(1), of c j] bview_cached [OF S(1), of c j]
      by (auto split: if_splits)
  next
    fix j
    assume "j < NBUF" "(if j = i then 0 else b_refcnt (bufs s j)) = 0"
    then show "\<not> sl_locked (((slocks s)(BufSL i := unowned)) (BufSL j))"
      using bcache_okD(5) [OF S(1), of j] by (auto split: if_splits)
  qed (use bcache_okD(2,3,6) [OF S(1)] in auto)
  have "bstate ?t (H(b := None))"
    unfolding bstate_def O Q F
  proof (intro conjI allI impI ok)
    fix c j
    assume "(H(b := None)) c = Some j"
    then have c: "c \<noteq> b" "H c = Some j" by (auto split: if_splits)
    then have "j \<noteq> i" using eq [OF S(3) [OF c(2)]] by simp
    with c S(3-5) [OF c(2)] show "on_block s c j" "(if j = i then 0 else b_refcnt (bufs s j)) = 1"
      "((slocks s)(BufSL i := unowned)) (BufSL j) = owned (mypid s)" by auto
  next
    fix j
    assume "j < NBUF" "(if j = i then 0 else b_refcnt (bufs s j)) \<noteq> 0"
    then obtain c where "j \<noteq> i" "H c = Some j" using S(6) [of j] by (auto split: if_splits)
    then show "\<exists>c. (H(b := None)) c = Some j" using i by (intro exI [of _ c]) auto
  qed (rule S(2))
  moreover have "bview ?t = bview s" by (rule ext) (simp only: bview_def O Q F)
  moreover have "bpinned ?t = bpinned s" "bcached ?t = bcached s"
    by (rule ext, simp only: bpinned_def bcached_def O Q)+
  moreover have "cache_only s ?t" by (simp add: cache_only_def F(5) [simplified])
  ultimately show thesis using that [of ?t] by simp
qed

text \<open>A block that is neither held nor pinned is on the disk as the kernel sees it.\<close>

lemma bview_clean:
  assumes st: "bstate s H" and "b \<notin> dom H" and "\<not> bpinned s b"
  shows "bview s b = disk s b"
proof (cases "bcached s b")
  case True
  then obtain i where i: "on_block s b i" by (auto simp: bcached_def)
  note S = bstateD [OF st]
  have "b_refcnt (bufs s i) = 0"
  proof (rule ccontr)
    assume "b_refcnt (bufs s i) \<noteq> 0"
    then obtain c where c: "H c = Some i" using S(6) on_block_lt [OF i] by blast
    with S(3) [OF c] i assms(2) show False by (auto simp: on_block_def)
  qed
  moreover have "\<not> b_dirty (bufs s i)" using assms(3) bpinned_iff [OF S(1) i] by simp
  ultimately show ?thesis using bcache_okD(4) [OF S(1) i] bview_cached [OF S(1) i] by simp
qed (rule bview_disk)

lemma bpinned_cached: "bpinned s b \<Longrightarrow> bcached s b"
  by (auto simp: bpinned_def bcached_def)

text \<open>The parts of the state that reading and writing blocks changes.\<close>

definition io_only :: "'a kbio_scheme \<Rightarrow> 'a kbio_scheme \<Rightarrow> bool" where
  "io_only s t \<longleftrightarrow> mypid t = mypid s \<and>
     t = s\<lparr>procs := procs t, slocks := slocks t, disk := disk t, dhist := dhist t, bufs := bufs t,
         bnext := bnext t, bprev := bprev t\<rparr>"

lemma io_only_refl [simp]: "io_only s s"
  by (simp add: io_only_def)

lemma io_only_trans: "io_only s t \<Longrightarrow> io_only t u \<Longrightarrow> io_only s u"
  by (cases s; cases t; cases u) (simp add: io_only_def)

lemma cache_only_io: "cache_only s t \<Longrightarrow> io_only s t"
  by (cases s; cases t) (simp add: io_only_def cache_only_def)

lemma cache_only_trans: "cache_only s t \<Longrightarrow> cache_only t u \<Longrightarrow> cache_only s u"
  by (cases s; cases t; cases u) (simp add: cache_only_def)

lemma cache_onlyD:
  assumes "cache_only s t"
  shows "disk t = disk s" "dhist t = dhist s" "disksize t = disksize s"
  using assms by (cases s; cases t; simp add: cache_only_def)+

lemma io_onlyD:
  assumes "io_only s t"
  shows "disksize t = disksize s" "kbio.more t = kbio.more s" "held t = held s" "cpu_proc t = cpu_proc s"
    "mypid t = mypid s"
  using assms by (cases s; cases t; simp add: io_only_def)+

text \<open>One block is written with the contents of another, as the log does in both directions.\<close>

abbreviation copied :: "'a kbio_scheme \<Rightarrow> nat \<Rightarrow> nat \<Rightarrow> 'a kbio_scheme \<Rightarrow> bool" where
  "copied s src dst t \<equiv> bstate t Map.empty \<and> io_only s t \<and> disk t = (disk s)(dst := bview s src)
     \<and> bview t = (bview s)(dst := bview s src) \<and> bpinned t = (bpinned s)(dst := False)
     \<and> dhist t = dhist s @ [(dst, bview s src)]"

lemma copy_tail:
  assumes st: "bstate s H" and H: "H = Map.empty(src \<mapsto> i, dst \<mapsto> j)" and ne: "src \<noteq> dst" and d: "dst < disksize s"
    and src: "bpinned s src \<or> disk s src = bview s src"
  shows "\<exists>t. bindK (bwrite j (upd_buf j (\<lambda>q. q\<lparr>b_data := b_data (bufs s i)\<rparr>) s)) (\<lambda>_ s.
           bindK (brelse i s) (\<lambda>_ s. brelse j s)) = Ret () t \<and> copied s src dst t"
proof -
  have Hs: "H src = Some i" "H dst = Some j" using H ne by simp_all
  note S = bstateD [OF st]
  let ?u = "upd_buf j (\<lambda>q. q\<lparr>b_data := bview s src\<rparr>) s"
  note U = bdata_rule [OF st Hs(2), of "bview s src"]
  note W = bwrite_rule [OF U(1) Hs(2)]
  have d': "dst < disksize ?u" using d by simp
  obtain w where W1: "bwrite j ?u = Ret () w" and w: "bstate w H" "bview w = (bview s)(dst := bview s src)"
    "bpinned w = (bpinned s)(dst := False)" "disk w = (disk s)(dst := bview s src)"
    "dhist w = dhist s @ [(dst, bview s src)]" "io_only s w"
    using W [OF d'] U(2,3) by (simp add: io_only_def)
  have "bpinned w src \<or> disk w src = bview w src" unfolding w using src ne by simp
  from brelse_rule [OF w(1) Hs(1) this] obtain v where v: "brelse i w = Ret () v" "bstate v (H(src := None))"
    "bview v = bview w" "bpinned v = bpinned w" "cache_only w v" by blast
  have "(H(src := None)) dst = Some j" using Hs ne by simp
  moreover have "bpinned v dst \<or> disk v dst = bview v dst" by (simp add: v cache_onlyD [OF v(5)] w)
  ultimately obtain t where t: "brelse j v = Ret () t" "bstate t (H(src := None, dst := None))"
    "bview t = bview v" "bpinned t = bpinned v" "cache_only v t"
    using brelse_rule [OF v(2)] by blast
  have "H(src := None, dst := None) = Map.empty" using H by auto
  moreover have "io_only s t"
    by (rule io_only_trans [OF w(6)]) (rule io_only_trans [OF cache_only_io [OF v(5)] cache_only_io [OF t(5)]])
  ultimately have "copied s src dst t"
    using t(2) by (simp add: t(3,4) v(3,4) w cache_onlyD [OF v(5)] cache_onlyD [OF t(5)])
  moreover have "b_data (bufs s i) = bview s src" using bview_cached [OF S(1) S(3) [OF Hs(1)]] by simp
  ultimately show ?thesis using t(1) v(1) W1 by (intro exI [of _ t]) simp
qed

lemma bread_ex:
  assumes "bstate s H" and "b < disksize s" and "b \<notin> dom H" and "bcached s b \<or> bidle s \<noteq> {}"
  obtains i t where "bread 1 b s = Ret i t" and "bstate t (H(b \<mapsto> i))" and "bview t = bview s" and "bpinned t = bpinned s"
    and "cache_only s t" and "b_data (bufs t i) = bview s b"
  by (rule bread_rule [OF assms]) (rule that)

text \<open>Room in the cache for reading \<open>b\<close> and then \<open>c\<close>.\<close>

definition room :: "'a kbio_scheme \<Rightarrow> nat \<Rightarrow> bool" where
  "room s c \<longleftrightarrow> finite (Collect (bpinned s)) \<and> card (Collect (bpinned s)) < NBUF
     \<and> (bpinned s c \<or> card (Collect (bpinned s)) + 1 < NBUF)"

lemma bread_two:
  assumes st: "bstate s Map.empty" and b: "b < disksize s" "c < disksize s" "b \<noteq> c" and rm: "room s c"
  obtains i j t u where "bread 1 b s = Ret i t" and "bread 1 c t = Ret j u" and "bstate u (Map.empty(b \<mapsto> i, c \<mapsto> j))"
    and "bview u = bview s" and "bpinned u = bpinned s" and "cache_only s u"
proof -
  have "bidle s \<noteq> {}" by (rule bidle_exists [OF st]) (use rm in \<open>simp_all add: room_def\<close>)
  then have av: "bcached s b \<or> bidle s \<noteq> {}" by simp
  have nd: "b \<notin> dom Map.empty" by simp
  obtain i t where t: "bread 1 b s = Ret i t" "bstate t (Map.empty(b \<mapsto> i))" "bview t = bview s"
    "bpinned t = bpinned s" "cache_only s t" "b_data (bufs t i) = bview s b"
    by (rule bread_ex [OF st b(1) nd av])
  have av': "bcached t c \<or> bidle t \<noteq> {}"
  proof (cases "bpinned s c")
    case True
    then show ?thesis using bpinned_cached [of t c] t(4) by simp
  next
    case False
    then have "card (Collect (bpinned s)) + 1 < NBUF" "finite (Collect (bpinned s))" using rm by (auto simp: room_def)
    moreover have "card (insert b (Collect (bpinned s))) \<le> card (Collect (bpinned s)) + 1"
      using calculation(2) by (simp add: card_insert_if)
    ultimately have "bidle t \<noteq> {}" by (intro bidle_exists [OF t(2)]) (simp_all add: t(4))
    then show ?thesis by simp
  qed
  have c: "c < disksize t" "c \<notin> dom (Map.empty(b \<mapsto> i))" using b(2,3) cache_onlyD(3) [OF t(5)] by simp_all
  obtain j u where u: "bread 1 c t = Ret j u" "bstate u (Map.empty(b \<mapsto> i, c \<mapsto> j))" "bview u = bview t"
    "bpinned u = bpinned t" "cache_only t u" "b_data (bufs u j) = bview t c"
    by (rule bread_ex [OF t(2) c av'])
  have "cache_only s u" by (rule cache_only_trans [OF t(5) u(5)])
  with t u show thesis using that [of i t j u] by simp
qed

lemma copied_from:
  assumes "cache_only s u" "bview u = bview s" "bpinned u = bpinned s" "copied u src dst t"
  shows "copied s src dst t"
  using assms io_only_trans [OF cache_only_io [OF assms(1)]] cache_onlyD [OF assms(1)] by simp

lemma copy_src_dst:
  assumes st: "bstate s Map.empty" and b: "src < disksize s" "dst < disksize s" "src \<noteq> dst" and rm: "room s dst"
  shows "\<exists>t. bindK (bread 1 src s) (\<lambda>i s. bindK (bread 1 dst s) (\<lambda>j s.
      bindK (bwrite j (upd_buf j (\<lambda>q. q\<lparr>b_data := b_data (bufs s i)\<rparr>) s)) (\<lambda>_ s.
      bindK (brelse i s) (\<lambda>_ s. brelse j s)))) = Ret () t \<and> copied s src dst t"
proof -
  obtain i j t u where u: "bread 1 src s = Ret i t" "bread 1 dst t = Ret j u"
    "bstate u (Map.empty(src \<mapsto> i, dst \<mapsto> j))" "bview u = bview s" "bpinned u = bpinned s" "cache_only s u"
    by (rule bread_two [OF st b rm])
  have "bpinned u src \<or> disk u src = bview u src"
    using bview_clean [OF st] by (auto simp: u cache_onlyD [OF u(6)])
  moreover have "dst < disksize u" using b(2) by (simp add: cache_onlyD(3) [OF u(6)])
  ultimately obtain v where v: "bindK (bwrite j (upd_buf j (\<lambda>q. q\<lparr>b_data := b_data (bufs u i)\<rparr>) u)) (\<lambda>_ s.
           bindK (brelse i s) (\<lambda>_ s. brelse j s)) = Ret () v" "copied u src dst v"
    using copy_tail [OF u(3) refl b(3)] by blast
  show ?thesis using copied_from [OF u(6,4,5) v(2)] v(1) by (intro exI [of _ v]) (simp only: u(1,2) bindK.simps simp_thms)
qed

lemma copy_dst_src:
  assumes st: "bstate s Map.empty" and b: "src < disksize s" "dst < disksize s" "src \<noteq> dst" and rm: "room s src"
  shows "\<exists>t. bindK (bread 1 dst s) (\<lambda>j s. bindK (bread 1 src s) (\<lambda>i s.
      bindK (bwrite j (upd_buf j (\<lambda>q. q\<lparr>b_data := b_data (bufs s i)\<rparr>) s)) (\<lambda>_ s.
      bindK (brelse i s) (\<lambda>_ s. brelse j s)))) = Ret () t \<and> copied s src dst t"
proof -
  obtain j i t u where u: "bread 1 dst s = Ret j t" "bread 1 src t = Ret i u"
    "bstate u (Map.empty(dst \<mapsto> j, src \<mapsto> i))" "bview u = bview s" "bpinned u = bpinned s" "cache_only s u"
    by (rule bread_two [OF st b(2,1) b(3) [symmetric] rm])
  have "bpinned u src \<or> disk u src = bview u src"
    using bview_clean [OF st] by (auto simp: u cache_onlyD [OF u(6)])
  moreover have "Map.empty(dst \<mapsto> j, src \<mapsto> i) = Map.empty(src \<mapsto> i, dst \<mapsto> j)" using b(3) by auto
  moreover have "dst < disksize u" using b(2) by (simp add: cache_onlyD(3) [OF u(6)])
  ultimately obtain v where v: "bindK (bwrite j (upd_buf j (\<lambda>q. q\<lparr>b_data := b_data (bufs u i)\<rparr>) u)) (\<lambda>_ s.
           bindK (brelse i s) (\<lambda>_ s. brelse j s)) = Ret () v" "copied u src dst v"
    using copy_tail [OF u(3) _ b(3)] by blast
  show ?thesis using copied_from [OF u(6,4,5) v(2)] v(1) by (intro exI [of _ v]) (simp only: u(1,2) bindK.simps simp_thms)
qed

lemma bwrite_ex:
  assumes "bstate s H" and "H b = Some i" and "b < disksize s"
  obtains t where "bwrite i s = Ret () t" and "bstate t H" and "bview t = bview s" and "bpinned t = (bpinned s)(b := False)"
    and "disk t = (disk s)(b := bview s b)" and "dhist t = dhist s @ [(b, bview s b)]" and "io_only s t"
  by (rule that [OF bwrite_rule [OF assms]]) (simp_all add: io_only_def)

text \<open>A block is read, changed and written back.\<close>

lemma modify_block:
  assumes st: "bstate s Map.empty" and b: "b < disksize s"
    and rm: "finite (Collect (bpinned s))" "card (Collect (bpinned s)) < NBUF"
  shows "\<exists>t. bindK (bread 1 b s) (\<lambda>i s. bindK (bwrite i (upd_buf i (\<lambda>q. q\<lparr>b_data := f (b_data q)\<rparr>) s)) (\<lambda>_ s. brelse i s)) = Ret () t
     \<and> bstate t Map.empty \<and> io_only s t \<and> disk t = (disk s)(b := f (bview s b))
     \<and> bview t = (bview s)(b := f (bview s b)) \<and> bpinned t = (bpinned s)(b := False)
     \<and> dhist t = dhist s @ [(b, f (bview s b))]"
proof -
  have "bidle s \<noteq> {}" by (rule bidle_exists [OF st]) (use rm in simp_all)
  then have av: "bcached s b \<or> bidle s \<noteq> {}" by simp
  have nd: "b \<notin> dom Map.empty" by simp
  obtain i t where t: "bread 1 b s = Ret i t" "bstate t (Map.empty(b \<mapsto> i))" "bview t = bview s"
    "bpinned t = bpinned s" "cache_only s t" "b_data (bufs t i) = bview s b"
    by (rule bread_ex [OF st b nd av])
  let ?x = "f (bview s b)" and ?H = "Map.empty(b \<mapsto> i)"
  let ?u = "upd_buf i (\<lambda>q. q\<lparr>b_data := ?x\<rparr>) t"
  have Hb: "?H b = Some i" by simp
  note U = bdata_rule [OF t(2) Hb, of ?x]
  have d: "b < disksize ?u" using b cache_onlyD(3) [OF t(5)] by simp
  obtain w where w: "bwrite i ?u = Ret () w" "bstate w ?H" "bview w = bview ?u" "bpinned w = (bpinned ?u)(b := False)"
    "disk w = (disk ?u)(b := bview ?u b)" "dhist w = dhist ?u @ [(b, bview ?u b)]" "io_only ?u w"
    by (rule bwrite_ex [OF U(1) Hb d])
  have w': "bview w = (bview s)(b := ?x)" "bpinned w = (bpinned s)(b := False)" "disk w = (disk s)(b := ?x)"
    "dhist w = dhist s @ [(b, ?x)]" "io_only t w"
    using io_only_trans [OF cache_only_io [OF U(4)] w(7)]
    by (simp_all only: w(3-6) U(2,3) t(3,4), simp_all add: cache_onlyD [OF t(5)])
  have "bpinned w b \<or> disk w b = bview w b" by (simp add: w')
  from brelse_rule [OF w(2) Hb this] obtain v where v: "brelse i w = Ret () v" "bstate v (?H(b := None))"
    "bview v = bview w" "bpinned v = bpinned w" "cache_only w v" by blast
  have "io_only s v"
    by (rule io_only_trans [OF cache_only_io [OF t(5)]]) (rule io_only_trans [OF w'(5) cache_only_io [OF v(5)]])
  moreover have "?H(b := None) = Map.empty" by auto
  ultimately show ?thesis
    using v(2) t(1,6) w(1) v(1)
    by (intro exI [of _ v]) (simp add: v(3,4) w'(1-4) cache_onlyD [OF v(5)])
qed

text \<open>A block is read and released.\<close>

lemma read_block:
  assumes st: "bstate s Map.empty" and b: "b < disksize s"
    and rm: "finite (Collect (bpinned s))" "card (Collect (bpinned s)) < NBUF"
  obtains i t u where "bread 1 b s = Ret i t" and "b_data (bufs t i) = bview s b" and "brelse i t = Ret () u"
    and "bstate u Map.empty" and "cache_only s t" and "cache_only s u" and "bview u = bview s" and "bpinned u = bpinned s"
    and "bstate t (Map.empty(b \<mapsto> i))" and "bview t = bview s" and "bpinned t = bpinned s"
proof -
  have "bidle s \<noteq> {}" by (rule bidle_exists [OF st]) (use rm in simp_all)
  then have av: "bcached s b \<or> bidle s \<noteq> {}" by simp
  have nd: "b \<notin> dom Map.empty" by simp
  obtain i t where t: "bread 1 b s = Ret i t" "bstate t (Map.empty(b \<mapsto> i))" "bview t = bview s"
    "bpinned t = bpinned s" "cache_only s t" "b_data (bufs t i) = bview s b"
    by (rule bread_ex [OF st b nd av])
  have "bpinned t b \<or> disk t b = bview t b"
    using bview_clean [OF st, of b] by (auto simp: t(3,4) cache_onlyD [OF t(5)])
  moreover have "(Map.empty(b \<mapsto> i)) b = Some i" by simp
  ultimately obtain u where u: "brelse i t = Ret () u" "bstate u (Map.empty(b \<mapsto> i, b := None))" "bview u = bview t"
    "bpinned u = bpinned t" "cache_only t u"
    using brelse_rule [OF t(2)] by blast
  have "cache_only s u" by (rule cache_only_trans [OF t(5) u(5)])
  moreover have "Map.empty(b \<mapsto> i, b := None) = Map.empty" by auto
  ultimately show thesis using that [OF t(1,6) u(1) _ t(5)] u t by simp
qed

section \<open>Main results\<close>

lemma binit_link_fields:
  assumes "b \<noteq> NBUF"
  shows "bnext (binit_link b s) = (bnext s)(b := bnext s NBUF, NBUF := b)"
    "bprev (binit_link b s) = (bprev s)(b := NBUF, bnext s NBUF := b)" "bufs (binit_link b s) = bufs s" "disk (binit_link b s) = disk s"
    "cpu_proc (binit_link b s) = cpu_proc s" "held (binit_link b s) = removeAll (SleepLk (BufSL b)) (held s)"
    "slocks (binit_link b s) = (slocks s)(BufSL b := unowned)"
  using assms by (simp_all add: binit_link_def Let_def initsleeplock_def initlock_def)

lemma binit_steps:
  assumes "n \<le> NBUF" and "bnext s NBUF = NBUF" "bprev s NBUF = NBUF" "held s = []"
  shows "ring (bnext (fold binit_link [0..<n] s)) (bprev (fold binit_link [0..<n] s)) (rev [0..<n])
    \<and> bufs (fold binit_link [0..<n] s) = bufs s \<and> disk (fold binit_link [0..<n] s) = disk s
    \<and> cpu_proc (fold binit_link [0..<n] s) = cpu_proc s \<and> held (fold binit_link [0..<n] s) = []
    \<and> (\<forall>i<n. slocks (fold binit_link [0..<n] s) (BufSL i) = unowned)"
  using assms(1)
proof (induction n)
  case (Suc n)
  obtain u where u: "u = fold binit_link [0..<n] s" by simp
  have IH: "ring (bnext u) (bprev u) (rev [0..<n])" "bufs u = bufs s" "disk u = disk s" "cpu_proc u = cpu_proc s" "held u = []"
    "\<forall>i<n. slocks u (BufSL i) = unowned" using Suc unfolding u by simp_all
  have n: "n \<noteq> NBUF" "n \<notin> set (rev [0..<n])" using Suc.prems by auto
  have f: "fold binit_link [0..<Suc n] s = binit_link n u" by (simp add: u)
  have "ring (bnext (binit_link n u)) (bprev (binit_link n u)) (rev [0..<Suc n])"
    using ring_push [OF IH(1) n(2,1)] n(1) by (simp add: binit_link_fields)
  moreover have "\<forall>i<Suc n. slocks (binit_link n u) (BufSL i) = unowned"
    using IH(6) n(1) by (auto simp: binit_link_fields less_Suc_eq)
  ultimately show ?case unfolding f using IH(2-5) n(1) by (intro conjI) (assumption | simp add: binit_link_fields)+
qed (use assms in \<open>simp add: ring_def\<close>)

lemma binit_state:
  assumes "\<And>i. i < NBUF \<Longrightarrow> b_refcnt (bufs s i) = 0 \<and> b_dev (bufs s i) = 0 \<and> \<not> b_dirty (bufs s i)"
    and "held s = []" and "cpu_proc s \<noteq> None"
  shows "bstate (binit s) Map.empty \<and> lru (binit s) (rev [0..<NBUF]) \<and> Collect (bpinned (binit s)) = {} \<and> bview (binit s) = disk s"
proof -
  define t where "t = binit s"
  let ?s = "s\<lparr>bprev := (bprev s)(NBUF := NBUF), bnext := (bnext s)(NBUF := NBUF)\<rparr>"
  have t: "t = fold binit_link [0..<NBUF] ?s" using assms(2) by (simp add: t_def binit_def Let_def initlock_def held_same)
  have T: "ring (bnext t) (bprev t) (rev [0..<NBUF])" "bufs t = bufs s" "disk t = disk s" "cpu_proc t = cpu_proc s"
    "\<forall>i<NBUF. slocks t (BufSL i) = unowned" "held t = []"
    using binit_steps [OF order_refl, of ?s] assms(2) unfolding t by simp_all
  have l: "lru t (rev [0..<NBUF])" using T(1) by (auto simp: lru_def)
  have no: "\<not> on_block t b i" for b i using assms(1) [of i] by (auto simp: on_block_def T(2))
  have "bcache_ok t" unfolding bcache_ok_def using l no T(2,5) assms(1) by auto
  then have "bstate t Map.empty" unfolding bstate_def quiet_def using T(2,4,6) assms(1,3) by auto
  moreover have "bview t = disk s" by (rule ext) (simp add: bview_disk bcached_def no T(3))
  ultimately show ?thesis using l no unfolding t_def bpinned_def by blast
qed

text \<open>A machine that has just started, with an empty disk and a process running.\<close>

definition kbio0 :: kbio where
  "kbio0 = kproc.extend (kproc0\<lparr>cpu_proc := Some 0\<rparr>) (ksleep_ext (\<lambda>_. unowned) (kbio_ext 1000 (\<lambda>_ _. 0) []
     (\<lambda>_. \<lparr>b_valid = False, b_dirty = False, b_dev = 0, b_blockno = 0, b_refcnt = 0, b_data = (\<lambda>_. 0)\<rparr>) (\<lambda>_. 0) (\<lambda>_. 0) ()))"

lemma kbio0_state: "bstate (binit kbio0) Map.empty" "Collect (bpinned (binit kbio0)) = {}" "bview (binit kbio0) = (\<lambda>_ _. 0)"
  using binit_state [of kbio0] by (simp_all add: kbio0_def kproc.extend_def kproc0_def)

lemma kbio0_disk: "disksize (binit kbio0) = 1000"
proof -
  have "disksize (binit_link b s) = disksize s" for b and s :: kbio
    by (simp add: binit_link_def Let_def initsleeplock_def initlock_def)
  then have "disksize (fold binit_link xs s) = disksize s" for xs and s :: kbio by (induction xs arbitrary: s) simp_all
  then show ?thesis by (simp add: binit_def Let_def initlock_def kbio0_def kproc.extend_def kproc0_def)
qed

text \<open>
  \<open>binit\<close> establishes the cache invariant. On zeroed buffers it links them all into the list of buffers,
  initializes their locks and leaves a cache in which no block is cached or pinned, so that the kernel
  sees the blocks as they are on disk.
\<close>

theorem binit_correct:
  assumes "\<And>i. i < NBUF \<Longrightarrow> b_refcnt (bufs s i) = 0 \<and> b_dev (bufs s i) = 0 \<and> \<not> b_dirty (bufs s i)"
    and "held s = []" and "cpu_proc s \<noteq> None"
  shows "bstate (binit s) Map.empty \<and> lru (binit s) (rev [0..<NBUF]) \<and> Collect (bpinned (binit s)) = {} \<and> bview (binit s) = disk s"
  by (rule binit_state) (use assms in simp_all)

theorem binit_correct_witness: "bstate (binit kbio0) Map.empty \<and> lru (binit kbio0) (rev [0..<NBUF])"
  using binit_correct [of kbio0] by (simp add: kbio0_def kproc.extend_def kproc0_def)

text \<open>
  C19: the cache behaves like the array of blocks it stands for. While fewer buffers than the cache has are
  pinned, the sequence \<open>bread\<close>, change, \<open>bwrite\<close>, \<open>brelse\<close> on block \<open>b\<close> returns, the new contents are on disk,
  and a later \<open>bread\<close> of any block \<open>c\<close> returns a locked buffer with the contents of \<open>c\<close> in that array.
\<close>

theorem cache_coherent:
  assumes "bstate s Map.empty" and "b < disksize s" and "c < disksize s"
    and "finite (Collect (bpinned s))" and "card (Collect (bpinned s)) < NBUF"
  shows "\<exists>t i u. bindK (bread 1 b s) (\<lambda>i s. bindK (bwrite i (upd_buf i (\<lambda>q. q\<lparr>b_data := f (b_data q)\<rparr>) s)) (\<lambda>_ s. brelse i s)) = Ret () t
     \<and> disk t b = f (bview s b) \<and> bread 1 c t = Ret i u \<and> bstate u (Map.empty(c \<mapsto> i))
     \<and> b_data (bufs u i) = (if c = b then f (bview s b) else bview s c)"
proof -
  obtain t where t: "bindK (bread 1 b s) (\<lambda>i s. bindK (bwrite i (upd_buf i (\<lambda>q. q\<lparr>b_data := f (b_data q)\<rparr>) s)) (\<lambda>_ s. brelse i s)) = Ret () t"
    "bstate t Map.empty" "io_only s t" "disk t = (disk s)(b := f (bview s b))" "bview t = (bview s)(b := f (bview s b))"
    "bpinned t = (bpinned s)(b := False)" "dhist t = dhist s @ [(b, f (bview s b))]"
    using modify_block [OF assms(1,2,4,5)] by blast
  have sub: "Collect (bpinned t) \<subseteq> Collect (bpinned s)" unfolding t(6) by (auto split: if_splits)
  have "finite (Collect (bpinned t))" "card (Collect (bpinned t)) < NBUF"
    using finite_subset [OF sub assms(4)] card_mono [OF assms(4) sub] assms(5) by simp_all
  moreover have "c < disksize t" using assms(3) io_onlyD(1) [OF t(3)] by simp
  ultimately obtain i u where "bread 1 c t = Ret i u" "b_data (bufs u i) = bview t c" "bstate u (Map.empty(c \<mapsto> i))"
    using read_block [OF t(2), of c] by blast
  then show ?thesis unfolding t(1) using t(4,5) by (intro exI [of _ t] exI [of _ i] exI [of _ u] conjI) simp_all
qed

theorem cache_coherent_witness:
  "\<exists>t i u. bindK (bread 1 7 (binit kbio0)) (\<lambda>i s. bindK (bwrite i (upd_buf i (\<lambda>q. q\<lparr>b_data := (b_data q)(3 := 9)\<rparr>) s)) (\<lambda>_ s. brelse i s)) = Ret () t
     \<and> bread 1 7 t = Ret i u \<and> b_data (bufs u i) 3 = 9"
proof -
  have "7 < disksize (binit kbio0)" "finite (Collect (bpinned (binit kbio0)))" "card (Collect (bpinned (binit kbio0))) < NBUF"
    by (simp_all only: kbio0_disk kbio0_state(2), simp_all add: NBUF_def)
  then obtain t i u where "bindK (bread 1 7 (binit kbio0)) (\<lambda>i s. bindK (bwrite i (upd_buf i (\<lambda>q. q\<lparr>b_data := (b_data q)(3 := 9)\<rparr>) s)) (\<lambda>_ s. brelse i s)) = Ret () t"
    "bread 1 7 t = Ret i u" "b_data (bufs u i) = (bview (binit kbio0) 7)(3 := 9)"
    using cache_coherent [OF kbio0_state(1), of 7 7 "\<lambda>d. d(3 := 9)"] by auto
  then show ?thesis by (intro exI [of _ t] exI [of _ i] exI [of _ u] conjI) simp_all
qed

end
