(* ===== verification/Log.thy ===== *)
theory Log
  imports Bio
begin

text \<open>
  The file system log (log.c) and the superblock it is found by (\<open>readsb\<close> of fs.c). The C \<open>int\<close>
  fields of the log are integers; \<open>uarg\<close> and \<open>iarg\<close> are the conversions between \<open>int\<close> and
  \<open>uint\<close>, as the code performs them when it passes a block number to \<open>bread\<close> or stores one in the
  header. The log header in memory has room for \<open>LOGSIZE\<close> block numbers; running past it is a fault.
  The main result is that a transaction is installed on the disk completely or not at all, whatever
  the write at which the machine stops and however often recovery itself is interrupted.
\<close>

section \<open>Words in a block\<close>

text \<open>\<open>((uint *) data)[k]\<close> with \<open>o = 4 * k\<close>: four bytes, least significant first.\<close>

definition getw :: "block \<Rightarrow> nat \<Rightarrow> uint" where
  "getw d i = ucast (d i) OR push_bit 8 (ucast (d (i + 1)))
     OR push_bit 16 (ucast (d (i + 2))) OR push_bit 24 (ucast (d (i + 3)))"

definition setw :: "nat \<Rightarrow> uint \<Rightarrow> block \<Rightarrow> block" where
  "setw i v d = d(i := ucast v, i + 1 := ucast (drop_bit 8 v),
     i + 2 := ucast (drop_bit 16 v), i + 3 := ucast (drop_bit 24 v))"

text \<open>Conversion of an \<open>int\<close> to \<open>uint\<close> and of a \<open>uint\<close> to \<open>int\<close>.\<close>

definition uarg :: "int \<Rightarrow> nat" where
  "uarg i = unat (word_of_int i :: uint)"

definition iarg :: "nat \<Rightarrow> int" where
  "iarg n = sint (of_nat n :: uint)"

section \<open>Superblock\<close>

record superblock =
  sb_size :: nat
  sb_nblocks :: nat
  sb_ninodes :: nat
  sb_nlog :: nat
  sb_logstart :: nat
  sb_inodestart :: nat
  sb_bmapstart :: nat

definition get_superblock :: "block \<Rightarrow> superblock" where
  "get_superblock d = \<lparr>sb_size = unat (getw d 0), sb_nblocks = unat (getw d 4), sb_ninodes = unat (getw d 8),
     sb_nlog = unat (getw d 12), sb_logstart = unat (getw d 16), sb_inodestart = unat (getw d 20),
     sb_bmapstart = unat (getw d 24)\<rparr>"

definition readsb :: "nat \<Rightarrow> 'a kbio_scheme \<Rightarrow> (superblock, 'a kbio_scheme) outcome" where
  "readsb dev s =
     bindK (bread dev 1 s) (\<lambda>bp s.
     let sb = get_superblock (b_data (bufs s bp))
     in bindK (brelse bp s) (\<lambda>_ s. Ret sb s))"

section \<open>The log\<close>

definition MAXOPBLOCKS :: nat where "MAXOPBLOCKS = 10"

definition LOGSIZE :: nat where "LOGSIZE = MAXOPBLOCKS * 3"

record klog = kbio +
  log_start :: int
  log_size :: int
  log_outstanding :: int
  log_committing :: bool
  log_dev :: nat
  lh_n :: int
  lh_block :: "nat \<Rightarrow> int"

definition install_trans :: "'a klog_scheme \<Rightarrow> (unit, 'a klog_scheme) outcome" where
  "install_trans s =
     forK (\<lambda>tail s.
       bindK (bread (log_dev s) (uarg (log_start s + int tail + 1)) s) (\<lambda>lbuf s.
       bindK (bread (log_dev s) (uarg (lh_block s tail)) s) (\<lambda>dbuf s.
       bindK (bwrite dbuf (upd_buf dbuf (\<lambda>q. q\<lparr>b_data := b_data (bufs s lbuf)\<rparr>) s)) (\<lambda>_ s.
       bindK (brelse lbuf s) (\<lambda>_ s.
       brelse dbuf s))))) [0..<nat (lh_n s)] s"

definition read_head :: "'a klog_scheme \<Rightarrow> (unit, 'a klog_scheme) outcome" where
  "read_head s =
     bindK (bread (log_dev s) (uarg (log_start s)) s) (\<lambda>buf s.
     let lh = b_data (bufs s buf);
         n = sint (getw lh 0)
     in if n > int LOGSIZE then Fault ''log header''
        else brelse buf (s\<lparr>lh_n := n,
               lh_block := (\<lambda>i. if int i < n then sint (getw lh (4 + 4 * i)) else lh_block s i)\<rparr>))"

text \<open>The header as \<open>write_head\<close> stores it: the count and the first \<open>n\<close> block numbers.\<close>

definition put_head :: "int \<Rightarrow> (nat \<Rightarrow> int) \<Rightarrow> block \<Rightarrow> block" where
  "put_head n blk d = fold (\<lambda>i d. setw (4 + 4 * i) (word_of_int (blk i)) d) [0..<nat n] (setw 0 (word_of_int n) d)"

definition write_head :: "'a klog_scheme \<Rightarrow> (unit, 'a klog_scheme) outcome" where
  "write_head s =
     bindK (bread (log_dev s) (uarg (log_start s)) s) (\<lambda>buf s.
     if lh_n s > int LOGSIZE then Fault ''log header''
     else bindK (bwrite buf (upd_buf buf (\<lambda>q. q\<lparr>b_data := put_head (lh_n s) (lh_block s) (b_data q)\<rparr>) s)) (\<lambda>_ s.
          brelse buf s))"

definition recover_from_log :: "'a klog_scheme \<Rightarrow> (unit, 'a klog_scheme) outcome" where
  "recover_from_log s =
     bindK (read_head s) (\<lambda>_ s.
     bindK (install_trans s) (\<lambda>_ s.
     write_head (s\<lparr>lh_n := 0\<rparr>)))"

text \<open>\<open>sizeof(struct logheader)\<close> is \<open>4 + 4 * LOGSIZE\<close>.\<close>

definition initlog :: "nat \<Rightarrow> 'a klog_scheme \<Rightarrow> (unit, 'a klog_scheme) outcome" where
  "initlog dev s =
     (if 4 + 4 * LOGSIZE \<ge> BSIZE then Panic ''initlog: too big logheader''
      else bindK (readsb dev (initlock LogLk s)) (\<lambda>sb s.
           recover_from_log (s\<lparr>log_start := iarg (sb_logstart sb), log_size := iarg (sb_nlog sb), log_dev := dev\<rparr>)))"

definition begin_op_loop :: "'a klog_scheme \<Rightarrow> (unit, 'a klog_scheme) outcome" where
  "begin_op_loop s =
     (if log_committing s then sleep CLog LogLk s
      else if lh_n s + (log_outstanding s + 1) * int MAXOPBLOCKS > int LOGSIZE then sleep CLog LogLk s
      else release LogLk (s\<lparr>log_outstanding := log_outstanding s + 1\<rparr>))"

definition begin_op :: "'a klog_scheme \<Rightarrow> (unit, 'a klog_scheme) outcome" where
  "begin_op s = bindK (acquire LogLk s) (\<lambda>_ s. begin_op_loop s)"

definition begin_op_resume :: "'a klog_scheme \<Rightarrow> (unit, 'a klog_scheme) outcome" where
  "begin_op_resume s = bindK (sleep_resume LogLk s) (\<lambda>_ s. begin_op_loop s)"

definition write_log :: "'a klog_scheme \<Rightarrow> (unit, 'a klog_scheme) outcome" where
  "write_log s =
     forK (\<lambda>tail s.
       bindK (bread (log_dev s) (uarg (log_start s + int tail + 1)) s) (\<lambda>to s.
       bindK (bread (log_dev s) (uarg (lh_block s tail)) s) (\<lambda>from s.
       bindK (bwrite to (upd_buf to (\<lambda>q. q\<lparr>b_data := b_data (bufs s from)\<rparr>) s)) (\<lambda>_ s.
       bindK (brelse from s) (\<lambda>_ s.
       brelse to s))))) [0..<nat (lh_n s)] s"

definition commit :: "'a klog_scheme \<Rightarrow> (unit, 'a klog_scheme) outcome" where
  "commit s =
     (if lh_n s > 0 then
        bindK (write_log s) (\<lambda>_ s.
        bindK (write_head s) (\<lambda>_ s.
        bindK (install_trans s) (\<lambda>_ s.
        write_head (s\<lparr>lh_n := 0\<rparr>))))
      else Ret () s)"

definition end_op :: "'a klog_scheme \<Rightarrow> (unit, 'a klog_scheme) outcome" where
  "end_op s =
     bindK (acquire LogLk s) (\<lambda>_ s.
     let s = s\<lparr>log_outstanding := log_outstanding s - 1\<rparr>
     in if log_committing s then Panic ''log.committing''
        else if log_outstanding s = 0 then
          bindK (release LogLk (s\<lparr>log_committing := True\<rparr>)) (\<lambda>_ s.
          bindK (commit s) (\<lambda>_ s.
          bindK (acquire LogLk s) (\<lambda>_ s.
          bindK (wakeup CLog (s\<lparr>log_committing := False\<rparr>)) (\<lambda>_ s.
          release LogLk s))))
        else bindK (wakeup CLog s) (\<lambda>_ s. release LogLk s))"

text \<open>The index at which \<open>log_write\<close> stores the block: that of an earlier entry, or the end.\<close>

definition log_index :: "'a klog_scheme \<Rightarrow> nat \<Rightarrow> nat" where
  "log_index s blockno =
     (case scan (\<lambda>i. uarg (lh_block s i) = blockno) (nat (lh_n s)) of Some i \<Rightarrow> i | None \<Rightarrow> nat (lh_n s))"

definition log_write :: "nat \<Rightarrow> 'a klog_scheme \<Rightarrow> (unit, 'a klog_scheme) outcome" where
  "log_write b s =
     (if lh_n s \<ge> int LOGSIZE \<or> lh_n s \<ge> log_size s - 1 then Panic ''too big a transaction''
      else if log_outstanding s < 1 then Panic ''log_write outside of trans''
      else bindK (acquire LogLk s) (\<lambda>_ s.
           let blockno = b_blockno (bufs s b);
               i = log_index s blockno;
               s = s\<lparr>lh_block := (lh_block s)(i := iarg blockno)\<rparr>;
               s = (if int i = lh_n s then s\<lparr>lh_n := lh_n s + 1\<rparr> else s)
           in release LogLk (upd_buf b (\<lambda>q. q\<lparr>b_dirty := True\<rparr>) s)))"

section \<open>Words and headers: what is stored is read back\<close>

lemma getw_setw_same [simp]: "getw (setw i v d) i = v"
proof (rule bit_word_eqI)
  fix n assume "n < LENGTH(32)"
  then show "bit (getw (setw i v d) i) n = bit v n"
    by (cases "n < 8"; cases "n < 16"; cases "n < 24")
      (auto simp: getw_def setw_def bit_or_iff bit_push_bit_iff bit_unsigned_iff bit_drop_bit_eq not_le less_diff_conv2)
qed

lemma getw_setw_other: "j + 4 \<le> i \<or> i + 4 \<le> j \<Longrightarrow> getw (setw i v d) j = getw d j"
  by (auto simp: getw_def setw_def)

lemma uarg_int [simp]: "uarg (int n) = n" if "n < 2 ^ 31"
  using that by (simp add: uarg_def unat_of_nat)

lemma iarg_small: "iarg n = int n" if "n < 2 ^ 31"
proof -
  have "iarg n = signed_take_bit 31 (int n)" by (simp add: iarg_def signed_of_nat)
  then show ?thesis using that by (simp add: signed_take_bit_int_eq_self)
qed

lemma uarg_iarg: "n < 2 ^ 32 \<Longrightarrow> uarg (iarg n) = n"
  by (simp add: uarg_def iarg_def unat_of_nat)

text \<open>The block numbers a header holds, and that they are \<open>hs\<close>.\<close>

definition hdr :: "block \<Rightarrow> nat list" where
  "hdr d = map (\<lambda>i. unat (getw d (4 + 4 * i))) [0..<nat (sint (getw d 0))]"

definition heads :: "block \<Rightarrow> nat list \<Rightarrow> bool" where
  "heads d hs \<longleftrightarrow> sint (getw d 0) = int (length hs) \<and> hdr d = hs"

lemma put_head_0: "getw (put_head n blk d) 0 = word_of_int n"
proof -
  have "getw (fold (\<lambda>i d. setw (4 + 4 * i) (v i) d) xs d) 0 = getw d 0" for v xs and d :: block
    by (induction xs arbitrary: d) (simp_all add: getw_setw_other)
  then show ?thesis by (simp add: put_head_def)
qed

lemma put_head_nth: "i < nat n \<Longrightarrow> getw (put_head n blk d) (4 + 4 * i) = word_of_int (blk i)"
proof -
  have "getw (fold (\<lambda>i d. setw (4 + 4 * i) (v i) d) [0..<m] d) (4 + 4 * i) = v i" if "i < m" for v m and d :: block
    using that
  proof (induction m)
    case (Suc m)
    then show ?case by (cases "i = m") (simp_all add: getw_setw_other)
  qed simp
  then show "i < nat n \<Longrightarrow> ?thesis" by (simp add: put_head_def)
qed

lemma hdr_put_head:
  assumes "n = int (length hs)" "length hs < 2 ^ 31" "\<And>i. i < length hs \<Longrightarrow> blk i = int (hs ! i) \<and> hs ! i < 2 ^ 31"
  shows "heads (put_head n blk d) hs"
proof -
  have "sint (word_of_int n :: uint) = n"
    using iarg_small [OF assms(2)] by (simp add: iarg_def assms(1))
  moreover have "unat (word_of_int (blk i) :: uint) = hs ! i" if "i < length hs" for i
    using assms(3) [OF that] uarg_int [of "hs ! i"] by (simp add: uarg_def)
  ultimately show ?thesis
    by (auto intro!: nth_equalityI simp: heads_def hdr_def put_head_0 put_head_nth assms(1))
qed

section \<open>Sequences of block writes\<close>

text \<open>\<open>io_run s W t\<close>: from \<open>s\<close> to \<open>t\<close> the blocks of \<open>W\<close> are written, in this order, and nothing else happens.\<close>

definition upds :: "('a \<times> 'b) list \<Rightarrow> ('a \<Rightarrow> 'b) \<Rightarrow> 'a \<Rightarrow> 'b" where
  "upds W d = fold (\<lambda>(b, x) d. d(b := x)) W d"

lemma upds_simps [simp]: "upds [] d = d" "upds ((b, x) # W) d = upds W (d(b := x))" "upds (V @ W) d = upds W (upds V d)"
  by (simp_all add: upds_def)

lemma upds_other: "b \<notin> fst ` set W \<Longrightarrow> upds W d b = d b"
  by (induction W arbitrary: d) auto

lemma upds_nth:
  assumes "i < n" and "inj_on f {..<n}"
  shows "upds (map (\<lambda>i. (f i, g i)) [0..<n]) d (f i) = g i"
  using assms
proof (induction n)
  case (Suc n)
  show ?case
  proof (cases "i = n")
    case False
    then have "f n \<noteq> f i" "i < n" using Suc.prems by (auto dest: inj_onD)
    moreover have "inj_on f {..<n}" by (rule inj_on_subset [OF Suc.prems(2)]) auto
    ultimately show ?thesis using Suc.IH by simp
  qed simp
qed simp

definition io_run :: "'a kbio_scheme \<Rightarrow> (nat \<times> block) list \<Rightarrow> 'a kbio_scheme \<Rightarrow> bool" where
  "io_run s W t \<longleftrightarrow> bstate t Map.empty \<and> io_only s t \<and> disk t = upds W (disk s) \<and> bview t = upds W (bview s)
     \<and> (\<forall>b. bpinned t b \<longleftrightarrow> bpinned s b \<and> b \<notin> fst ` set W) \<and> dhist t = dhist s @ W"

lemma io_runD:
  assumes "io_run s W t"
  shows "bstate t Map.empty" "disk t = upds W (disk s)" "bview t = upds W (bview s)"
    "bpinned t b \<longleftrightarrow> bpinned s b \<and> b \<notin> fst ` set W" "dhist t = dhist s @ W"
    "disksize t = disksize s" "kbio.more t = kbio.more s" "held t = held s" "cpu_proc t = cpu_proc s" "mypid t = mypid s"
proof -
  have "io_only s t" using assms by (simp add: io_run_def)
  from io_onlyD [OF this] show "disksize t = disksize s" "kbio.more t = kbio.more s" "held t = held s"
    "cpu_proc t = cpu_proc s" "mypid t = mypid s" by simp_all
qed (use assms in \<open>unfold io_run_def, blast+\<close>)

lemma io_run_refl: "bstate s Map.empty \<Longrightarrow> io_run s [] s"
  by (simp add: io_run_def)

lemma io_run_trans: "io_run s V t \<Longrightarrow> io_run t W u \<Longrightarrow> io_run s (V @ W) u"
  using io_only_trans [of s t u] by (auto simp: io_run_def)

lemma copied_run: "copied s src dst t \<Longrightarrow> io_run s [(dst, bview s src)] t"
  by (auto simp: io_run_def)

lemma io_run_forK:
  assumes "bstate s Map.empty"
    and "\<And>k t. k < n \<Longrightarrow> io_run s (map w [0..<k]) t \<Longrightarrow> \<exists>u. body k t = Ret () u \<and> io_run t [w k] u"
  shows "\<exists>t. forK body [0..<n] s = Ret () t \<and> io_run s (map w [0..<n]) t"
  using assms(2)
proof (induction n)
  case 0
  then show ?case using io_run_refl [OF assms(1)] by simp
next
  case (Suc n)
  then obtain t where t: "forK body [0..<n] s = Ret () t" "io_run s (map w [0..<n]) t" by auto
  with Suc.prems [of n t] obtain u where "body n t = Ret () u" "io_run t [w n] u" by auto
  with t io_run_trans [OF t(2)] show ?case by (intro exI [of _ u]) (simp add: forK_append)
qed

lemma more_klog:
  assumes "kbio.more t = kbio.more s"
  shows "lh_n t = lh_n s" "lh_block t = lh_block s" "log_start t = log_start s" "log_dev t = log_dev s"
    "log_size t = log_size s" "log_outstanding t = log_outstanding s" "log_committing t = log_committing s"
  using assms by (cases s; cases t; simp)+

lemma bread_more:
  assumes "bread dev b s = Ret i t"
  shows "kbio.more t = kbio.more s"
proof -
  have acq: "kbio.more u = kbio.more (r :: 'a kbio_scheme)" if "acquiresleep l r = Ret () u" for l u r
    using that by (auto simp: acquiresleep_def acquiresleep_loop_def lock_iffs sleep_def sched_def myproc_def split: if_splits option.splits)
  have hold: "kbio.more u = kbio.more (r :: 'a kbio_scheme)" if "holdingsleep l r = Ret h u" for l u r h
    using that by (auto simp: holdingsleep_def lock_iffs myproc_def split: option.splits)
  have dev: "kbio.more u = kbio.more (r :: 'a kbio_scheme)" if "iderw k r = Ret () u" for k u r
    using that by (auto simp: iderw_def Let_def dest!: hold split: if_splits)
  have get: "kbio.more u = kbio.more s" if "bget dev b s = Ret k u" for k u
    using that by (auto simp: bget_def lock_iffs dest!: acq split: option.splits)
  show ?thesis using assms by (auto simp: bread_def dest!: get dev split: if_splits)
qed

lemma bindK_body_cong: "(\<And>a t. m = Ret a t \<Longrightarrow> F a t = G a t) \<Longrightarrow> bindK m F = bindK m G"
  by (cases m) simp_all

section \<open>Running the parts of a commit\<close>

text \<open>The log in memory lists the home blocks \<open>hs\<close>, and log and home blocks lie apart on the disk.\<close>

definition logged :: "'a klog_scheme \<Rightarrow> nat \<Rightarrow> nat list \<Rightarrow> bool" where
  "logged s L hs \<longleftrightarrow> log_dev s = 1 \<and> log_start s = int L \<and> lh_n s = int (length hs)
     \<and> (\<forall>i<length hs. lh_block s i = int (hs ! i))
     \<and> distinct hs \<and> length hs < NBUF \<and> L + LOGSIZE < disksize s \<and> disksize s < 2 ^ 31
     \<and> (\<forall>h\<in>set hs. h < disksize s \<and> (h < L \<or> L + LOGSIZE < h))"

lemma loggedD:
  assumes "logged s L hs"
  shows "log_dev s = 1" "log_start s = int L" "lh_n s = int (length hs)" "i < length hs \<Longrightarrow> lh_block s i = int (hs ! i)"
    "distinct hs" "length hs < NBUF" "L + LOGSIZE < disksize s" "disksize s < 2 ^ 31"
    "h \<in> set hs \<Longrightarrow> h < disksize s" "h \<in> set hs \<Longrightarrow> h < L \<or> L + LOGSIZE < h"
    "i < length hs \<Longrightarrow> L + 1 + i < disksize s \<and> hs ! i \<in> set hs \<and> hs ! i \<noteq> L + 1 + i" "L < 2 ^ 31"
proof -
  show "L + 1 + i < disksize s \<and> hs ! i \<in> set hs \<and> hs ! i \<noteq> L + 1 + i" if "i < length hs"
  proof -
    have "hs ! i \<in> set hs" using that by simp
    moreover then have "hs ! i < L \<or> L + LOGSIZE < hs ! i" using assms unfolding logged_def by blast
    moreover have "length hs < NBUF" "L + LOGSIZE < disksize s" using assms by (simp_all add: logged_def)
    ultimately show ?thesis using that by (auto simp: NBUF_def LOGSIZE_def MAXOPBLOCKS_def)
  qed
qed (use assms in \<open>auto simp: logged_def\<close>)

lemma logged_run: "io_run s W t \<Longrightarrow> logged t L hs = logged s L hs"
  using io_runD [of s W t] more_klog [of t s] by (simp add: logged_def)

lemma log_addr: "logged s L hs \<Longrightarrow> i < length hs \<Longrightarrow> uarg (log_start s + int i + 1) = L + 1 + i"
proof -
  assume a: "logged s L hs" "i < length hs"
  then have "log_start s + int i + 1 = int (L + 1 + i)" "L + 1 + i < 2 ^ 31"
    using loggedD(2,8) [OF a(1)] loggedD(11) [OF a] by auto
  then show ?thesis by (simp only: uarg_int)
qed

lemma log_home: "logged s L hs \<Longrightarrow> i < length hs \<Longrightarrow> uarg (lh_block s i) = hs ! i"
  using loggedD(4) [of s L hs i] loggedD(8) [of s L hs] loggedD(9) [of s L hs "hs ! i"] by simp

text \<open>The writes of a transaction: the log blocks, the header, the home blocks.\<close>

abbreviation log_writes :: "nat \<Rightarrow> nat list \<Rightarrow> (nat \<Rightarrow> block) \<Rightarrow> (nat \<times> block) list" where
  "log_writes L hs v \<equiv> map (\<lambda>i. (L + 1 + i, v (hs ! i))) [0..<length hs]"

abbreviation home_writes :: "nat \<Rightarrow> nat list \<Rightarrow> (nat \<Rightarrow> block) \<Rightarrow> (nat \<times> block) list" where
  "home_writes L hs v \<equiv> map (\<lambda>i. (hs ! i, v (L + 1 + i))) [0..<length hs]"

lemma pins_subset:
  assumes "Collect (bpinned s) \<subseteq> set hs" "length hs < NBUF"
  shows "finite (Collect (bpinned s))" "card (Collect (bpinned s)) < NBUF"
proof -
  show "finite (Collect (bpinned s))" using assms(1) by (rule finite_subset) simp
  have "card (Collect (bpinned s)) \<le> card (set hs)" by (rule card_mono) (use assms(1) in simp_all)
  then show "card (Collect (bpinned s)) < NBUF" using card_length [of hs] assms(2) by simp
qed

text \<open>Both loops read log block \<open>k\<close> and then home block \<open>k\<close>.\<close>

lemma bread_pair:
  assumes lt: "logged t L hs" and k: "k < length hs"
  shows "bindK (bread (log_dev t) (uarg (log_start t + int k + 1)) t) (\<lambda>i s. bindK (bread (log_dev s) (uarg (lh_block s k)) s) (F i)) =
      bindK (bread 1 (L + 1 + k) t) (\<lambda>i s. bindK (bread 1 (hs ! k) s) (F i))"
  unfolding log_addr [OF lt k] loggedD(1) [OF lt]
proof (rule bindK_body_cong)
  fix i u
  assume "bread 1 (L + 1 + k) t = Ret i u"
  from more_klog [OF bread_more [OF this]] show
    "bindK (bread (log_dev u) (uarg (lh_block u k)) u) (F i) = bindK (bread 1 (hs ! k) u) (F i)"
    by (simp add: log_home [OF lt k] loggedD(1) [OF lt])
qed

lemma write_log_run:
  assumes st: "bstate s Map.empty" and lg: "logged s L hs" and pin: "Collect (bpinned s) = set hs"
  shows "\<exists>t. write_log s = Ret () t \<and> io_run s (log_writes L hs (bview s)) t"
  unfolding write_log_def loggedD(3) [OF lg] nat_int
proof (rule io_run_forK [OF st])
  fix k t
  assume k: "k < length hs" and run: "io_run s (map (\<lambda>i. (L + 1 + i, bview s (hs ! i))) [0..<k]) t"
  note R = io_runD [OF run]
  have lt: "logged t L hs" using lg logged_run [OF run] by simp
  note K = loggedD(11) [OF lt k]
  have out: "hs ! k \<notin> fst ` set (map (\<lambda>i. (L + 1 + i, bview s (hs ! i))) [0..<k])"
    using loggedD(10) [OF lt, of "hs ! k"] K k loggedD(6) [OF lt] by (auto simp: NBUF_def LOGSIZE_def MAXOPBLOCKS_def)
  have "Collect (bpinned t) \<subseteq> set hs" using R(4) pin by auto
  note P = pins_subset [OF this loggedD(6) [OF lt]]
  have "bpinned t (hs ! k)" using R(4) [of "hs ! k"] out pin K by auto
  then have "room t (hs ! k)" using P by (simp add: room_def)
  note cp = copy_dst_src [OF R(1) loggedD(9) [OF lt conjunct1 [OF conjunct2 [OF K]]] conjunct1 [OF K] conjunct2 [OF conjunct2 [OF K]] this]
  have v: "bview t (hs ! k) = bview s (hs ! k)" by (simp only: R(3) upds_other [OF out])
  show "\<exists>u. bindK (bread (log_dev t) (uarg (log_start t + int k + 1)) t) (\<lambda>to s.
       bindK (bread (log_dev s) (uarg (lh_block s k)) s) (\<lambda>from s.
       bindK (bwrite to (upd_buf to (\<lambda>q. q\<lparr>b_data := b_data (bufs s from)\<rparr>) s)) (\<lambda>_ s.
       bindK (brelse from s) (\<lambda>_ s. brelse to s)))) = Ret () u
     \<and> io_run t [(L + 1 + k, bview s (hs ! k))] u"
    unfolding bread_pair [OF lt k] using cp copied_run [where s = t and src = "hs ! k" and dst = "L + 1 + k"] unfolding v by blast
qed

lemma install_run:
  assumes st: "bstate s Map.empty" and lg: "logged s L hs" and pin: "Collect (bpinned s) = set hs \<or> Collect (bpinned s) = {}"
  shows "\<exists>t. install_trans s = Ret () t \<and> io_run s (home_writes L hs (bview s)) t"
  unfolding install_trans_def loggedD(3) [OF lg] nat_int
proof (rule io_run_forK [OF st])
  fix k t
  assume k: "k < length hs" and run: "io_run s (map (\<lambda>i. (hs ! i, bview s (L + 1 + i))) [0..<k]) t"
  note R = io_runD [OF run]
  have lt: "logged t L hs" using lg logged_run [OF run] by simp
  note K = loggedD(11) [OF lt k]
  have out: "L + 1 + k \<notin> fst ` set (map (\<lambda>i. (hs ! i, bview s (L + 1 + i))) [0..<k])"
  proof
    assume "L + 1 + k \<in> fst ` set (map (\<lambda>i. (hs ! i, bview s (L + 1 + i))) [0..<k])"
    then obtain i where "i < k" "hs ! i = L + 1 + k" by auto
    moreover then have "hs ! i \<in> set hs" using k by (intro nth_mem) simp
    ultimately show False using loggedD(10) [OF lt, of "hs ! i"] loggedD(6) [OF lt] k by (auto simp: NBUF_def LOGSIZE_def MAXOPBLOCKS_def)
  qed
  have new: "hs ! k \<notin> fst ` set (map (\<lambda>i. (hs ! i, bview s (L + 1 + i))) [0..<k])"
    using loggedD(5) [OF lt] k by (auto simp: nth_eq_iff_index_eq)
  have "Collect (bpinned t) \<subseteq> set hs" using R(4) pin by auto
  note P = pins_subset [OF this loggedD(6) [OF lt]]
  have "room t (hs ! k)"
    using pin
  proof
    assume "Collect (bpinned s) = set hs"
    then have "bpinned t (hs ! k)" using R(4) [of "hs ! k"] new K by auto
    then show ?thesis using P by (simp add: room_def)
  next
    assume "Collect (bpinned s) = {}"
    then have "Collect (bpinned t) = {}" using R(4) by auto
    then show ?thesis unfolding room_def by (simp only: card.empty finite.emptyI) (simp add: NBUF_def)
  qed
  note cp = copy_src_dst [OF R(1) conjunct1 [OF K] loggedD(9) [OF lt conjunct1 [OF conjunct2 [OF K]]]
      conjunct2 [OF conjunct2 [OF K], symmetric] this]
  have v: "bview t (L + 1 + k) = bview s (L + 1 + k)" by (simp only: R(3) upds_other [OF out])
  show "\<exists>u. bindK (bread (log_dev t) (uarg (log_start t + int k + 1)) t) (\<lambda>lbuf s.
       bindK (bread (log_dev s) (uarg (lh_block s k)) s) (\<lambda>dbuf s.
       bindK (bwrite dbuf (upd_buf dbuf (\<lambda>q. q\<lparr>b_data := b_data (bufs s lbuf)\<rparr>) s)) (\<lambda>_ s.
       bindK (brelse lbuf s) (\<lambda>_ s. brelse dbuf s)))) = Ret () u
     \<and> io_run t [(hs ! k, bview s (L + 1 + k))] u"
    unfolding bread_pair [OF lt k]
    using cp copied_run [where s = t and src = "L + 1 + k" and dst = "hs ! k"] unfolding v by blast
qed

lemma write_head_run:
  assumes st: "bstate s Map.empty" and L: "log_dev s = 1" "log_start s = int L" "L < disksize s" "L < 2 ^ 31" "lh_n s \<le> int LOGSIZE"
    and pin: "finite (Collect (bpinned s))" "card (Collect (bpinned s)) < NBUF"
  shows "\<exists>t. write_head s = Ret () t \<and> io_run s [(L, put_head (lh_n s) (lh_block s) (bview s L))] t"
proof -
  have "write_head s = bindK (bread 1 L s) (\<lambda>i u. bindK (bwrite i (upd_buf i (\<lambda>q. q\<lparr>b_data := put_head (lh_n s) (lh_block s) (b_data q)\<rparr>) u))
      (\<lambda>_ u. brelse i u))"
    unfolding write_head_def L(1,2) uarg_int [OF L(4)]
    by (rule bindK_body_cong) (use L(5) in \<open>simp add: more_klog [OF bread_more]\<close>)
  moreover obtain t where "bindK (bread 1 L s) (\<lambda>i u. bindK (bwrite i (upd_buf i (\<lambda>q. q\<lparr>b_data := put_head (lh_n s) (lh_block s) (b_data q)\<rparr>) u))
      (\<lambda>_ u. brelse i u)) = Ret () t" "bstate t Map.empty \<and> io_only s t \<and> disk t = (disk s)(L := put_head (lh_n s) (lh_block s) (bview s L))
     \<and> bview t = (bview s)(L := put_head (lh_n s) (lh_block s) (bview s L)) \<and> bpinned t = (bpinned s)(L := False)
     \<and> dhist t = dhist s @ [(L, put_head (lh_n s) (lh_block s) (bview s L))]"
    using modify_block [OF st L(3) pin] by blast
  ultimately show ?thesis by (auto simp: io_run_def)
qed

text \<open>The header count in memory is not part of what the cache and the disk depend on.\<close>

lemma on_block_lh [simp]: "on_block (s\<lparr>lh_n := n\<rparr>) = on_block s"
  by (rule ext)+ (simp add: on_block_def)

lemma mypid_lh [simp]: "mypid (s\<lparr>lh_n := n\<rparr>) = mypid s"
  by (simp add: mypid_def split: option.split)

lemma cache_lh [simp]:
  "bstate (s\<lparr>lh_n := n\<rparr>) = bstate s" "bview (s\<lparr>lh_n := n\<rparr>) = bview s" "bpinned (s\<lparr>lh_n := n\<rparr>) = bpinned s"
  by (rule ext, simp add: bstate_def bcache_ok_def lru_def quiet_def bview_def bpinned_def split: option.split)+

lemma io_run_lh:
  assumes "io_run (s\<lparr>lh_n := n\<rparr>) W w"
  shows "io_run s W (w\<lparr>lh_n := lh_n s\<rparr>)" and "(w\<lparr>lh_n := lh_n s\<rparr>)\<lparr>lh_n := n\<rparr> = w"
proof -
  note W = io_runD [OF assms]
  have "io_only (s\<lparr>lh_n := n\<rparr>) w" using assms by (simp add: io_run_def)
  then have "io_only s (w\<lparr>lh_n := lh_n s\<rparr>)" by (simp add: io_only_def) (cases s; cases w; simp)
  then show "io_run s W (w\<lparr>lh_n := lh_n s\<rparr>)" using W(1-5) by (simp add: io_run_def)
  show "(w\<lparr>lh_n := lh_n s\<rparr>)\<lparr>lh_n := n\<rparr> = w" using more_klog(1) [OF W(7)] by simp
qed

text \<open>A commit performs the writes of the transaction in this order and then clears the header.\<close>

definition commit_writes :: "nat \<Rightarrow> nat list \<Rightarrow> (nat \<Rightarrow> block) \<Rightarrow> block \<Rightarrow> block \<Rightarrow> (nat \<times> block) list" where
  "commit_writes L hs v h0 h1 = log_writes L hs v @ [(L, h0)] @ map (\<lambda>h. (h, v h)) hs @ [(L, h1)]"

lemma log_writes_view:
  assumes lg: "logged s L hs"
  shows "h \<in> set hs \<or> h = L \<Longrightarrow> upds (log_writes L hs v) d h = d h"
    and "i < length hs \<Longrightarrow> upds (log_writes L hs v) d (L + 1 + i) = v (hs ! i)"
proof -
  show "upds (log_writes L hs v) d h = d h" if "h \<in> set hs \<or> h = L"
  proof (rule upds_other, rule notI)
    assume "h \<in> fst ` set (log_writes L hs v)"
    then obtain i where "i < length hs" "h = L + 1 + i" by auto
    then show False using that loggedD(10) [OF lg, of h] loggedD(6) [OF lg] by (auto simp: NBUF_def LOGSIZE_def MAXOPBLOCKS_def)
  qed
  show "i < length hs \<Longrightarrow> upds (log_writes L hs v) d (L + 1 + i) = v (hs ! i)"
    using upds_nth [of i "length hs" "\<lambda>i. L + 1 + i"] by (simp add: inj_on_def)
qed

lemma commit_run:
  assumes st: "bstate s Map.empty" and lg: "logged s L hs" and pin: "Collect (bpinned s) = set hs" and ne: "hs \<noteq> []"
  shows "\<exists>h0 h1 t. commit s = Ret () (t\<lparr>lh_n := 0\<rparr>) \<and> io_run s (commit_writes L hs (bview s) h0 h1) t \<and> heads h0 hs \<and> heads h1 []"
proof -
  note G = loggedD [OF lg]
  obtain t where t: "write_log s = Ret () t" "io_run s (log_writes L hs (bview s)) t"
    using write_log_run [OF st lg pin] by blast
  note T = io_runD [OF t(2)]
  have lt: "logged t L hs" using lg logged_run [OF t(2)] by simp
  have Ld: "L < disksize s" using G(7) by simp
  have out: "h \<notin> fst ` set (log_writes L hs (bview s))" if "h \<in> set hs" for h
    using G(10) [OF that] G(6) by (auto simp: NBUF_def LOGSIZE_def MAXOPBLOCKS_def)
  have pt: "Collect (bpinned t) = set hs" using T(4) pin out by auto
  note P = pins_subset [OF eq_refl [OF pt] G(6)]
  let ?h0 = "put_head (lh_n t) (lh_block t) (bview t L)"
  have n: "lh_n t \<le> int LOGSIZE" using loggedD(3,6) [OF lt] by (simp add: NBUF_def LOGSIZE_def MAXOPBLOCKS_def)
  obtain u where u: "write_head t = Ret () u" "io_run t [(L, ?h0)] u"
    using write_head_run [OF T(1) loggedD(1,2) [OF lt] _ loggedD(12) [OF lt] n P] Ld T(6) by auto
  note U = io_runD [OF u(2)]
  have lu: "logged u L hs" using lt logged_run [OF u(2)] by simp
  have pu: "Collect (bpinned u) = set hs" using U(4) pt G(10) by auto
  obtain v where v: "install_trans u = Ret () v" "io_run u (home_writes L hs (bview u)) v"
    using install_run [OF U(1) lu] pu by blast
  note V = io_runD [OF v(2)]
  have lv: "logged v L hs" using lu logged_run [OF v(2)] by simp
  have out': "L \<notin> fst ` set (home_writes L hs (bview u))" using G(10) by (auto simp: in_set_conv_nth) (metis G(10) less_irrefl not_add_less1 nth_mem)
  have homes: "fst ` set (home_writes L hs (bview u)) = set hs" by (force simp: in_set_conv_nth)
  have pv: "Collect (bpinned v) = {}" using V(4) pu homes by blast
  let ?v = "v\<lparr>lh_n := 0\<rparr>" and ?h1 = "put_head 0 (lh_block v) (bview v L)"
  obtain w where w: "write_head ?v = Ret () w" "io_run ?v [(L, ?h1)] w"
    using write_head_run [of ?v L] V(1,6) U(6) T(6) Ld pv loggedD(1,2,12) [OF lv] by (auto simp: NBUF_def)
  note X = io_run_lh [OF w(2)]
  have "bview u (L + 1 + i) = bview s (hs ! i)" if "i < length hs" for i
    using that by (simp add: U(3) T(3) log_writes_view(2) [OF lg, of i, simplified])
  then have "home_writes L hs (bview u) = map (\<lambda>i. (hs ! i, bview s (hs ! i))) [0..<length hs]" by (intro map_cong) auto
  also have "\<dots> = map (\<lambda>h. (h, bview s h)) hs" by (rule nth_equalityI) simp_all
  finally have "io_run s (commit_writes L hs (bview s) ?h0 ?h1) (w\<lparr>lh_n := lh_n v\<rparr>)"
    using io_run_trans [OF t(2) io_run_trans [OF u(2) io_run_trans [OF v(2) X(1)]]] by (simp add: commit_writes_def)
  moreover have "commit s = Ret () w" using ne G(3) t(1) u(1) v(1) w(1) by (simp add: commit_def)
  moreover have "hs ! i < 2 ^ 31" if "i < length hs" for i using loggedD(9) [OF lt nth_mem [OF that]] loggedD(8) [OF lt] by simp
  then have "heads ?h0 hs" by (intro hdr_put_head) (use loggedD(3,4,6) [OF lt] in \<open>auto simp: NBUF_def\<close>)
  moreover have "heads ?h1 []" by (rule hdr_put_head) simp_all
  ultimately show ?thesis using X(2) by (intro exI [of _ ?h0] exI [of _ ?h1] exI [of _ "w\<lparr>lh_n := lh_n v\<rparr>"]) simp
qed

section \<open>Recovery\<close>

text \<open>
  \<open>log_disk N L hs d\<close>: on a disk of \<open>N\<close> blocks with contents \<open>d\<close> the superblock puts the log at \<open>L\<close>,
  and the log header lists the home blocks \<open>hs\<close>, which lie outside the log and the superblock.
\<close>

definition home_ok :: "nat \<Rightarrow> nat \<Rightarrow> nat list \<Rightarrow> bool" where
  "home_ok N L hs \<longleftrightarrow> distinct hs \<and> length hs < NBUF \<and> (\<forall>h\<in>set hs. h < N \<and> (h < L \<or> L + LOGSIZE < h) \<and> h \<noteq> 1)"

definition log_disk :: "nat \<Rightarrow> nat \<Rightarrow> nat list \<Rightarrow> (nat \<Rightarrow> block) \<Rightarrow> bool" where
  "log_disk N L hs d \<longleftrightarrow> 1 < L \<and> L + LOGSIZE < N \<and> N < 2 ^ 31 \<and> sb_logstart (get_superblock (d 1)) = L
     \<and> heads (d L) hs \<and> home_ok N L hs"

text \<open>The kernel after \<open>binit\<close>: nothing is pinned, the cache agrees with the disk.\<close>

definition booted :: "'a klog_scheme \<Rightarrow> bool" where
  "booted s \<longleftrightarrow> bstate s Map.empty \<and> Collect (bpinned s) = {}"

lemma booted_view: "booted s \<Longrightarrow> bview s = disk s"
  using bview_clean [of s Map.empty] by (auto simp: booted_def)

lemma bstate_fields:
  fixes s :: "'a klog_scheme" and t :: "'b klog_scheme"
  assumes "kbio.truncate t = kbio.truncate s"
  shows "bstate t = bstate s" "bview t = bview s" "bpinned t = bpinned s" "mypid t = mypid s"
proof -
  have f: "held t = held s" "cpu_proc t = cpu_proc s" "procs t = procs s" "slocks t = slocks s" "disk t = disk s"
    "bufs t = bufs s" "bnext t = bnext s" "bprev t = bprev s"
    using assms by (cases s; cases t; simp add: kbio.truncate_def)+
  have o: "on_block t = on_block s" by (rule ext)+ (simp add: on_block_def f)
  show "mypid t = mypid s" unfolding mypid_def f ..
  then show "bstate t = bstate s" "bview t = bview s" "bpinned t = bpinned s"
    by (intro ext; simp only: bstate_def bcache_ok_def lru_def quiet_def bview_def bpinned_def o f)+
qed

lemma bread_ready:
  assumes st: "bstate s Map.empty" and pin: "Collect (bpinned s) = {}" and b: "b < disksize s"
  obtains i t where "bread 1 b s = Ret i t" and "bstate t (Map.empty(b \<mapsto> i))" and "bview t = bview s" and "bpinned t = bpinned s"
    and "cache_only s t" and "b_data (bufs t i) = bview s b"
proof -
  have "bidle s \<noteq> {}" by (rule bidle_exists [OF st]) (simp_all only: pin, simp_all add: NBUF_def)
  then have av: "bcached s b \<or> bidle s \<noteq> {}" by simp
  have nd: "b \<notin> dom Map.empty" by simp
  show thesis by (rule bread_ex [OF st b nd av]) (rule that)
qed

lemma brelse_ready:
  assumes st: "bstate t (Map.empty(b \<mapsto> i))" and v: "bview t = disk t"
  obtains u where "brelse i t = Ret () u" and "bstate u Map.empty" and "bview u = bview t" and "bpinned u = bpinned t" and "cache_only t u"
proof -
  have H: "(Map.empty(b \<mapsto> i)) b = Some i" and w: "bpinned t b \<or> disk t b = bview t b" using v by simp_all
  have e: "(Map.empty(b \<mapsto> i))(b := None) = Map.empty" by auto
  show thesis by (rule brelse_rule [OF st H w, unfolded e]) (rule that)
qed

lemma cache_only_booted: "cache_only s t \<Longrightarrow> bview t = bview s \<Longrightarrow> booted s \<Longrightarrow> bview t = disk t"
  using booted_view [of s] cache_onlyD(1) [of s t] by simp

lemma readsb_run:
  assumes bt: "booted s" and b: "1 < disksize s"
  obtains u where "readsb 1 s = Ret (get_superblock (disk s 1)) u" and "booted u" and "cache_only s u"
proof -
  have st: "bstate s Map.empty" "Collect (bpinned s) = {}" using bt by (simp_all add: booted_def)
  obtain i t where t: "bread 1 1 s = Ret i t" "bstate t (Map.empty(1 \<mapsto> i))" "bview t = bview s" "bpinned t = bpinned s"
    "cache_only s t" "b_data (bufs t i) = bview s 1" by (rule bread_ready [OF st b])
  obtain u where u: "brelse i t = Ret () u" "bstate u Map.empty" "bview u = bview t" "bpinned u = bpinned t" "cache_only t u"
    by (rule brelse_ready [OF t(2) cache_only_booted [OF t(5,3) bt]])
  have "readsb 1 s = Ret (get_superblock (disk s 1)) u"
    using t(1) u(1) by (simp add: readsb_def t(6) booted_view [OF bt])
  then show thesis using u(2) st(2) by (intro that [OF _ _ cache_only_trans [OF t(5) u(5)]]) (simp_all add: booted_def u(4) t(4))
qed

lemma read_head_run:
  assumes bt: "booted s" and L: "log_dev s = 1" "log_start s = int L" "L < disksize s" "L < 2 ^ 31"
    and hd: "heads (disk s L) hs" "length hs \<le> LOGSIZE"
  obtains u where "read_head s = Ret () u" and "booted u" and "lh_n u = int (length hs)"
    and "\<And>i. i < length hs \<Longrightarrow> lh_block u i = iarg (hs ! i)" and "disk u = disk s" and "dhist u = dhist s" and "disksize u = disksize s"
    and "log_dev u = log_dev s" and "log_start u = log_start s" and "log_size u = log_size s"
proof -
  have st: "bstate s Map.empty" "Collect (bpinned s) = {}" using bt by (simp_all add: booted_def)
  obtain i t where t: "bread 1 L s = Ret i t" "bstate t (Map.empty(L \<mapsto> i))" "bview t = bview s" "bpinned t = bpinned s"
    "cache_only s t" "b_data (bufs t i) = bview s L" by (rule bread_ready [OF st L(3)])
  note F = more_klog [OF bread_more [OF t(1)]] cache_onlyD [OF t(5)]
  let ?n = "sint (getw (disk s L) 0)"
  let ?t = "t\<lparr>lh_n := ?n, lh_block := (\<lambda>i. if int i < ?n then sint (getw (disk s L) (4 + 4 * i)) else lh_block t i)\<rparr>"
  have tr: "kbio.truncate ?t = kbio.truncate t" by (simp add: kbio.truncate_def)
  note B = bstate_fields [OF tr]
  have v: "bview ?t = disk ?t" using booted_view [OF bt] by (simp add: B t(3) F)
  have s': "bstate ?t (Map.empty(L \<mapsto> i))" using t(2) unfolding B(1) .
  obtain u where u: "brelse i ?t = Ret () u" "bstate u Map.empty" "bview u = bview ?t" "bpinned u = bpinned ?t" "cache_only ?t u"
    by (rule brelse_ready [OF s' v])
  have m: "kbio.more u = kbio.more ?t" using u(5) by (cases u; cases t) (simp add: cache_only_def)
  note G = more_klog [OF m] cache_onlyD [OF u(5)]
  have h: "?n = int (length hs)" "hdr (disk s L) = hs" using hd by (simp_all add: heads_def)
  have "sint (getw (disk s L) (4 + 4 * i)) = iarg (hs ! i)" if "i < length hs" for i
  proof -
    have "hdr (disk s L) ! i = unat (getw (disk s L) (4 + 4 * i))" using that by (simp add: hdr_def h(1))
    then show ?thesis by (simp add: h(2) iarg_def)
  qed
  moreover have "read_head s = Ret () u"
    unfolding read_head_def L uarg_int [OF L(4)] t(1,6) bindK.simps Let_def booted_view [OF bt]
    using u(1) h(1) hd(2) by simp
  moreover have "booted u" using u(2) st(2) by (simp add: booted_def u(4) B t(4))
  ultimately show thesis using h(1) by (intro that [of u]) (simp_all add: G F)
qed

lemma initlog_run:
  assumes bt: "booted s" and ld: "log_disk (disksize s) L hs (disk s)"
  shows "\<exists>t h1. initlog 1 s = Ret () t \<and> booted t \<and> disk t = upds (home_writes L hs (disk s) @ [(L, h1)]) (disk s)
     \<and> dhist t = dhist s @ home_writes L hs (disk s) @ [(L, h1)] \<and> heads h1 [] \<and> log_dev t = 1 \<and> log_start t = int L
     \<and> log_size t = iarg (sb_nlog (get_superblock (disk s 1))) \<and> lh_n t = 0 \<and> disksize t = disksize s"
proof -
  have D: "1 < L" "L + LOGSIZE < disksize s" "disksize s < 2 ^ 31" "sb_logstart (get_superblock (disk s 1)) = L"
    "heads (disk s L) hs" "home_ok (disksize s) L hs" using ld by (simp_all add: log_disk_def)
  have h: "held s = []" using bt by (simp add: booted_def bstate_def quiet_def)
  obtain u where u: "readsb 1 s = Ret (get_superblock (disk s 1)) u" "booted u" "cache_only s u"
    by (rule readsb_run [OF bt]) (use D in auto)
  let ?u = "u\<lparr>log_start := iarg (sb_logstart (get_superblock (disk s 1))), log_size := iarg (sb_nlog (get_superblock (disk s 1))), log_dev := 1\<rparr>"
  note B = bstate_fields [of ?u u, simplified kbio.truncate_def, simplified]
  note U = cache_onlyD [OF u(3)]
  have bu: "booted ?u" using u(2) by (simp add: booted_def B)
  have L: "log_start ?u = int L" "L < 2 ^ 31" "L < disksize ?u" using D iarg_small [of L] U by auto
  have n: "length hs \<le> LOGSIZE" using D(6) by (simp add: home_ok_def NBUF_def LOGSIZE_def MAXOPBLOCKS_def)
  obtain v where v: "read_head ?u = Ret () v" "booted v" "lh_n v = int (length hs)"
    "\<And>i. i < length hs \<Longrightarrow> lh_block v i = iarg (hs ! i)" "disk v = disk ?u" "dhist v = dhist ?u" "disksize v = disksize ?u"
    "log_dev v = log_dev ?u" "log_start v = log_start ?u" "log_size v = log_size ?u"
    by (rule read_head_run [OF bu _ L(1,3,2) _ n]) (use D(5) U in auto)
  have "h < 2 ^ 31" if "h \<in> set hs" for h using D(3,6) that by (force simp: home_ok_def)
  then have lv: "logged v L hs" using v D L by (auto simp: logged_def home_ok_def U iarg_small)
  have bv: "bstate v Map.empty" "Collect (bpinned v) = {}" "bview v = disk s"
    using v(2,5) booted_view [OF v(2)] U by (simp_all add: booted_def)
  obtain w where w: "install_trans v = Ret () w" "io_run v (home_writes L hs (disk s)) w"
    using install_run [OF bv(1) lv] bv(2,3) by auto
  note W = io_runD [OF w(2)]
  have pw: "Collect (bpinned w) = {}" using W(4) bv(2) by auto
  have lw: "logged w L hs" using lv logged_run [OF w(2)] by simp
  let ?w = "w\<lparr>lh_n := 0\<rparr>" and ?h1 = "put_head 0 (lh_block w) (bview w L)"
  obtain x where x: "write_head ?w = Ret () x" "io_run ?w [(L, ?h1)] x"
    using write_head_run [of ?w L] W(1,6) pw loggedD(1,2,7,12) [OF lw] v(7) by (auto simp: NBUF_def)
  note X = io_runD [OF x(2)] and M = more_klog [OF io_runD(7) [OF w(2)]]
  have "initlog 1 s = Ret () x"
    using u(1) v(1) w(1) x(1) h by (simp add: initlog_def initlock_def recover_from_log_def held_same LOGSIZE_def MAXOPBLOCKS_def BSIZE_def)
  moreover have "booted x" using X(1,4) pw by (auto simp: booted_def)
  moreover have "heads ?h1 []" by (rule hdr_put_head) simp_all
  ultimately show ?thesis
    using X(2,5,6) W(2,5,6) v U L more_klog [OF X(7)] by (intro exI [of _ x] exI [of _ ?h1]) (simp add: M)
qed

section \<open>What the disk means\<close>

text \<open>
  The logical contents of the disk: a block listed in the log header is read from the log, every other block from its
  own place. A block \<open>off_log\<close> is one the file system uses.
\<close>

definition log_abs :: "nat \<Rightarrow> (nat \<Rightarrow> block) \<Rightarrow> nat \<Rightarrow> block" where
  "log_abs L d b =
     (case map_of (zip (hdr (d L)) [L + 1..<L + 1 + length (hdr (d L))]) b of Some j \<Rightarrow> d j | None \<Rightarrow> d b)"

definition off_log :: "nat \<Rightarrow> nat \<Rightarrow> bool" where
  "off_log L b \<longleftrightarrow> b < L \<or> L + LOGSIZE < b"

lemma log_abs_home: "heads (d L) hs \<Longrightarrow> distinct hs \<Longrightarrow> i < length hs \<Longrightarrow> log_abs L d (hs ! i) = d (L + 1 + i)"
  by (simp add: log_abs_def heads_def map_of_zip_nth del: upt_Suc)

lemma log_abs_other: "heads (d L) hs \<Longrightarrow> b \<notin> set hs \<Longrightarrow> log_abs L d b = d b"
  by (simp add: log_abs_def heads_def map_of_zip_is_None [THEN iffD2])

lemma log_diskD:
  assumes "log_disk N L hs d"
  shows "heads (d L) hs" "distinct hs" "h \<in> set hs \<Longrightarrow> off_log L h \<and> h \<noteq> 1" "off_log L 1" "i < length hs \<Longrightarrow> \<not> off_log L (L + 1 + i)"
    "\<not> off_log L L"
  using assms by (auto simp: log_disk_def home_ok_def off_log_def LOGSIZE_def MAXOPBLOCKS_def NBUF_def)

lemma log_disk_step:
  assumes "log_disk N L hs d" and "d' 1 = d 1" and "heads (d' L) hs'" and "home_ok N L hs'"
  shows "log_disk N L hs' d'"
  using assms by (simp add: log_disk_def)

lemma home_prefix:
  assumes ld: "log_disk N L hs d" and k: "k \<le> length hs" and d': "d' = upds (map (\<lambda>i. (hs ! i, d (L + 1 + i))) [0..<k]) d"
  shows "d' L = d L" "d' 1 = d 1" "j < length hs \<Longrightarrow> d' (L + 1 + j) = d (L + 1 + j)" "b \<notin> set hs \<Longrightarrow> d' b = d b"
    "j < k \<Longrightarrow> d' (hs ! j) = d (L + 1 + j)"
proof -
  note D = log_diskD [OF ld]
  show oth: "d' b = d b" if "b \<notin> set hs" for b
    unfolding d'
  proof (rule upds_other, rule notI)
    assume "b \<in> fst ` set (map (\<lambda>i. (hs ! i, d (L + 1 + i))) [0..<k])"
    then obtain i where "i < k" "b = hs ! i" by auto
    then show False using that k nth_mem [of i hs] by simp
  qed
  show "d' L = d L" "d' 1 = d 1" using D(3,6) oth by blast+
  show "d' (L + 1 + j) = d (L + 1 + j)" if "j < length hs" using D(3) D(5) [OF that] oth by blast
  have inj: "inj_on (\<lambda>i. hs ! i) {..<k}" using D(2) k by (auto simp: inj_on_def nth_eq_iff_index_eq)
  show "d' (hs ! j) = d (L + 1 + j)" if "j < k"
    using upds_nth [OF that inj] by (simp add: d')
qed

lemma recovery_prefix:
  assumes ld: "log_disk N L hs d" and h1: "heads h1 []" and k: "k \<le> length hs + 1"
    and d': "d' = upds (take k (home_writes L hs d @ [(L, h1)])) d"
  shows "\<exists>hs'. log_disk N L hs' d'" and "off_log L b \<Longrightarrow> log_abs L d' b = log_abs L d b"
    and "k = length hs + 1 \<Longrightarrow> log_disk N L [] d' \<and> (off_log L b \<longrightarrow> d' b = log_abs L d b)"
proof -
  note D = log_diskD [OF ld]
  have part: "log_disk N L hs d'" "\<And>b. off_log L b \<Longrightarrow> log_abs L d' b = log_abs L d b" if "k \<le> length hs"
  proof -
    have "d' = upds (map (\<lambda>i. (hs ! i, d (L + 1 + i))) [0..<k]) d" using that by (simp add: d' take_map)
    note P = home_prefix [OF ld that this]
    have hd: "heads (d' L) hs" using D(1) P(1) by simp
    show "log_disk N L hs d'" by (rule log_disk_step [OF ld P(2) hd]) (use ld in \<open>simp add: log_disk_def\<close>)
    show "log_abs L d' b = log_abs L d b" for b
    proof (cases "b \<in> set hs")
      case True
      then obtain i where i: "i < length hs" "b = hs ! i" by (auto simp: in_set_conv_nth)
      then show ?thesis using log_abs_home [of d' L hs i] log_abs_home [of d L hs i] hd D(1,2) P(3) [OF i(1)] by simp
    next
      case False
      then show ?thesis using log_abs_other [of d' L hs b] log_abs_other [of d L hs b] hd D(1) P(4) by simp
    qed
  qed
  have full: "log_disk N L [] d'" "\<And>b. off_log L b \<Longrightarrow> d' b = log_abs L d b" if k': "k = length hs + 1"
  proof -
    define d1 where "d1 = upds (map (\<lambda>i. (hs ! i, d (L + 1 + i))) [0..<length hs]) d"
    have d1': "d' = d1(L := h1)" by (simp add: d' k' d1_def)
    note P = home_prefix [OF ld order_refl d1_def]
    show "log_disk N L [] d'" by (rule log_disk_step [OF ld]) (use P(2) h1 D(4) D(6) in \<open>auto simp: d1' home_ok_def NBUF_def\<close>)
    show "d' b = log_abs L d b" if b: "off_log L b" for b
    proof (cases "b \<in> set hs")
      case True
      then obtain i where i: "i < length hs" "b = hs ! i" by (auto simp: in_set_conv_nth)
      then show ?thesis using log_abs_home [of d L hs i] D P(5) [of i] b d1' by auto
    next
      case False
      then show ?thesis using log_abs_other [of d L hs b] D P(4) b d1' by auto
    qed
  qed
  show "\<exists>hs'. log_disk N L hs' d'" using part(1) full(1) k by (cases "k \<le> length hs") auto
  show "off_log L b \<Longrightarrow> log_abs L d' b = log_abs L d b"
    using part(2) full(2) log_abs_other [of d' L "[]" b] log_diskD(1) [OF full(1)] k by (cases "k \<le> length hs") auto
  show "k = length hs + 1 \<Longrightarrow> log_disk N L [] d' \<and> (off_log L b \<longrightarrow> d' b = log_abs L d b)" using full by blast
qed

lemma commit_prefix:
  assumes ld: "log_disk N L [] d" and hok: "home_ok N L hs" and lg: "logged s L hs" and h: "heads h0 hs" "heads h1 []"
    and k: "k \<le> length (commit_writes L hs v h0 h1)" and d': "d' = upds (take k (commit_writes L hs v h0 h1)) d"
  shows "\<exists>hs'. log_disk N L hs' d'" and "off_log L b \<Longrightarrow> log_abs L d' b = (if k \<le> length hs \<or> b \<notin> set hs then d b else v b)"
proof -
  note D = log_diskD [OF ld]
  let ?W = "log_writes L hs v"
  have reg: "b \<notin> fst ` set ?W" if "off_log L b \<or> b = L" for b
    using that loggedD(6) [OF lg] by (auto simp: off_log_def LOGSIZE_def MAXOPBLOCKS_def NBUF_def)
  show "\<exists>hs'. log_disk N L hs' d'" and "off_log L b \<Longrightarrow> log_abs L d' b = (if k \<le> length hs \<or> b \<notin> set hs then d b else v b)"
  proof (atomize (full), cases "k \<le> length hs")
    case True
    then have "d' = upds (take k ?W) d" by (simp add: d' commit_writes_def)
    moreover have "b \<notin> fst ` set (take k ?W)" if "off_log L b \<or> b = L" for b
      using reg [OF that] set_take_subset [of k ?W] by blast
    ultimately have o: "d' b = d b" if "off_log L b \<or> b = L" for b
      using upds_other [of b "take k ?W" d] that by blast
    then have "log_disk N L [] d'" using log_disk_step [OF ld, of d' "[]"] D(1,4) by (simp add: home_ok_def NBUF_def)
    moreover have "log_abs L d' b = d b" if "off_log L b" using log_abs_other [of d' L "[]" b] D(1) o that by simp
    ultimately show "(\<exists>hs'. log_disk N L hs' d') \<and> (off_log L b \<longrightarrow> log_abs L d' b = (if k \<le> length hs \<or> b \<notin> set hs then d b else v b))"
      using True by auto
  next
    case False
    define d1 where "d1 = upds (?W @ [(L, h0)]) d"
    have o: "d1 b = d b" if "off_log L b" for b
      using upds_other [of b ?W] reg [of b] D(6) that by (auto simp: d1_def)
    have l: "d1 (L + 1 + i) = v (hs ! i)" if "i < length hs" for i
      using log_writes_view(2) [OF lg that] by (simp add: d1_def)
    have ld1: "log_disk N L hs d1"
      by (rule log_disk_step [OF ld _ _ hok]) (use o D(4) h(1) in \<open>simp_all add: d1_def\<close>)
    note D1 = log_diskD [OF ld1]
    have "home_writes L hs d1 = map (\<lambda>i. (hs ! i, v (hs ! i))) [0..<length hs]" using l by (intro map_cong) auto
    also have "\<dots> = map (\<lambda>h. (h, v h)) hs" by (rule nth_equalityI) simp_all
    finally have hw: "map (\<lambda>h. (h, v h)) hs = home_writes L hs d1" by simp
    let ?j = "k - (length hs + 1)"
    have "take k (commit_writes L hs v h0 h1) = (?W @ [(L, h0)]) @ take ?j (home_writes L hs d1 @ [(L, h1)])"
    proof -
      obtain j where "k = Suc (length hs + j)" using False by (auto simp: not_le less_iff_Suc_add)
      then show ?thesis unfolding commit_writes_def hw by simp
    qed
    then have dd: "d' = upds (take ?j (home_writes L hs d1 @ [(L, h1)])) d1" by (simp add: d' d1_def)
    have j: "?j \<le> length hs + 1" using k by (simp add: commit_writes_def)
    have "log_abs L d1 b = (if b \<in> set hs then v b else d b)" if "off_log L b"
    proof (cases "b \<in> set hs")
      case True
      then obtain i where "i < length hs" "b = hs ! i" by (auto simp: in_set_conv_nth)
      then show ?thesis using log_abs_home [of d1 L hs i] D1(1,2) l [of i] True by simp
    qed (use log_abs_other [of d1 L hs b] D1(1) o that in simp)
    then show "(\<exists>hs'. log_disk N L hs' d') \<and> (off_log L b \<longrightarrow> log_abs L d' b = (if k \<le> length hs \<or> b \<notin> set hs then d b else v b))"
      using recovery_prefix(1,2) [OF ld1 h(2) j dd] False by auto
  qed
qed

section \<open>Crashes\<close>

text \<open>
  \<open>reboots N d e\<close>: starting from a disk of \<open>N\<close> blocks with contents \<open>d\<close> the machine is booted any number of
  times, and each time it stops after some of the writes of \<open>initlog\<close>; the disk then holds \<open>e\<close>.
\<close>

inductive reboots :: "nat \<Rightarrow> (nat \<Rightarrow> block) \<Rightarrow> (nat \<Rightarrow> block) \<Rightarrow> bool" for N :: nat where
  reboots_refl: "reboots N d d"
| reboots_step: "reboots N d e \<Longrightarrow> booted (r :: klog) \<Longrightarrow> disk r = e \<Longrightarrow> disksize r = N \<Longrightarrow>
    initlog 1 r = Ret () t \<Longrightarrow> dhist t = dhist r @ W \<Longrightarrow> reboots N d (upds (take k W) e)"

lemma reboots_abs:
  assumes "reboots N d e" and "log_disk N L hs d"
  shows "(\<exists>hs'. log_disk N L hs' e) \<and> (\<forall>b. off_log L b \<longrightarrow> log_abs L e b = log_abs L d b)"
  using assms
proof (induction rule: reboots.induct)
  case (reboots_step d e r t W k)
  then obtain hs' where ld: "log_disk (disksize r) L hs' (disk r)" by auto
  from initlog_run [OF reboots_step.hyps(2) this] obtain h1 where
    h1: "W = home_writes L hs' (disk r) @ [(L, h1)]" "heads h1 []" using reboots_step.hyps(5,6) by auto
  let ?k = "min k (length hs' + 1)"
  have "take k W = take ?k W" using h1(1) by (cases "k \<le> length hs' + 1") (simp_all add: min_def)
  then have eq: "upds (take k W) e = upds (take ?k (home_writes L hs' (disk r) @ [(L, h1)])) (disk r)"
    using h1(1) reboots_step.hyps(3) by simp
  show ?case
    using recovery_prefix(1,2) [OF ld h1(2) _ eq] reboots_step.IH [OF reboots_step.prems] reboots_step.hyps(3,4) by auto
qed auto

text \<open>A transaction is complete in memory: its blocks are pinned in the cache, and the log on disk is empty.\<close>

definition log_ready :: "'a klog_scheme \<Rightarrow> nat \<Rightarrow> nat list \<Rightarrow> bool" where
  "log_ready s L hs \<longleftrightarrow> bstate s Map.empty \<and> logged s L hs \<and> Collect (bpinned s) = set hs
     \<and> log_disk (disksize s) L [] (disk s) \<and> 1 \<notin> set hs"

lemma log_readyD:
  assumes "log_ready s L hs"
  shows "bstate s Map.empty" "logged s L hs" "Collect (bpinned s) = set hs" "log_disk (disksize s) L [] (disk s)"
    "home_ok (disksize s) L hs" "b \<notin> set hs \<Longrightarrow> bview s b = disk s b"
proof -
  show st: "bstate s Map.empty" "logged s L hs" "Collect (bpinned s) = set hs" "log_disk (disksize s) L [] (disk s)"
    using assms by (simp_all add: log_ready_def)
  show "home_ok (disksize s) L hs"
    using assms loggedD(5,6,9,10) [OF st(2)] by (auto simp: home_ok_def log_ready_def)
  show "bview s b = disk s b" if "b \<notin> set hs" using bview_clean [OF st(1), of b] st(3) that by auto
qed

lemma commit_done:
  assumes "log_ready s L hs" and "hs \<noteq> []"
  obtains t h0 h1 where "commit s = Ret () (t\<lparr>lh_n := 0\<rparr>)" and "io_run s (commit_writes L hs (bview s) h0 h1) t"
    and "heads h0 hs" and "heads h1 []" and "log_ready (t\<lparr>lh_n := 0\<rparr>) L []"
    and "\<forall>b. off_log L b \<longrightarrow> disk t b = bview s b"
proof -
  note R = log_readyD [OF assms(1)]
  obtain h0 h1 t where t: "commit s = Ret () (t\<lparr>lh_n := 0\<rparr>)" "io_run s (commit_writes L hs (bview s) h0 h1) t" "heads h0 hs" "heads h1 []"
    using commit_run [OF R(1-3) assms(2)] by blast
  note T = io_runD [OF t(2)] and M = more_klog [OF io_runD(7) [OF t(2)]]
  let ?W = "commit_writes L hs (bview s) h0 h1"
  have dt: "disk t = upds (take (length ?W) ?W) (disk s)" by (simp add: T(2))
  note P = commit_prefix [OF R(4,5,2) t(3,4) order_refl dt]
  have hL: "heads (disk t L) []" using t(4) by (simp add: T(2) commit_writes_def)
  have n: "\<not> length ?W \<le> length hs" by (simp add: commit_writes_def)
  have d: "disk t b = bview s b" if "off_log L b" for b
    using P(2) [OF that] log_abs_other [of "disk t" L "[]" b] hL n R(6) [of b] by (auto split: if_splits)
  have "set hs \<subseteq> fst ` set ?W" by (force simp: commit_writes_def)
  then have "Collect (bpinned t) = {}" using T(4) R(3) by blast
  moreover have "off_log L 1" "1 \<notin> set hs" using log_diskD(4) [OF R(4)] R(5) by (auto simp: home_ok_def)
  then have "disk t 1 = disk s 1" using d R(6) by simp
  then have "log_disk (disksize s) L [] (disk t)"
    by (rule log_disk_step [where d' = "disk t", OF R(4) _ hL]) (simp add: home_ok_def NBUF_def)
  ultimately have "log_ready (t\<lparr>lh_n := 0\<rparr>) L []"
    using R(2) T(1,6) M by (simp add: log_ready_def logged_def NBUF_def)
  then show thesis using that [OF t] d by blast
qed

section \<open>Taking part in a transaction\<close>

lemma bpin_rule:
  assumes st: "bstate s H" and i: "H b = Some i"
  defines "t \<equiv> upd_buf i (\<lambda>q. q\<lparr>b_dirty := True\<rparr>) s"
  shows "bstate t H" and "bview t = bview s" and "bpinned t = (bpinned s)(b := True)"
proof -
  note S = bstateD [OF st]
  have O: "on_block t = on_block s" by (rule ext)+ (auto simp: on_block_def t_def)
  have Q: "b_refcnt (bufs t j) = b_refcnt (bufs s j)" "b_valid (bufs t j) = b_valid (bufs s j)"
    "b_dirty (bufs t j) = (j = i \<or> b_dirty (bufs s j))" "b_dev (bufs t j) = b_dev (bufs s j)"
    "b_data (bufs t j) = b_data (bufs s j)" for j by (auto simp: t_def)
  have F: "disk t = disk s" "slocks t = slocks s" "bnext t = bnext s" "bprev t = bprev s" "mypid t = mypid s"
    "quiet t = quiet s" by (simp_all add: t_def)
  have i': "on_block s b i" "b_refcnt (bufs s i) = 1" using S(3,4) [OF i] by simp_all
  have "bcache_ok t"
    unfolding bcache_ok_def O Q F lru_def
  proof (intro conjI allI impI)
    show "b_dev (bufs s j) = 1" if "j < NBUF" "j = i \<or> b_dirty (bufs s j)" for j
      using that i'(1) bcache_okD(6) [OF S(1), of j] by (auto simp: on_block_def)
    show "b_data (bufs s j) = disk s c" if "on_block s c j" "b_refcnt (bufs s j) = 0" "\<not> (j = i \<or> b_dirty (bufs s j))" for c j
      using that bcache_okD(4) [OF S(1), of c j] by simp
    show "\<exists>xs. ring (bnext s) (bprev s) xs \<and> set xs = {..<NBUF}" using bcache_okD(1) [OF S(1)] by (simp add: lru_def)
    show "k = j" if "on_block s c k" "on_block s c j" for c k j by (rule bcache_okD(2) [OF S(1) that])
    show "b_valid (bufs s j)" if "on_block s c j" for c j by (rule bcache_okD(3) [OF S(1) that])
    show "\<not> sl_locked (slocks s (BufSL j))" if "j < NBUF" "b_refcnt (bufs s j) = 0" for j by (rule bcache_okD(5) [OF S(1) that])
  qed
  then show "bstate t H" using S unfolding bstate_def O Q F by blast
  show "bview t = bview s" by (rule ext) (simp only: bview_def O Q F)
  have eq: "j = i \<longleftrightarrow> c = b" if "on_block s c j" for c j
    using that i'(1) bcache_okD(2) [OF S(1), of b i j] by (auto simp: on_block_def)
  have "bpinned t c = ((bpinned s)(b := True)) c" for c
  proof (cases "c = b")
    case False
    then have "\<not> on_block s c i" using eq by blast
    then have "(\<exists>j. on_block s c j \<and> (j = i \<or> b_dirty (bufs s j))) \<longleftrightarrow> (\<exists>j. on_block s c j \<and> b_dirty (bufs s j))" by blast
    then show ?thesis using False by (simp add: bpinned_def O Q)
  qed (use i'(1) in \<open>auto simp: bpinned_def O Q\<close>)
  then show "bpinned t = (bpinned s)(b := True)" by auto
qed

text \<open>A transaction in progress, with the buffers of \<open>H\<close> held and the blocks of \<open>hs\<close> logged so far.\<close>

definition in_trans :: "'a klog_scheme \<Rightarrow> (nat \<rightharpoonup> nat) \<Rightarrow> nat \<Rightarrow> nat list \<Rightarrow> bool" where
  "in_trans s H L hs \<longleftrightarrow> bstate s H \<and> logged s L hs \<and> Collect (bpinned s) = set hs
     \<and> log_disk (disksize s) L [] (disk s) \<and> 1 \<notin> set hs"

lemma in_trans_ready: "in_trans s Map.empty L hs = log_ready s L hs"
  by (simp add: in_trans_def log_ready_def)

lemma log_index_logged:
  assumes lg: "logged s L hs" and b: "b < 2 ^ 31"
  shows "b \<in> set hs \<Longrightarrow> log_index s b < length hs \<and> hs ! log_index s b = b" and "b \<notin> set hs \<Longrightarrow> log_index s b = length hs"
proof -
  have sc: "scan (\<lambda>i. uarg (lh_block s i) = b) (length hs) = scan (\<lambda>i. hs ! i = b) (length hs)"
    by (rule scan_cong) (simp add: log_home [OF lg])
  have n: "nat (lh_n s) = length hs" using loggedD(3) [OF lg] by simp
  show "log_index s b < length hs \<and> hs ! log_index s b = b" if bm: "b \<in> set hs"
  proof -
    obtain j where "j < length hs" "hs ! j = b" using bm by (auto simp: in_set_conv_nth)
    then obtain i where i: "scan (\<lambda>i. hs ! i = b) (length hs) = Some i" using scan_ex [where P = "\<lambda>i. hs ! i = b"] by blast
    then show ?thesis using scan_SomeD [OF i] by (simp add: log_index_def n sc)
  qed
  show "log_index s b = length hs" if "b \<notin> set hs"
  proof -
    have "scan (\<lambda>i. hs ! i = b) (length hs) = None" using that by (auto simp: scan_None_iff in_set_conv_nth)
    then show ?thesis by (simp add: log_index_def n sc)
  qed
qed

lemma log_write_run:
  assumes tr: "in_trans s H L hs" and i: "H b = Some i" and b: "b < disksize s" "off_log L b" "b \<noteq> 1"
    and sz: "length hs + 1 < LOGSIZE" "int (length hs) + 1 < log_size s" "0 < log_outstanding s"
  obtains t where "log_write i s = Ret () t" and "in_trans t H L (if b \<in> set hs then hs else hs @ [b])" and "bview t = bview s"
    and "disk t = disk s" and "dhist t = dhist s" and "disksize t = disksize s" and "bufs t = (bufs s)(i := (bufs s i)\<lparr>b_dirty := True\<rparr>)"
    and "log_outstanding t = log_outstanding s" and "log_committing t = log_committing s" and "log_size t = log_size s"
proof -
  have T: "bstate s H" "logged s L hs" "Collect (bpinned s) = set hs" "log_disk (disksize s) L [] (disk s)" "1 \<notin> set hs"
    using tr by (simp_all add: in_trans_def)
  note G = loggedD [OF T(2)]
  have bn: "b_blockno (bufs s i) = b" and q: "held s = []"
    using bstateD(2,3) [OF T(1)] i by (auto simp: on_block_def quiet_def)
  have b31: "b < 2 ^ 31" using b(1) G(8) by simp
  let ?hs = "if b \<in> set hs then hs else hs @ [b]"
  let ?s = "s\<lparr>lh_n := int (length ?hs), lh_block := (lh_block s)(log_index s b := int b)\<rparr>"
  let ?t = "upd_buf i (\<lambda>q. q\<lparr>b_dirty := True\<rparr>) ?s"
  note X = log_index_logged [OF T(2) b31]
  note B = bstate_fields [of ?s s, simplified kbio.truncate_def, simplified]
  have st: "bstate ?s H" using T(1) by (simp only: B)
  note P = bpin_rule [OF st i]
  have "lh_block ?s j = int (?hs ! j)" if "j < length ?hs" for j
    using that X G(4) [of j] by (cases "b \<in> set hs") (auto simp: nth_append)
  moreover have "distinct ?hs" "length ?hs < NBUF"
    using G(5,6) sz(1) by (auto simp: NBUF_def LOGSIZE_def MAXOPBLOCKS_def)
  moreover have sb: "set ?hs = insert b (set hs)" by auto
  have "h < disksize s \<and> (h < L \<or> L + LOGSIZE < h)" if "h \<in> set ?hs" for h
    using that G(9) [of h] G(10) [of h] b(1,2) unfolding sb off_log_def by blast
  ultimately have lg: "logged ?t L ?hs"
    unfolding logged_def using G(1,2,7,8) by (intro conjI allI impI ballI) simp_all
  have pn: "Collect (bpinned ?t) = set ?hs" unfolding P(3) B(3) sb using T(3) by auto
  have dk: "log_disk (disksize ?t) L [] (disk ?t)" using T(4) by simp
  have b1: "1 \<notin> set ?hs" unfolding sb using T(5) b(3) by simp
  have it: "in_trans ?t H L ?hs" unfolding in_trans_def by (intro conjI P(1) lg pn dk b1)
  have g: "\<not> (lh_n s \<ge> int LOGSIZE \<or> lh_n s \<ge> log_size s - 1)" "\<not> log_outstanding s < 1" using G(3) sz by auto
  have ix: "log_index (s\<lparr>held := [LogLk]\<rparr>) b = log_index s b"
    by (simp add: log_index_def split: option.split)
  have same: "int (log_index s b) = lh_n s \<longleftrightarrow> b \<notin> set hs" using X G(3) by (cases "b \<in> set hs") simp_all
  have "log_write i s = Ret () ?t"
    using g same q G(3) by (cases "b \<in> set hs") (simp_all add: log_write_def Let_def bn ix iarg_small [OF b31] held_same)
  from this it show thesis by (rule that) (use P(2) in \<open>simp_all add: B\<close>)
qed

lemma begin_op_eq:
  assumes "held s = []" "\<not> log_committing s" "lh_n s + (log_outstanding s + 1) * int MAXOPBLOCKS \<le> int LOGSIZE"
  shows "begin_op s = Ret () (s\<lparr>log_outstanding := log_outstanding s + 1\<rparr>)"
  using assms by (simp add: begin_op_def begin_op_loop_def held_same)

lemma in_trans_cong:
  fixes s t :: "'a klog_scheme"
  assumes "kbio.truncate t = kbio.truncate s" and "log_dev t = log_dev s" "log_start t = log_start s" "lh_n t = lh_n s" "lh_block t = lh_block s"
  shows "in_trans t H L hs = in_trans s H L hs"
proof -
  have "disksize t = disksize s" "disk t = disk s" using assms(1) by (cases s; cases t; simp add: kbio.truncate_def)+
  then show ?thesis using bstate_fields [OF assms(1)] assms(2-) by (simp add: in_trans_def logged_def)
qed

text \<open>Waking the processes that wait for the log leaves cache, disk and log alone.\<close>

lemma log_ready_wakeup:
  assumes "log_ready s L hs"
  shows "log_ready (wakeup1 c s) L hs"
proof -
  let ?t = "wakeup1 c s"
  have o: "on_block ?t = on_block s" by (rule ext)+ (simp add: on_block_def wakeup1_def)
  have m: "mypid ?t = mypid s" by (simp add: mypid_def wakeup1_def wake_tab_def split: option.split)
  have q: "quiet ?t = quiet s" by (simp add: quiet_def wakeup1_def)
  have f: "slocks ?t = slocks s" "disk ?t = disk s" "bufs ?t = bufs s" "bnext ?t = bnext s" "bprev ?t = bprev s" "disksize ?t = disksize s"
    by (simp_all add: wakeup1_def)
  have "bstate ?t Map.empty = bstate s Map.empty" "bpinned ?t = bpinned s"
    by ((rule ext)?, simp only: bstate_def bcache_ok_def lru_def bpinned_def o m q f)+
  moreover have "logged ?t L hs = logged s L hs" by (simp add: logged_def wakeup1_def)
  ultimately show ?thesis using assms f by (simp add: log_ready_def)
qed

text \<open>The last operation of a transaction commits it.\<close>

lemma end_op_last:
  assumes rd: "log_ready s L hs" and ne: "hs \<noteq> []" and o: "log_outstanding s = 1" "\<not> log_committing s"
  obtains t where "end_op s = Ret () t" and "log_ready t L []" and "log_outstanding t = 0" and "\<not> log_committing t"
    and "\<forall>b. off_log L b \<longrightarrow> disk t b = bview s b" and "log_size t = log_size s" and "disksize t = disksize s"
proof -
  let ?s = "s\<lparr>log_outstanding := 0, log_committing := True\<rparr>"
  note B = bstate_fields [of ?s s, simplified kbio.truncate_def, simplified]
  have h: "held s = []" using log_readyD(1) [OF rd] by (simp add: bstate_def quiet_def)
  have rs: "log_ready ?s L hs"
    using rd in_trans_cong [of ?s s Map.empty L hs] by (simp add: in_trans_ready kbio.truncate_def)
  obtain t h0 h1 where t: "commit ?s = Ret () (t\<lparr>lh_n := 0\<rparr>)" "io_run ?s (commit_writes L hs (bview ?s) h0 h1) t"
    "heads h0 hs" "heads h1 []" "log_ready (t\<lparr>lh_n := 0\<rparr>) L []" "\<forall>b. off_log L b \<longrightarrow> disk t b = bview ?s b"
    by (rule commit_done [OF rs ne])
  note T = io_runD(6,8) [OF t(2)] more_klog [OF io_runD(7) [OF t(2)]]
  let ?u = "t\<lparr>lh_n := 0, log_committing := False\<rparr>"
  have ru: "log_ready (wakeup1 (Some CLog) ?u) L []"
    using t(5) in_trans_cong [of ?u "t\<lparr>lh_n := 0\<rparr>" Map.empty L "[]"]
    by (intro log_ready_wakeup) (simp add: in_trans_ready kbio.truncate_def)
  have ht: "held t = []" using T(2) h by simp
  have "end_op s = Ret () (wakeup1 (Some CLog) ?u)"
    using o t(1) h ht by (simp add: end_op_def Let_def wakeup_eq held_same wakeup1_def)
  then show thesis using that [OF _ ru] t(6) T by (simp add: wakeup1_def B)
qed

section \<open>Main results\<close>

text \<open>A machine with a log of 30 blocks at block 2, and one block, number 100, changed by a running transaction.\<close>

definition disk0 :: "nat \<Rightarrow> block" where
  "disk0 = (\<lambda>b. if b = 1 then setw 12 30 (setw 16 2 (\<lambda>_. 0)) else (\<lambda>_. 0))"

definition clean_bufs :: "nat \<Rightarrow> buf" where
  "clean_bufs = (\<lambda>_. \<lparr>b_valid = False, b_dirty = False, b_dev = 0, b_blockno = 0, b_refcnt = 0, b_data = (\<lambda>_. 0)\<rparr>)"

definition klog_of :: "(nat \<Rightarrow> block) \<Rightarrow> (nat \<Rightarrow> buf) \<Rightarrow> int \<Rightarrow> klog" where
  "klog_of d bs n = kproc.extend (kproc0\<lparr>cpu_proc := Some 0\<rparr>) (ksleep_ext (\<lambda>_. unowned)
     (kbio_ext 1000 d [] bs (\<lambda>i. if i = NBUF then 0 else Suc i) (\<lambda>i. if i = 0 then NBUF else i - 1)
     (klog_ext 2 30 1 False 1 n (\<lambda>_. 100) ())))"

definition klog_boot :: "(nat \<Rightarrow> block) \<Rightarrow> klog" where
  "klog_boot d = klog_of d clean_bufs 0"

definition klog0 :: klog where
  "klog0 = klog_of disk0 (clean_bufs(0 := \<lparr>b_valid = True, b_dirty = True, b_dev = 1, b_blockno = 100, b_refcnt = 0, b_data = (\<lambda>_. 7)\<rparr>)) 1"

lemma klog_of_fields [simp]:
  "held (klog_of d bs n) = []" "cpu_proc (klog_of d bs n) = Some 0" "disksize (klog_of d bs n) = 1000" "disk (klog_of d bs n) = d"
  "dhist (klog_of d bs n) = []" "bufs (klog_of d bs n) = bs" "slocks (klog_of d bs n) = (\<lambda>_. unowned)"
  "bnext (klog_of d bs n) = (\<lambda>i. if i = NBUF then 0 else Suc i)" "bprev (klog_of d bs n) = (\<lambda>i. if i = 0 then NBUF else i - 1)"
  "log_start (klog_of d bs n) = 2" "log_size (klog_of d bs n) = 30" "log_outstanding (klog_of d bs n) = 1"
  "log_committing (klog_of d bs n) = False" "log_dev (klog_of d bs n) = 1" "lh_n (klog_of d bs n) = n" "lh_block (klog_of d bs n) = (\<lambda>_. 100)"
  by (simp_all add: klog_of_def kproc.extend_def kproc0_def)

lemma ring_concrete: "ring (\<lambda>i. if i = NBUF then 0 else Suc i) (\<lambda>i. if i = 0 then NBUF else i - 1) [0..<NBUF]"
  by (simp add: ring_def NBUF_def upt_rec)

lemma klog_of_state:
  assumes "\<And>i. i < NBUF \<Longrightarrow> b_refcnt (bs i) = 0" and "\<And>i. i < NBUF \<Longrightarrow> 0 < i \<Longrightarrow> b_dev (bs i) = 0 \<and> \<not> b_dirty (bs i)"
    and "b_dev (bs 0) = 1 \<and> b_valid (bs 0) \<and> b_dirty (bs 0) \<or> b_dev (bs 0) = 0 \<and> \<not> b_dirty (bs 0)"
  shows "bstate (klog_of d bs n) Map.empty" "Collect (bpinned (klog_of d bs n)) = (if b_dirty (bs 0) then {b_blockno (bs 0)} else {})"
proof -
  have o: "on_block (klog_of d bs n) b i \<longleftrightarrow> i = 0 \<and> b_dev (bs 0) = 1 \<and> b_blockno (bs 0) = b" for b i
    using assms(2) [of i] by (cases "i = 0") (auto simp: on_block_def NBUF_def)
  have dev: "b_dev (bs i) = 1" if "i < NBUF" "b_dirty (bs i)" for i
    using that assms(2) [of i] assms(3) by (cases "i = 0") auto
  show "bstate (klog_of d bs n) Map.empty"
    unfolding bstate_def bcache_ok_def o lru_def quiet_def
    using ring_concrete assms(1) assms(3) dev by (auto intro!: exI [of _ "[0..<NBUF]"])
  show "Collect (bpinned (klog_of d bs n)) = (if b_dirty (bs 0) then {b_blockno (bs 0)} else {})"
    using assms(3) by (auto simp: bpinned_def o)
qed

lemma booted_klog_boot: "booted (klog_boot d)"
  using klog_of_state [of clean_bufs d 0] by (simp add: booted_def klog_boot_def clean_bufs_def)

lemma disk0_log: "log_disk 1000 2 [] disk0"
proof -
  have "getw (disk0 1) 16 = 2" by (simp add: disk0_def getw_setw_other)
  moreover have "getw (disk0 2) 0 = 0" by (simp add: disk0_def getw_def)
  ultimately show ?thesis
    by (simp add: log_disk_def get_superblock_def heads_def hdr_def home_ok_def LOGSIZE_def MAXOPBLOCKS_def NBUF_def)
qed

lemma ready_klog0: "log_ready klog0 2 [100]"
proof -
  let ?bs = "clean_bufs(0 := \<lparr>b_valid = True, b_dirty = True, b_dev = 1, b_blockno = 100, b_refcnt = 0, b_data = (\<lambda>_. 7)\<rparr>)"
  have "bstate (klog_of disk0 ?bs 1) Map.empty" "Collect (bpinned (klog_of disk0 ?bs 1)) = {100}"
    using klog_of_state [of ?bs disk0 1] by (simp_all add: clean_bufs_def)
  then show ?thesis
    using disk0_log by (simp add: klog0_def log_ready_def logged_def NBUF_def LOGSIZE_def MAXOPBLOCKS_def)
qed

lemma klog0_view: "bview klog0 100 = (\<lambda>_. 7)"
proof -
  have "scan (on_block klog0 100) NBUF = Some 0" by (rule scan_SomeI) (simp_all add: on_block_def klog0_def NBUF_def)
  then show ?thesis by (simp add: bview_def klog0_def)
qed



text \<open>
  C18: a file system operation that changes one block, in the way log.c prescribes, reaches the disk: when
  no other operation is under way, the sequence \<open>begin_op\<close>, \<open>bread\<close>, change of the data, \<open>log_write\<close>, \<open>brelse\<close>,
  \<open>end_op\<close> returns with the new contents on disk, every other block outside the log unchanged and the log empty again.
\<close>

theorem block_update_durable:
  assumes "log_ready s L []" and "log_outstanding s = 0" and "\<not> log_committing s" and "2 < log_size s"
    and "b < disksize s" and "off_log L b" and "b \<noteq> 1"
  shows "\<exists>t. bindK (begin_op s) (\<lambda>_ s. bindK (bread 1 b s) (\<lambda>bp s.
           bindK (log_write bp (upd_buf bp (\<lambda>q. q\<lparr>b_data := x\<rparr>) s)) (\<lambda>_ s.
           bindK (brelse bp s) (\<lambda>_ s. end_op s)))) = Ret () t
      \<and> disk t b = x \<and> (\<forall>c. off_log L c \<longrightarrow> c \<noteq> b \<longrightarrow> disk t c = disk s c)
      \<and> log_ready t L [] \<and> log_outstanding t = 0 \<and> \<not> log_committing t"
proof -
  note R = log_readyD [OF assms(1)]
  have h: "held s = []" using R(1) by (simp add: bstate_def quiet_def)
  let ?s = "s\<lparr>log_outstanding := 1\<rparr>"
  have bo: "begin_op s = Ret () ?s"
    using begin_op_eq [OF h assms(3)] assms(2) loggedD(3) [OF R(2)] by (simp add: LOGSIZE_def MAXOPBLOCKS_def)
  have rs: "in_trans ?s Map.empty L []"
    using assms(1) in_trans_cong [of ?s s Map.empty L "[]"] by (simp add: in_trans_ready kbio.truncate_def)
  have st: "bstate ?s Map.empty" "Collect (bpinned ?s) = {}" "b < disksize ?s" using rs assms(5) by (simp_all add: in_trans_def)
  obtain i t where t: "bread 1 b ?s = Ret i t" "bstate t (Map.empty(b \<mapsto> i))" "bview t = bview ?s" "bpinned t = bpinned ?s"
    "cache_only ?s t" "b_data (bufs t i) = bview ?s b" by (rule bread_ready [OF st])
  note T = cache_onlyD [OF t(5)] more_klog [OF bread_more [OF t(1)]]
  let ?u = "upd_buf i (\<lambda>q. q\<lparr>b_data := x\<rparr>) t"
  have H: "(Map.empty(b \<mapsto> i)) b = Some i" by simp
  note U = bdata_rule [OF t(2) H, of x]
  have it: "in_trans ?u (Map.empty(b \<mapsto> i)) L []"
  proof -
    have "logged ?u L []" "log_disk (disksize ?u) L [] (disk ?u)" using rs T by (simp_all add: in_trans_def logged_def)
    moreover have "Collect (bpinned ?u) = set []" unfolding U(3) t(4) using st(2) by simp
    ultimately show ?thesis unfolding in_trans_def by (intro conjI U(1)) simp_all
  qed
  have side: "b < disksize ?u" "off_log L b" "b \<noteq> 1" "length ([] :: nat list) + 1 < LOGSIZE"
    "int (length ([] :: nat list)) + 1 < log_size ?u" "0 < log_outstanding ?u"
    using assms T by (simp_all add: LOGSIZE_def MAXOPBLOCKS_def)
  obtain v where v: "log_write i ?u = Ret () v" "in_trans v (Map.empty(b \<mapsto> i)) L (if b \<in> set [] then [] else [] @ [b])" "bview v = bview ?u"
    "disk v = disk ?u" "dhist v = dhist ?u" "disksize v = disksize ?u" "bufs v = (bufs ?u)(i := (bufs ?u i)\<lparr>b_dirty := True\<rparr>)"
    "log_outstanding v = log_outstanding ?u" "log_committing v = log_committing ?u" "log_size v = log_size ?u"
    by (rule log_write_run [OF it H side])
  have V: "bstate v (Map.empty(b \<mapsto> i))" "bpinned v b" using v(2) by (auto simp: in_trans_def)
  have e: "(Map.empty(b \<mapsto> i))(b := None) = Map.empty" by auto
  obtain w where w: "brelse i v = Ret () w" "bstate w Map.empty" "bview w = bview v" "bpinned w = bpinned v" "cache_only v w"
    by (rule brelse_rule [OF V(1) H disjI1 [OF V(2)], unfolded e]) (rule that)
  have mw: "kbio.more w = kbio.more v" using w(5) by (cases w; cases v) (simp add: cache_only_def)
  note M = cache_onlyD [OF w(5)] more_klog [OF mw]
  have rw: "log_ready w L [b]"
    using v(2) w(2) M unfolding in_trans_ready [symmetric] in_trans_def w(4) by (simp add: logged_def)
  have "log_outstanding w = 1" "\<not> log_committing w" using M v T assms(3) by simp_all
  from end_op_last [OF rw _ this] obtain z where z: "end_op w = Ret () z" "log_ready z L []" "log_outstanding z = 0"
    "\<not> log_committing z" "\<forall>b. off_log L b \<longrightarrow> disk z b = bview w b" by blast
  have "bview w = (bview s)(b := x)" unfolding w(3) v(3) U(2) t(3)
    using bstate_fields(2) [of ?s s] by (simp add: kbio.truncate_def)
  then show ?thesis
    using bo t(1) v(1) w(1) z assms(6) R(6) by (intro exI [of _ z]) simp
qed

theorem block_update_durable_witness:
  "\<exists>t. bindK (begin_op ((klog_boot disk0)\<lparr>log_outstanding := 0\<rparr>)) (\<lambda>_ s. bindK (bread 1 100 s) (\<lambda>bp s.
           bindK (log_write bp (upd_buf bp (\<lambda>q. q\<lparr>b_data := (\<lambda>_. 5)\<rparr>) s)) (\<lambda>_ s.
           bindK (brelse bp s) (\<lambda>_ s. end_op s)))) = Ret () t \<and> disk t 100 = (\<lambda>_. 5)"
proof -
  let ?s = "(klog_boot disk0)\<lparr>log_outstanding := 0\<rparr>"
  have "log_ready (klog_boot disk0) 2 []"
    using booted_klog_boot [of disk0] disk0_log
    by (simp add: log_ready_def booted_def logged_def klog_boot_def NBUF_def LOGSIZE_def MAXOPBLOCKS_def)
  then have r: "log_ready ?s 2 []"
    using in_trans_cong [of ?s "klog_boot disk0" Map.empty 2 "[]"] by (simp add: in_trans_ready kbio.truncate_def)
  show ?thesis
    using block_update_durable [OF r, of 100 "\<lambda>_. 5"] by (auto simp: klog_boot_def off_log_def LOGSIZE_def MAXOPBLOCKS_def)
qed

text \<open>
  Recording a block in a running transaction. As long as the log has room, \<open>log_write\<close> of a held buffer adds
  its block to the transaction and pins the buffer in the cache; a block that is already part of the transaction is
  not logged twice. Nothing is written to disk and no block changes.
\<close>

theorem log_write_correct:
  assumes "in_trans s H L hs" and "H b = Some i" and "b < disksize s" and "off_log L b" and "b \<noteq> 1"
    and "length hs + 1 < LOGSIZE" and "int (length hs) + 1 < log_size s" and "0 < log_outstanding s"
  shows "\<exists>t. log_write i s = Ret () t \<and> in_trans t H L (if b \<in> set hs then hs else hs @ [b]) \<and> bview t = bview s
      \<and> disk t = disk s \<and> dhist t = dhist s"
  by (rule log_write_run [OF assms]) blast

theorem log_write_correct_witness:
  "\<exists>i t u. bread 1 100 (klog_boot disk0) = Ret i t \<and> log_write i t = Ret () u \<and> in_trans u (Map.empty(100 \<mapsto> i)) 2 [100]"
proof -
  let ?s = "klog_boot disk0"
  have st: "bstate ?s Map.empty" "Collect (bpinned ?s) = {}" "100 < disksize ?s"
    using booted_klog_boot [of disk0] by (simp_all add: booted_def klog_boot_def)
  obtain i t where t: "bread 1 100 ?s = Ret i t" "bstate t (Map.empty(100 \<mapsto> i))" "bview t = bview ?s" "bpinned t = bpinned ?s"
    "cache_only ?s t" "b_data (bufs t i) = bview ?s 100" by (rule bread_ready [OF st])
  note T = cache_onlyD [OF t(5)] more_klog [OF bread_more [OF t(1)]]
  have lg: "logged t 2 []" "log_disk (disksize t) 2 [] (disk t)"
    using disk0_log by (simp_all add: logged_def T klog_boot_def NBUF_def LOGSIZE_def MAXOPBLOCKS_def)
  have "Collect (bpinned t) = set []" using st(2) t(4) by simp
  with lg t(2) have it: "in_trans t (Map.empty(100 \<mapsto> i)) 2 []" unfolding in_trans_def by (intro conjI) simp_all
  have "\<exists>u. log_write i t = Ret () u \<and> in_trans u (Map.empty(100 \<mapsto> i)) 2 (if (100::nat) \<in> set [] then [] else [] @ [100]) \<and> bview u = bview t
      \<and> disk u = disk t \<and> dhist u = dhist t"
    by (rule log_write_correct [OF it]) (simp_all add: T klog_boot_def off_log_def LOGSIZE_def MAXOPBLOCKS_def)
  then show ?thesis using t(1) by auto
qed



end
