(* ===== verification/Inode.thy ===== *)
theory Inode
  imports Log
begin

text \<open>
  The lower half of fs.c: the block allocator and the inodes, in memory and on disk. An inode of
  the cache is named by its index; a null pointer is \<^term>\<open>None\<close>. C \<open>short\<close>s are integers, wrapped by
  \<open>short\<close> where the code computes them; block and inode numbers and sizes are the values of the C
  \<open>uint\<close>s. All disk access goes through the buffer cache, all writes through the log.
\<close>

section \<open>State\<close>

definition NDIRECT :: nat where "NDIRECT = 12"

definition NINDIRECT :: nat where "NINDIRECT = BSIZE div 4"

definition MAXFILE :: nat where "MAXFILE = NDIRECT + NINDIRECT"

definition NINODE :: nat where "NINODE = 50"

definition BPB :: nat where "BPB = BSIZE * 8"

definition IPB :: nat where "IPB = BSIZE div 64"

definition T_DIR :: int where "T_DIR = 1"

definition T_FILE :: int where "T_FILE = 2"

definition T_DEV :: int where "T_DEV = 3"

record inode =
  i_dev :: nat
  i_inum :: nat
  i_ref :: int
  i_valid :: bool
  i_type :: int
  i_major :: int
  i_minor :: int
  i_nlink :: int
  i_size :: nat
  i_addrs :: "nat \<Rightarrow> nat"

record kinode = klog +
  sb :: superblock
  inodes :: "nat \<Rightarrow> inode"

abbreviation upd_inode :: "nat \<Rightarrow> (inode \<Rightarrow> inode) \<Rightarrow> 'a kinode_scheme \<Rightarrow> 'a kinode_scheme" where
  "upd_inode i f s \<equiv> s\<lparr>inodes := (inodes s)(i := f (inodes s i))\<rparr>"

abbreviation upd_data :: "nat \<Rightarrow> (block \<Rightarrow> block) \<Rightarrow> 'a kbio_scheme \<Rightarrow> 'a kbio_scheme" where
  "upd_data b f s \<equiv> upd_buf b (\<lambda>q. q\<lparr>b_data := f (b_data q)\<rparr>) s"

definition BBLOCK :: "nat \<Rightarrow> superblock \<Rightarrow> nat" where
  "BBLOCK b sp = b div BPB + sb_bmapstart sp"

definition IBLOCK :: "nat \<Rightarrow> superblock \<Rightarrow> nat" where
  "IBLOCK i sp = i div IPB + sb_inodestart sp"

section \<open>Inodes on disk\<close>

definition short :: "int \<Rightarrow> int" where
  "short i = sint (word_of_int i :: 16 word)"

definition geth :: "block \<Rightarrow> nat \<Rightarrow> 16 word" where
  "geth d i = ucast (d i) OR push_bit 8 (ucast (d (i + 1)))"

definition seth :: "nat \<Rightarrow> 16 word \<Rightarrow> block \<Rightarrow> block" where
  "seth i v d = d(i := ucast v, i + 1 := ucast (drop_bit 8 v))"

record dinode =
  d_type :: int
  d_major :: int
  d_minor :: int
  d_nlink :: int
  d_size :: nat
  d_addrs :: "nat \<Rightarrow> nat"

text \<open>\<open>(struct dinode *) data + k\<close>: 64 bytes, four \<open>short\<close>s, the size and 13 addresses.\<close>

definition get_dinode :: "block \<Rightarrow> nat \<Rightarrow> dinode" where
  "get_dinode d k =
     \<lparr>d_type = sint (geth d (64 * k)), d_major = sint (geth d (64 * k + 2)), d_minor = sint (geth d (64 * k + 4)),
      d_nlink = sint (geth d (64 * k + 6)), d_size = unat (getw d (64 * k + 8)),
      d_addrs = (\<lambda>i. if i \<le> NDIRECT then unat (getw d (64 * k + 12 + 4 * i)) else 0)\<rparr>"

definition put_dinode :: "nat \<Rightarrow> dinode \<Rightarrow> block \<Rightarrow> block" where
  "put_dinode k di d =
     fold (\<lambda>i. setw (64 * k + 12 + 4 * i) (of_nat (d_addrs di i))) [0..<NDIRECT + 1]
       (setw (64 * k + 8) (of_nat (d_size di))
       (seth (64 * k + 6) (word_of_int (d_nlink di))
       (seth (64 * k + 4) (word_of_int (d_minor di))
       (seth (64 * k + 2) (word_of_int (d_major di))
       (seth (64 * k) (word_of_int (d_type di)) d)))))"

section \<open>Blocks\<close>

definition bzero :: "nat \<Rightarrow> nat \<Rightarrow> 'a klog_scheme \<Rightarrow> (unit, 'a klog_scheme) outcome" where
  "bzero dev bno s =
     bindK (bread dev bno s) (\<lambda>bp s.
     bindK (log_write bp (upd_data bp (\<lambda>_ _. 0) s)) (\<lambda>_ s.
     brelse bp s))"

text \<open>Bit \<open>bi\<close> of a block of the free map.\<close>

definition bmap_bit :: "block \<Rightarrow> nat \<Rightarrow> bool" where
  "bmap_bit d bi = bit (d (bi div 8)) (bi mod 8)"

definition bmap_set :: "nat \<Rightarrow> block \<Rightarrow> block" where
  "bmap_set bi d = d(bi div 8 := d (bi div 8) OR push_bit (bi mod 8) 1)"

definition bmap_clear :: "nat \<Rightarrow> block \<Rightarrow> block" where
  "bmap_clear bi d = d(bi div 8 := d (bi div 8) AND NOT (push_bit (bi mod 8) 1))"

text \<open>The outer loop of \<open>balloc\<close>, over the first block numbers of the blocks of the free map.\<close>

fun balloc_loop :: "nat \<Rightarrow> nat list \<Rightarrow> 'a kinode_scheme \<Rightarrow> (nat, 'a kinode_scheme) outcome" where
  "balloc_loop dev [] s = Panic ''balloc: out of blocks''"
| "balloc_loop dev (b # bs) s =
     bindK (bread dev (BBLOCK b (sb s)) s) (\<lambda>bp s.
     case scan (\<lambda>bi. b + bi < sb_size (sb s) \<and> \<not> bmap_bit (b_data (bufs s bp)) bi) BPB of
       Some bi \<Rightarrow>
         bindK (log_write bp (upd_data bp (bmap_set bi) s)) (\<lambda>_ s.
         bindK (brelse bp s) (\<lambda>_ s.
         bindK (bzero dev (b + bi) s) (\<lambda>_ s. Ret (b + bi) s)))
     | None \<Rightarrow> bindK (brelse bp s) (\<lambda>_ s. balloc_loop dev bs s))"

definition balloc :: "nat \<Rightarrow> 'a kinode_scheme \<Rightarrow> (nat, 'a kinode_scheme) outcome" where
  "balloc dev s = balloc_loop dev (map (\<lambda>k. k * BPB) [0..<(sb_size (sb s) + BPB - 1) div BPB]) s"

definition bfree :: "nat \<Rightarrow> nat \<Rightarrow> 'a kinode_scheme \<Rightarrow> (unit, 'a kinode_scheme) outcome" where
  "bfree dev b s =
     bindK (bread dev (BBLOCK b (sb s)) s) (\<lambda>bp s.
     let bi = b mod BPB
     in if \<not> bmap_bit (b_data (bufs s bp)) bi then Panic ''freeing free block''
        else bindK (log_write bp (upd_data bp (bmap_clear bi) s)) (\<lambda>_ s.
             brelse bp s))"

section \<open>Inodes in memory\<close>

definition iinit :: "nat \<Rightarrow> 'a kinode_scheme \<Rightarrow> (unit, 'a kinode_scheme) outcome" where
  "iinit dev s =
     (let s = initlock IcacheLk s;
          s = fold (\<lambda>i. initsleeplock (InodeSL i)) [0..<NINODE] s
      in bindK (readsb dev s) (\<lambda>b s.
         let s = s\<lparr>sb := b\<rparr>
         in cprintf ''sb: size %d nblocks %d ninodes %d nlog %d logstart %d inodestart %d bmap start %d\<newline>''
              [PInt (of_nat (sb_size b)), PInt (of_nat (sb_nblocks b)), PInt (of_nat (sb_ninodes b)), PInt (of_nat (sb_nlog b)),
               PInt (of_nat (sb_logstart b)), PInt (of_nat (sb_inodestart b)), PInt (of_nat (sb_bmapstart b))] s))"

definition iget :: "nat \<Rightarrow> nat \<Rightarrow> 'a kinode_scheme \<Rightarrow> (nat, 'a kinode_scheme) outcome" where
  "iget dev inum s =
     bindK (acquire IcacheLk s) (\<lambda>_ s.
     case scan (\<lambda>i. i_ref (inodes s i) > 0 \<and> i_dev (inodes s i) = dev \<and> i_inum (inodes s i) = inum) NINODE of
       Some ip \<Rightarrow>
         bindK (release IcacheLk (upd_inode ip (\<lambda>i. i\<lparr>i_ref := i_ref i + 1\<rparr>) s)) (\<lambda>_ s. Ret ip s)
     | None \<Rightarrow>
         (case scan (\<lambda>i. i_ref (inodes s i) = 0) NINODE of
            None \<Rightarrow> Panic ''iget: no inodes''
          | Some ip \<Rightarrow>
              bindK (release IcacheLk
                (upd_inode ip (\<lambda>i. i\<lparr>i_dev := dev, i_inum := inum, i_ref := 1, i_valid := False\<rparr>) s)) (\<lambda>_ s.
              Ret ip s)))"

fun ialloc_loop :: "nat \<Rightarrow> int \<Rightarrow> nat list \<Rightarrow> 'a kinode_scheme \<Rightarrow> (nat, 'a kinode_scheme) outcome" where
  "ialloc_loop dev typ [] s = Panic ''ialloc: no inodes''"
| "ialloc_loop dev typ (inum # ns) s =
     bindK (bread dev (IBLOCK inum (sb s)) s) (\<lambda>bp s.
     if d_type (get_dinode (b_data (bufs s bp)) (inum mod IPB)) = 0 then
       bindK (log_write bp (upd_data bp (put_dinode (inum mod IPB)
         \<lparr>d_type = typ, d_major = 0, d_minor = 0, d_nlink = 0, d_size = 0, d_addrs = (\<lambda>_. 0)\<rparr>) s)) (\<lambda>_ s.
       bindK (brelse bp s) (\<lambda>_ s. iget dev inum s))
     else bindK (brelse bp s) (\<lambda>_ s. ialloc_loop dev typ ns s))"

definition ialloc :: "nat \<Rightarrow> int \<Rightarrow> 'a kinode_scheme \<Rightarrow> (nat, 'a kinode_scheme) outcome" where
  "ialloc dev typ s = ialloc_loop dev typ [1..<sb_ninodes (sb s)] s"

text \<open>The fields of the inode that are kept on disk.\<close>

definition to_disk :: "inode \<Rightarrow> dinode" where
  "to_disk i = \<lparr>d_type = i_type i, d_major = i_major i, d_minor = i_minor i, d_nlink = i_nlink i,
     d_size = i_size i, d_addrs = i_addrs i\<rparr>"

definition from_disk :: "dinode \<Rightarrow> inode \<Rightarrow> inode" where
  "from_disk d i = i\<lparr>i_type := d_type d, i_major := d_major d, i_minor := d_minor d, i_nlink := d_nlink d,
     i_size := d_size d, i_addrs := d_addrs d\<rparr>"

definition iupdate :: "nat \<Rightarrow> 'a kinode_scheme \<Rightarrow> (unit, 'a kinode_scheme) outcome" where
  "iupdate ip s =
     bindK (bread (i_dev (inodes s ip)) (IBLOCK (i_inum (inodes s ip)) (sb s)) s) (\<lambda>bp s.
     bindK (log_write bp (upd_data bp (put_dinode (i_inum (inodes s ip) mod IPB) (to_disk (inodes s ip))) s)) (\<lambda>_ s.
     brelse bp s))"

definition idup :: "nat \<Rightarrow> 'a kinode_scheme \<Rightarrow> (nat, 'a kinode_scheme) outcome" where
  "idup ip s =
     bindK (acquire IcacheLk s) (\<lambda>_ s.
     bindK (release IcacheLk (upd_inode ip (\<lambda>i. i\<lparr>i_ref := i_ref i + 1\<rparr>) s)) (\<lambda>_ s. Ret ip s))"

definition ilock_load :: "nat \<Rightarrow> 'a kinode_scheme \<Rightarrow> (unit, 'a kinode_scheme) outcome" where
  "ilock_load ip s =
     (if i_valid (inodes s ip) then Ret () s
      else bindK (bread (i_dev (inodes s ip)) (IBLOCK (i_inum (inodes s ip)) (sb s)) s) (\<lambda>bp s.
           let s = upd_inode ip (from_disk (get_dinode (b_data (bufs s bp)) (i_inum (inodes s ip) mod IPB))) s
           in bindK (brelse bp s) (\<lambda>_ s.
              let s = upd_inode ip (\<lambda>i. i\<lparr>i_valid := True\<rparr>) s
              in if i_type (inodes s ip) = 0 then Panic ''ilock: no type'' else Ret () s)))"

definition ilock :: "nat option \<Rightarrow> 'a kinode_scheme \<Rightarrow> (unit, 'a kinode_scheme) outcome" where
  "ilock ipp s =
     (case ipp of
        None \<Rightarrow> Panic ''ilock''
      | Some ip \<Rightarrow>
          if i_ref (inodes s ip) < 1 then Panic ''ilock''
          else bindK (acquiresleep (InodeSL ip) s) (\<lambda>_ s. ilock_load ip s))"

definition iunlock :: "nat option \<Rightarrow> 'a kinode_scheme \<Rightarrow> (unit, 'a kinode_scheme) outcome" where
  "iunlock ipp s =
     (case ipp of
        None \<Rightarrow> Panic ''iunlock''
      | Some ip \<Rightarrow>
          bindK (holdingsleep (InodeSL ip) s) (\<lambda>h s.
          if \<not> h \<or> i_ref (inodes s ip) < 1 then Panic ''iunlock''
          else releasesleep (InodeSL ip) s))"

section \<open>Contents of inodes\<close>

definition bmap :: "nat \<Rightarrow> nat \<Rightarrow> 'a kinode_scheme \<Rightarrow> (nat, 'a kinode_scheme) outcome" where
  "bmap ip bn s =
     (if bn < NDIRECT then
        if i_addrs (inodes s ip) bn = 0 then
          bindK (balloc (i_dev (inodes s ip)) s) (\<lambda>a s.
          Ret a (upd_inode ip (\<lambda>i. i\<lparr>i_addrs := (i_addrs i)(bn := a)\<rparr>) s))
        else Ret (i_addrs (inodes s ip) bn) s
      else
        let bn = bn - NDIRECT
        in if bn < NINDIRECT then
             bindK (if i_addrs (inodes s ip) NDIRECT = 0 then
                      bindK (balloc (i_dev (inodes s ip)) s) (\<lambda>a s.
                      Ret a (upd_inode ip (\<lambda>i. i\<lparr>i_addrs := (i_addrs i)(NDIRECT := a)\<rparr>) s))
                    else Ret (i_addrs (inodes s ip) NDIRECT) s) (\<lambda>a s.
             bindK (bread (i_dev (inodes s ip)) a s) (\<lambda>bp s.
             let e = unat (getw (b_data (bufs s bp)) (4 * bn))
             in if e = 0 then
                  bindK (balloc (i_dev (inodes s ip)) s) (\<lambda>a s.
                  bindK (log_write bp (upd_data bp (setw (4 * bn) (of_nat a)) s)) (\<lambda>_ s.
                  bindK (brelse bp s) (\<lambda>_ s. Ret a s)))
                else bindK (brelse bp s) (\<lambda>_ s. Ret e s)))
           else Panic ''bmap: out of range'')"

definition itrunc :: "nat \<Rightarrow> 'a kinode_scheme \<Rightarrow> (unit, 'a kinode_scheme) outcome" where
  "itrunc ip s =
     bindK (forK (\<lambda>i s.
       if i_addrs (inodes s ip) i \<noteq> 0 then
         bindK (bfree (i_dev (inodes s ip)) (i_addrs (inodes s ip) i) s) (\<lambda>_ s.
         Ret () (upd_inode ip (\<lambda>q. q\<lparr>i_addrs := (i_addrs q)(i := 0)\<rparr>) s))
       else Ret () s) [0..<NDIRECT] s) (\<lambda>_ s.
     bindK (if i_addrs (inodes s ip) NDIRECT \<noteq> 0 then
         bindK (bread (i_dev (inodes s ip)) (i_addrs (inodes s ip) NDIRECT) s) (\<lambda>bp s.
         bindK (forK (\<lambda>j s.
           let a = unat (getw (b_data (bufs s bp)) (4 * j))
           in if a \<noteq> 0 then bfree (i_dev (inodes s ip)) a s else Ret () s) [0..<NINDIRECT] s) (\<lambda>_ s.
         bindK (brelse bp s) (\<lambda>_ s.
         bindK (bfree (i_dev (inodes s ip)) (i_addrs (inodes s ip) NDIRECT) s) (\<lambda>_ s.
         Ret () (upd_inode ip (\<lambda>q. q\<lparr>i_addrs := (i_addrs q)(NDIRECT := 0)\<rparr>) s)))))
       else Ret () s) (\<lambda>_ s.
     iupdate ip (upd_inode ip (\<lambda>q. q\<lparr>i_size := 0\<rparr>) s)))"

definition iput :: "nat \<Rightarrow> 'a kinode_scheme \<Rightarrow> (unit, 'a kinode_scheme) outcome" where
  "iput ip s =
     bindK (acquiresleep (InodeSL ip) s) (\<lambda>_ s.
     bindK (if i_valid (inodes s ip) \<and> i_nlink (inodes s ip) = 0 then
         bindK (acquire IcacheLk s) (\<lambda>_ s.
         let r = i_ref (inodes s ip)
         in bindK (release IcacheLk s) (\<lambda>_ s.
            if r = 1 then
              bindK (itrunc ip s) (\<lambda>_ s.
              bindK (iupdate ip (upd_inode ip (\<lambda>q. q\<lparr>i_type := 0\<rparr>) s)) (\<lambda>_ s.
              Ret () (upd_inode ip (\<lambda>q. q\<lparr>i_valid := False\<rparr>) s)))
            else Ret () s))
       else Ret () s) (\<lambda>_ s.
     bindK (releasesleep (InodeSL ip) s) (\<lambda>_ s.
     bindK (acquire IcacheLk s) (\<lambda>_ s.
     release IcacheLk (upd_inode ip (\<lambda>q. q\<lparr>i_ref := i_ref q - 1\<rparr>) s)))))"

definition iunlockput :: "nat \<Rightarrow> 'a kinode_scheme \<Rightarrow> (unit, 'a kinode_scheme) outcome" where
  "iunlockput ip s = bindK (iunlock (Some ip) s) (\<lambda>_ s. iput ip s)"

record stat =
  st_type :: int
  st_dev :: nat
  st_ino :: nat
  st_nlink :: int
  st_size :: nat

definition stati :: "nat \<Rightarrow> 'a kinode_scheme \<Rightarrow> stat" where
  "stati ip s =
     (let i = inodes s ip
      in \<lparr>st_type = i_type i, st_dev = i_dev i, st_ino = i_inum i, st_nlink = i_nlink i, st_size = i_size i\<rparr>)"

section \<open>Blocks in a transaction\<close>

text \<open>
  A file system operation runs inside a transaction, with no buffer held between its steps. What it sees of
  a block is \<^term>\<open>bview s b\<close>: the contents the transaction has given it, or else what is on disk.
\<close>

definition fs_trans :: "'a klog_scheme \<Rightarrow> nat \<Rightarrow> nat list \<Rightarrow> bool" where
  "fs_trans s L hs \<longleftrightarrow> in_trans s Map.empty L hs \<and> 0 < log_outstanding s \<and> int LOGSIZE \<le> log_size s"

text \<open>\<open>fs_step s t L n V\<close>: from \<open>s\<close> to \<open>t\<close> the blocks became \<open>V\<close>, at most \<open>n\<close> of them were added to the log.\<close>

definition fs_step :: "'a klog_scheme \<Rightarrow> 'a klog_scheme \<Rightarrow> nat \<Rightarrow> nat list \<Rightarrow> nat \<Rightarrow> (nat \<Rightarrow> block) \<Rightarrow> bool" where
  "fs_step s t L hs n V \<longleftrightarrow>
     (\<exists>hs'. fs_trans t L hs' \<and> length hs' \<le> length hs + n) \<and> bview t = V \<and> klog.more t = klog.more s \<and> disksize t = disksize s"

lemma more_kinode:
  assumes "klog.more t = klog.more s"
  shows "sb t = sb s" "inodes t = inodes s"
  using assms by (cases s; cases t; simp)+

lemma kbio_klog_more: "kbio.more t = kbio.more s \<Longrightarrow> klog.more t = klog.more (s :: 'a klog_scheme)"
  by (cases s; cases t; simp)

lemma log_write_more: "log_write b s = Ret () t \<Longrightarrow> klog.more t = klog.more s"
  by (auto simp: log_write_def Let_def lock_iffs split: if_splits)

lemma in_trans_room:
  assumes "in_trans s Map.empty L hs"
  shows "finite (Collect (bpinned s))" "card (Collect (bpinned s)) < NBUF"
proof -
  have p: "Collect (bpinned s) = set hs" "length hs < NBUF" using assms by (simp_all add: in_trans_def logged_def)
  then show "finite (Collect (bpinned s))" by simp
  show "card (Collect (bpinned s)) < NBUF" unfolding p(1) using p(2) card_length [of hs] by simp
qed

text \<open>
  The rule for a block that is opened: it has the contents the transaction sees. It can be given back
  unchanged, or changed, recorded and given back.
\<close>

lemma open_block:
  assumes tr: "fs_trans s L hs" and b: "b < disksize s" "off_log L b" "b \<noteq> 1"
  obtains i u where "bread 1 b s = Ret i u" and "b_data (bufs u i) = bview s b" and "klog.more u = klog.more s"
    and "\<exists>t. brelse i u = Ret () t \<and> fs_step s t L hs 0 (bview s)"
    and "\<forall>f. length hs + 1 < LOGSIZE \<longrightarrow>
      (\<exists>v t. log_write i (upd_data i f u) = Ret () v \<and> klog.more v = klog.more s \<and> brelse i v = Ret () t \<and> fs_step s t L hs 1 ((bview s)(b := f (bview s b))))"
proof -
  have I: "in_trans s Map.empty L hs" "0 < log_outstanding s" "int LOGSIZE \<le> log_size s" using tr by (simp_all add: fs_trans_def)
  have st: "bstate s Map.empty" using I(1) by (simp add: in_trans_def)
  obtain i u w where u: "bread 1 b s = Ret i u" "b_data (bufs u i) = bview s b" "brelse i u = Ret () w"
    "bstate w Map.empty" "cache_only s u" "cache_only s w" "bview w = bview s" "bpinned w = bpinned s"
    "bstate u (Map.empty(b \<mapsto> i))" "bview u = bview s" "bpinned u = bpinned s"
    by (rule read_block [OF st b(1) in_trans_room [OF I(1)]])
  have mu: "kbio.more u = kbio.more s" by (rule bread_more [OF u(1)])
  have mw: "kbio.more w = kbio.more s" using u(6) by (cases w; cases s) (simp add: cache_only_def)
  note U = cache_onlyD [OF u(5)] more_klog [OF mu] and W = cache_onlyD [OF u(6)] more_klog [OF mw]
  have "in_trans w Map.empty L hs"
    using I(1) u(4,8) W unfolding in_trans_def by (simp add: logged_def)
  then have rel: "fs_step s w L hs 0 (bview s)"
    unfolding fs_step_def fs_trans_def using I(2,3) W u(7) kbio_klog_more [OF mw] by auto
  have H: "(Map.empty(b \<mapsto> i)) b = Some i" by simp
  have upd: "\<exists>v t. log_write i (upd_data i f u) = Ret () v \<and> klog.more v = klog.more s \<and> brelse i v = Ret () t
      \<and> fs_step s t L hs 1 ((bview s)(b := f (bview s b)))" if sz: "length hs + 1 < LOGSIZE" for f
  proof -
    let ?x = "f (bview s b)"
    let ?u = "upd_buf i (\<lambda>q. q\<lparr>b_data := ?x\<rparr>) u"
    have eq: "upd_data i f u = ?u" by (simp add: u(2))
    note D = bdata_rule [OF u(9) H, of ?x]
    have it: "in_trans ?u (Map.empty(b \<mapsto> i)) L hs"
    proof -
      have "logged ?u L hs" "log_disk (disksize ?u) L [] (disk ?u)" "1 \<notin> set hs" using I(1) U by (simp_all add: in_trans_def logged_def)
      moreover have "Collect (bpinned ?u) = set hs" unfolding D(3) u(11) using I(1) by (simp add: in_trans_def)
      ultimately show ?thesis unfolding in_trans_def by (intro conjI D(1))
    qed
    have side: "b < disksize ?u" "off_log L b" "b \<noteq> 1" "length hs + 1 < LOGSIZE" "int (length hs) + 1 < log_size ?u" "0 < log_outstanding ?u"
      using b sz I U by simp_all
    obtain v where v: "log_write i ?u = Ret () v" "in_trans v (Map.empty(b \<mapsto> i)) L (if b \<in> set hs then hs else hs @ [b])" "bview v = bview ?u"
      "disk v = disk ?u" "dhist v = dhist ?u" "disksize v = disksize ?u" "bufs v = (bufs ?u)(i := (bufs ?u i)\<lparr>b_dirty := True\<rparr>)"
      "log_outstanding v = log_outstanding ?u" "log_committing v = log_committing ?u" "log_size v = log_size ?u"
      by (rule log_write_run [OF it H side])
    define hs' where "hs' = (if b \<in> set hs then hs else hs @ [b])"
    have v2: "bstate v (Map.empty(b \<mapsto> i)) \<and> logged v L hs' \<and> Collect (bpinned v) = set hs' \<and> log_disk (disksize v) L [] (disk v) \<and> 1 \<notin> set hs'"
      using v(2) unfolding in_trans_def hs'_def .
    have "b \<in> set hs'" by (simp add: hs'_def)
    then have V: "bstate v (Map.empty(b \<mapsto> i))" "bpinned v b" using v2 by blast+
    have e: "(Map.empty(b \<mapsto> i))(b := None) = Map.empty" by auto
    obtain t where t: "brelse i v = Ret () t" "bstate t Map.empty" "bview t = bview v" "bpinned t = bpinned v" "cache_only v t"
      by (rule brelse_rule [OF V(1) H disjI1 [OF V(2)], unfolded e]) (rule that)
    have mt: "kbio.more t = kbio.more v" using t(5) by (cases t; cases v) (simp add: cache_only_def)
    note T = cache_onlyD [OF t(5)] more_klog [OF mt]
    have mv: "klog.more v = klog.more s" using log_write_more [OF v(1)] kbio_klog_more [OF mu] by simp
    have "in_trans t Map.empty L hs'" unfolding in_trans_def t(4) using v2 t(2) T by (simp add: logged_def)
    moreover have "length hs' \<le> length hs + 1" by (simp add: hs'_def)
    moreover have "0 < log_outstanding t" "int LOGSIZE \<le> log_size t" using I T v U by simp_all
    moreover have "bview t = (bview s)(b := ?x)" unfolding t(3) v(3) D(2) u(10) ..
    ultimately have "fs_step s t L hs 1 ((bview s)(b := ?x))"
      unfolding fs_step_def fs_trans_def using T(3) U(3) v(6) kbio_klog_more [OF mt] mv by (intro conjI exI [of _ hs']) simp_all
    then show ?thesis using v(1) t(1) mv unfolding eq by blast
  qed
  show thesis by (rule that [OF u(1,2) kbio_klog_more [OF mu]]) (use u(3) rel upd in blast)+
qed

lemma update_block:
  assumes "fs_trans s L hs" and "b < disksize s" "off_log L b" "b \<noteq> 1" "length hs + 1 < LOGSIZE"
  obtains t where "bindK (bread 1 b s) (\<lambda>i s. bindK (log_write i (upd_data i f s)) (\<lambda>_ s. brelse i s)) = Ret () t"
    and "fs_step s t L hs 1 ((bview s)(b := f (bview s b)))"
proof -
  obtain i u where u: "bread 1 b s = Ret i u" "\<forall>f. length hs + 1 < LOGSIZE \<longrightarrow>
      (\<exists>v t. log_write i (upd_data i f u) = Ret () v \<and> klog.more v = klog.more s \<and> brelse i v = Ret () t \<and> fs_step s t L hs 1 ((bview s)(b := f (bview s b))))"
    by (rule open_block [OF assms(1-4)])
  from u(2) assms(5) obtain v t where "log_write i (upd_data i f u) = Ret () v" "brelse i v = Ret () t"
    "fs_step s t L hs 1 ((bview s)(b := f (bview s b)))" by blast
  then show thesis using u(1) by (intro that [of t]) simp_all
qed

lemma fs_stepE:
  assumes "fs_step s t L hs n V"
  obtains hs' where "fs_trans t L hs'" and "length hs' \<le> length hs + n" and "bview t = V" and "klog.more t = klog.more s"
    and "disksize t = disksize s"
  using assms by (auto simp: fs_step_def)

lemma fs_step_trans:
  assumes "length hs' \<le> length hs + n" and "klog.more t = klog.more s" and "disksize t = disksize s" and "fs_step t u L hs' m W"
  shows "fs_step s u L hs (n + m) W"
  using assms unfolding fs_step_def by force

section \<open>The free map\<close>

text \<open>
  \<open>bused s b\<close>: block \<open>b\<close> is marked in the free map as the transaction sees it. \<open>fs_layout\<close> is the part of
  the layout of mkfs.c that allocation relies on: the map, the log and block 1 are apart, and blocks
  that are free are neither of these.
\<close>

definition bused :: "'a kinode_scheme \<Rightarrow> nat \<Rightarrow> bool" where
  "bused s b = bmap_bit (bview s (BBLOCK b (sb s))) (b mod BPB)"

definition data_block :: "'a kinode_scheme \<Rightarrow> nat \<Rightarrow> nat \<Rightarrow> bool" where
  "data_block s L b \<longleftrightarrow> b < disksize s \<and> off_log L b \<and> b \<noteq> 1"

definition fs_layout :: "'a kinode_scheme \<Rightarrow> nat \<Rightarrow> bool" where
  "fs_layout s L \<longleftrightarrow>
     (\<forall>b. b < sb_size (sb s) \<longrightarrow> data_block s L (BBLOCK b (sb s))
        \<and> (\<not> bused s b \<longrightarrow> data_block s L b \<and> (\<forall>c. c < sb_size (sb s) \<longrightarrow> BBLOCK c (sb s) \<noteq> b)))"

lemma bit_set_other: "bit (x OR 2 ^ k :: byte) j \<longleftrightarrow> bit x j \<or> j = k \<and> j < 8"
  by (auto simp: bit_or_iff bit_exp_iff)

lemma bit_clear_other: "bit (x AND NOT (2 ^ k) :: byte) j \<longleftrightarrow> bit x j \<and> j \<noteq> k"
  by (auto simp: bit_and_iff bit_not_iff bit_exp_iff dest: bit_imp_le_length)

lemma bmap_bit_set: "bi < BPB \<Longrightarrow> bmap_bit (bmap_set bi d) bj \<longleftrightarrow> bmap_bit d bj \<or> bj = bi"
proof -
  have "bj = bi \<longleftrightarrow> bj div 8 = bi div 8 \<and> bj mod 8 = bi mod 8" by (metis div_mult_mod_eq)
  then show ?thesis by (auto simp: bmap_bit_def bmap_set_def bit_set_other)
qed

lemma bmap_bit_clear: "bmap_bit (bmap_clear bi d) bj \<longleftrightarrow> bmap_bit d bj \<and> bj \<noteq> bi"
proof -
  have "bj = bi \<longleftrightarrow> bj div 8 = bi div 8 \<and> bj mod 8 = bi mod 8" by (metis div_mult_mod_eq)
  then show ?thesis by (auto simp: bmap_bit_def bmap_clear_def bit_clear_other)
qed

lemma bblock_eq: "b div BPB = c div BPB \<longleftrightarrow> BBLOCK b p = BBLOCK c p"
  by (simp add: BBLOCK_def)

text \<open>Setting or clearing the bit of block \<open>b\<close> changes the state of this block only.\<close>

lemma bused_set:
  assumes "bview t = (bview s)(BBLOCK b (sb s) := bmap_set (b mod BPB) (bview s (BBLOCK b (sb s))))" and "sb t = sb s"
  shows "bused t c \<longleftrightarrow> bused s c \<or> c = b"
proof -
  have "b mod BPB < BPB" by (simp add: BPB_def BSIZE_def)
  moreover have "c = b \<longleftrightarrow> c div BPB = b div BPB \<and> c mod BPB = b mod BPB" by (metis div_mult_mod_eq)
  ultimately show ?thesis using assms bblock_eq [of c b "sb s"] by (auto simp: bused_def bmap_bit_set)
qed

lemma bused_clear:
  assumes "bview t = (bview s)(BBLOCK b (sb s) := bmap_clear (b mod BPB) (bview s (BBLOCK b (sb s))))" and "sb t = sb s"
  shows "bused t c \<longleftrightarrow> bused s c \<and> c \<noteq> b"
proof -
  have "c = b \<longleftrightarrow> c div BPB = b div BPB \<and> c mod BPB = b mod BPB" by (metis div_mult_mod_eq)
  then show ?thesis using assms bblock_eq [of c b "sb s"] by (auto simp: bused_def bmap_bit_clear)
qed

text \<open>What \<open>balloc\<close> does when \<open>b\<close> is the block it finds: the block is marked and zeroed.\<close>

definition balloced :: "nat \<Rightarrow> 'a kinode_scheme \<Rightarrow> nat \<Rightarrow> block" where
  "balloced b s = (bview s)(BBLOCK b (sb s) := bmap_set (b mod BPB) (bview s (BBLOCK b (sb s))), b := (\<lambda>_. 0))"

lemma chunk_block: "bi < BPB \<Longrightarrow> BBLOCK (k * BPB + bi) p = BBLOCK (k * BPB) p \<and> (k * BPB + bi) mod BPB = bi"
  by (simp add: BBLOCK_def)

lemma layout_cong:
  assumes "bview t = bview s" and "klog.more t = klog.more s" and "disksize t = disksize s"
  shows "bused t = bused s" "fs_layout t L = fs_layout s L" "balloced b t = balloced b s"
proof -
  note M = more_kinode [OF assms(2)]
  show B: "bused t = bused s" by (rule ext) (simp add: bused_def assms(1) M)
  show "fs_layout t L = fs_layout s L" by (simp add: fs_layout_def data_block_def B M assms(3))
  show "balloced b t = balloced b s" by (simp add: balloced_def assms(1) M)
qed

text \<open>One turn of the loop: the chunk of the free map that starts with block \<open>k * BPB\<close>.\<close>

lemma balloc_chunk_found:
  assumes "fs_trans s L hs" and "fs_layout s L" and "length hs + 2 < LOGSIZE" and "bi < BPB"
    and "k * BPB + bi < sb_size (sb s)" and "\<not> bused s (k * BPB + bi)" and "\<And>j. j < bi \<Longrightarrow> bused s (k * BPB + j)"
  shows "\<exists>t. balloc_loop 1 (k * BPB # bs) s = Ret (k * BPB + bi) t \<and> fs_step s t L hs 2 (balloced (k * BPB + bi) s)"
proof -
  let ?b = "k * BPB + bi" and ?B = "BBLOCK (k * BPB) (sb s)"
  have C: "BBLOCK (k * BPB + j) (sb s) = ?B" "(k * BPB + j) mod BPB = j" if "j < BPB" for j
    using chunk_block [OF that] by simp_all
  have db: "data_block s L ?B" "data_block s L ?b"
    using assms(2,5,6) C(1) [OF assms(4)] by (auto simp: fs_layout_def)
  obtain i u where u: "bread 1 ?B s = Ret i u" "b_data (bufs u i) = bview s ?B" "klog.more u = klog.more s"
      "\<forall>f. length hs + 1 < LOGSIZE \<longrightarrow>
        (\<exists>v t. log_write i (upd_data i f u) = Ret () v \<and> klog.more v = klog.more s \<and> brelse i v = Ret () t \<and> fs_step s t L hs 1 ((bview s)(?B := f (bview s ?B))))"
    using db(1) unfolding data_block_def by (elim conjE) (rule open_block [OF assms(1)])
  have us: "sb u = sb s" using more_kinode(1) [OF u(3)] .
  have bit: "bmap_bit (bview s ?B) j = bused s (k * BPB + j)" if "j < BPB" for j using C [OF that] by (simp add: bused_def)
  have sc: "scan (\<lambda>bi. k * BPB + bi < sb_size (sb u) \<and> \<not> bmap_bit (b_data (bufs u i)) bi) BPB = Some bi"
    using assms(4-7) bit unfolding us u(2) by (intro scan_SomeI) auto
  have "length hs + 1 < LOGSIZE" using assms(3) by simp
  then obtain v t where t: "log_write i (upd_data i (bmap_set bi) u) = Ret () v" "klog.more v = klog.more s" "brelse i v = Ret () t"
      "fs_step s t L hs 1 ((bview s)(?B := bmap_set bi (bview s ?B)))"
    using u(4) [rule_format, of "bmap_set bi"] by blast
  from fs_stepE [OF t(4)] obtain hs' where h: "fs_trans t L hs'" "length hs' \<le> length hs + 1"
      "bview t = (bview s)(?B := bmap_set bi (bview s ?B))" "klog.more t = klog.more s" "disksize t = disksize s" by blast
  have dt: "?b < disksize t" "off_log L ?b" "?b \<noteq> 1" "length hs' + 1 < LOGSIZE"
    using db(2) h(2,5) assms(3) by (simp_all add: data_block_def)
  obtain w where w: "bindK (bread 1 ?b t) (\<lambda>i s. bindK (log_write i (upd_data i (\<lambda>_ _. 0) s)) (\<lambda>_ s. brelse i s)) = Ret () w"
      "fs_step t w L hs' 1 ((bview t)(?b := (\<lambda>_ _. 0) (bview t ?b)))" by (rule update_block [OF h(1) dt])
  have "fs_step s w L hs (1 + 1) ((bview t)(?b := (\<lambda>_. 0)))" using fs_step_trans [OF h(2,4,5) w(2)] .
  moreover have "(bview t)(?b := (\<lambda>_. 0)) = balloced ?b s"
    unfolding balloced_def h(3) using C [OF assms(4)] by simp
  moreover have "balloc_loop 1 (k * BPB # bs) s = Ret ?b w"
    using u(1) sc t(1,3) w(1) by (simp add: bzero_def)
  moreover have "(1 + 1 :: nat) = 2" by simp
  ultimately show ?thesis by metis
qed

lemma balloc_chunk_full:
  assumes "fs_trans s L hs" and "fs_layout s L" and "k * BPB < sb_size (sb s)"
    and "\<And>j. j < BPB \<Longrightarrow> k * BPB + j < sb_size (sb s) \<Longrightarrow> bused s (k * BPB + j)"
  shows "\<exists>t. balloc_loop 1 (k * BPB # bs) s = balloc_loop 1 bs t \<and> fs_step s t L hs 0 (bview s)"
proof -
  let ?B = "BBLOCK (k * BPB) (sb s)"
  have db: "data_block s L ?B" using assms(2,3) by (auto simp: fs_layout_def)
  obtain i u where u: "bread 1 ?B s = Ret i u" "b_data (bufs u i) = bview s ?B" "klog.more u = klog.more s"
      "\<exists>t. brelse i u = Ret () t \<and> fs_step s t L hs 0 (bview s)"
    using db unfolding data_block_def by (elim conjE) (rule open_block [OF assms(1)])
  have us: "sb u = sb s" using more_kinode(1) [OF u(3)] .
  have "bmap_bit (bview s ?B) j = bused s (k * BPB + j)" if "j < BPB" for j using chunk_block [OF that] by (simp add: bused_def)
  then have "scan (\<lambda>bi. k * BPB + bi < sb_size (sb u) \<and> \<not> bmap_bit (b_data (bufs u i)) bi) BPB = None"
    using assms(4) unfolding us u(2) scan_None_iff by auto
  then show ?thesis using u(1,4) by auto
qed

lemma balloc_loop_run:
  assumes "fs_trans s L hs" and "fs_layout s L" and "length hs + 2 < LOGSIZE" and "sb_size (sb s) \<le> (k + n) * BPB"
    and "\<And>b. b < k * BPB \<Longrightarrow> b < sb_size (sb s) \<Longrightarrow> bused s b" and "k * BPB < sb_size (sb s) \<or> n = 0"
    and "n \<noteq> 0 \<Longrightarrow> (k + n - 1) * BPB < sb_size (sb s)"
  shows "case scan (\<lambda>b. \<not> bused s b) (sb_size (sb s)) of
      None \<Rightarrow> balloc_loop 1 (map (\<lambda>k. k * BPB) [k..<k + n]) s = Panic ''balloc: out of blocks''
    | Some b \<Rightarrow> \<exists>t. balloc_loop 1 (map (\<lambda>k. k * BPB) [k..<k + n]) s = Ret b t \<and> fs_step s t L hs 2 (balloced b s)"
  using assms
proof (induction n arbitrary: k s hs)
  case 0
  then have "scan (\<lambda>b. \<not> bused s b) (sb_size (sb s)) = None" by (auto simp: scan_None_iff)
  then show ?case by simp
next
  case (Suc n)
  let ?N = "sb_size (sb s)"
  have kN: "k * BPB < ?N" using Suc.prems(6) by simp
  have l: "map (\<lambda>k. k * BPB) [k..<k + Suc n] = k * BPB # map (\<lambda>k. k * BPB) [Suc k..<Suc k + n]" by (simp add: upt_rec)
  show ?case
  proof (cases "scan (\<lambda>j. k * BPB + j < ?N \<and> \<not> bused s (k * BPB + j)) BPB")
    case (Some bi)
    note S = scan_SomeD [OF Some]
    have low: "bused s (k * BPB + j)" if "j < bi" for j using S(2) S(3) [OF that] that by auto
    have "scan (\<lambda>b. \<not> bused s b) ?N = Some (k * BPB + bi)"
    proof (rule scan_SomeI)
      show "\<not> \<not> bused s j" if "j < k * BPB + bi" for j
        using that Suc.prems(5) [of j] low [of "j - k * BPB"] S(2) by (cases "j < k * BPB") auto
    qed (use S(2) in auto)
    then show ?thesis
      unfolding l using balloc_chunk_found [OF Suc.prems(1-3) S(1) conjunct1 [OF S(2)] conjunct2 [OF S(2)] low] by simp
  next
    case None
    then have full: "bused s (k * BPB + j)" if "j < BPB" "k * BPB + j < ?N" for j using that by (auto simp: scan_None_iff)
    obtain t where t: "balloc_loop 1 (k * BPB # map (\<lambda>k. k * BPB) [Suc k..<Suc k + n]) s = balloc_loop 1 (map (\<lambda>k. k * BPB) [Suc k..<Suc k + n]) t"
        "fs_step s t L hs 0 (bview s)"
      using balloc_chunk_full [OF Suc.prems(1,2) kN full] by blast
    from fs_stepE [OF t(2)] obtain hs' where h: "fs_trans t L hs'" "length hs' \<le> length hs + 0" "bview t = bview s"
        "klog.more t = klog.more s" "disksize t = disksize s" by blast
    note C = layout_cong [OF h(3-5)] and M = more_kinode [OF h(4)]
    have below: "bused t b" if "b < Suc k * BPB" "b < sb_size (sb t)" for b
      using that Suc.prems(5) [of b] full [of "b - k * BPB"] by (cases "b < k * BPB") (auto simp: C M)
    have "Suc k * BPB < sb_size (sb t) \<or> n = 0"
    proof (cases n)
      case (Suc m)
      then have "Suc k * BPB \<le> (k + Suc n - 1) * BPB" by simp
      then show ?thesis using Suc.prems(7) M by simp
    qed simp
    then have IH: "case scan (\<lambda>b. \<not> bused t b) (sb_size (sb t)) of
        None \<Rightarrow> balloc_loop 1 (map (\<lambda>k. k * BPB) [Suc k..<Suc k + n]) t = Panic ''balloc: out of blocks''
      | Some b \<Rightarrow> \<exists>u. balloc_loop 1 (map (\<lambda>k. k * BPB) [Suc k..<Suc k + n]) t = Ret b u \<and> fs_step t u L hs' 2 (balloced b t)"
      using Suc.prems(2,3,4,7) h(2) below by (intro Suc.IH [OF h(1)]) (auto simp: C M)
    have step: "fs_step s u L hs 2 W" if "fs_step t u L hs' 2 W" for u W
      using fs_step_trans [OF h(2,4,5) that] by (simp only: add_0)
    show ?thesis unfolding l t(1)
    proof (cases "scan (\<lambda>b. \<not> bused s b) ?N")
      case None
      then show "case scan (\<lambda>b. \<not> bused s b) ?N of
        None \<Rightarrow> balloc_loop 1 (map (\<lambda>k. k * BPB) [Suc k..<Suc k + n]) t = Panic ''balloc: out of blocks''
      | Some b \<Rightarrow> \<exists>u. balloc_loop 1 (map (\<lambda>k. k * BPB) [Suc k..<Suc k + n]) t = Ret b u \<and> fs_step s u L hs 2 (balloced b s)"
        using IH by (simp only: C M option.case)
    next
      case (Some b)
      then obtain u where "balloc_loop 1 (map (\<lambda>k. k * BPB) [Suc k..<Suc k + n]) t = Ret b u" "fs_step t u L hs' 2 (balloced b s)"
        using IH by (simp only: C M option.case) blast
      then show "case scan (\<lambda>b. \<not> bused s b) ?N of
        None \<Rightarrow> balloc_loop 1 (map (\<lambda>k. k * BPB) [Suc k..<Suc k + n]) t = Panic ''balloc: out of blocks''
      | Some b \<Rightarrow> \<exists>u. balloc_loop 1 (map (\<lambda>k. k * BPB) [Suc k..<Suc k + n]) t = Ret b u \<and> fs_step s u L hs 2 (balloced b s)"
        unfolding Some option.case using step by blast
    qed
  qed
qed

text \<open>The chunks that \<open>balloc\<close> looks at cover the device, and every one of them begins inside it.\<close>

lemma chunks:
  fixes N :: nat
  defines "n \<equiv> (N + BPB - 1) div BPB"
  shows "N \<le> n * BPB" "n \<noteq> 0 \<Longrightarrow> (n - 1) * BPB < N" "0 < N \<or> n = 0"
proof -
  have P: "0 < BPB" by (simp add: BPB_def BSIZE_def)
  have "N + BPB - 1 = BPB * n + (N + BPB - 1) mod BPB" by (simp add: n_def)
  moreover have "(N + BPB - 1) mod BPB < BPB" using P by simp
  ultimately have "N + BPB - 1 < BPB * n + BPB" by linarith
  then show "N \<le> n * BPB" using P by (simp add: mult.commute)
  have le: "BPB * n \<le> N + BPB - 1" by (simp add: n_def)
  show "(n - 1) * BPB < N" if nz: "n \<noteq> 0"
  proof -
    obtain m where m: "n = Suc m" using nz by (cases n) auto
    show ?thesis using le P unfolding m by (simp add: mult.commute)
  qed
  show "0 < N \<or> n = 0" using P by (cases N) (auto simp: n_def)
qed

lemma balloc_run:
  assumes "fs_trans s L hs" and "fs_layout s L" and "length hs + 2 < LOGSIZE"
  shows "case scan (\<lambda>b. \<not> bused s b) (sb_size (sb s)) of None \<Rightarrow> balloc 1 s = Panic ''balloc: out of blocks''
      | Some b \<Rightarrow> \<exists>t. balloc 1 s = Ret b t \<and> fs_step s t L hs 2 (balloced b s)"
  unfolding balloc_def
  using balloc_loop_run [OF assms, of 0 "(sb_size (sb s) + BPB - 1) div BPB"] chunks [of "sb_size (sb s)"]
  by (simp only: add_0 mult_zero_left not_less_zero) simp

lemma balloced_facts:
  assumes "fs_layout s L" and b: "b < sb_size (sb s)" "\<not> bused s b" and st: "fs_step s t L hs 2 (balloced b s)"
  shows "c < sb_size (sb s) \<Longrightarrow> bused t c \<longleftrightarrow> bused s c \<or> c = b" and "fs_layout t L"
proof -
  have V: "bview t = balloced b s" "klog.more t = klog.more s" "disksize t = disksize s" using st by (simp_all add: fs_step_def)
  note M = more_kinode [OF V(2)]
  show u: "bused t c \<longleftrightarrow> bused s c \<or> c = b" if "c < sb_size (sb s)" for c
  proof -
    have "BBLOCK c (sb s) \<noteq> b" using that assms(1) b by (auto simp: fs_layout_def)
    moreover have "b mod BPB < BPB" by (simp add: BPB_def BSIZE_def)
    moreover have "c = b \<longleftrightarrow> c div BPB = b div BPB \<and> c mod BPB = b mod BPB" by (metis div_mult_mod_eq)
    ultimately show ?thesis
      using bblock_eq [of c b "sb s"] by (auto simp: bused_def V(1) M balloced_def bmap_bit_set)
  qed
  show "fs_layout t L" using assms(1) u by (auto simp: fs_layout_def data_block_def M V(3))
qed

lemma bfree_run:
  assumes "fs_trans s L hs" and "fs_layout s L" and "length hs + 1 < LOGSIZE" and "b < sb_size (sb s)"
  shows "if bused s b then \<exists>t. bfree 1 b s = Ret () t \<and> (\<forall>c. bused t c \<longleftrightarrow> bused s c \<and> c \<noteq> b)
          \<and> (\<forall>c. c \<noteq> BBLOCK b (sb s) \<longrightarrow> bview t c = bview s c) \<and> fs_step s t L hs 1 (bview t)
        else bfree 1 b s = Panic ''freeing free block''"
proof -
  have db: "data_block s L (BBLOCK b (sb s))" using assms(2,4) by (simp add: fs_layout_def)
  obtain i u where u: "bread 1 (BBLOCK b (sb s)) s = Ret i u" "b_data (bufs u i) = bview s (BBLOCK b (sb s))" "klog.more u = klog.more s"
      "\<forall>f. length hs + 1 < LOGSIZE \<longrightarrow>
        (\<exists>v t. log_write i (upd_data i f u) = Ret () v \<and> klog.more v = klog.more s \<and> brelse i v = Ret () t
           \<and> fs_step s t L hs 1 ((bview s)(BBLOCK b (sb s) := f (bview s (BBLOCK b (sb s))))))"
    using db unfolding data_block_def by (elim conjE) (rule open_block [OF assms(1)])
  show ?thesis
  proof (cases "bused s b")
    case True
    obtain v t where t: "log_write i (upd_data i (bmap_clear (b mod BPB)) u) = Ret () v" "brelse i v = Ret () t"
        "fs_step s t L hs 1 ((bview s)(BBLOCK b (sb s) := bmap_clear (b mod BPB) (bview s (BBLOCK b (sb s)))))"
      using u(4) [rule_format, OF assms(3), of "bmap_clear (b mod BPB)"] by blast
    have V: "bview t = (bview s)(BBLOCK b (sb s) := bmap_clear (b mod BPB) (bview s (BBLOCK b (sb s))))" "klog.more t = klog.more s"
      using t(3) by (simp_all add: fs_step_def)
    have "bfree 1 b s = Ret () t" using u(1,2) t(1,2) True by (simp add: bfree_def Let_def bused_def)
    moreover have "bused t c \<longleftrightarrow> bused s c \<and> c \<noteq> b" for c by (rule bused_clear [OF V(1) more_kinode(1) [OF V(2)]])
    moreover have "fs_step s t L hs 1 (bview t)" using t(3) V(1) by simp
    ultimately show ?thesis using True V(1) by auto
  next
    case False
    then show ?thesis using u(1,2) by (simp add: bfree_def Let_def bused_def)
  qed
qed

section \<open>Properties\<close>

text \<open>
  C38: allocation of disk blocks. \<open>balloc\<close> finds a block that is not in use, marks it, and nothing else, as used and fills
  it with zeros; it panics only when all blocks are in use. \<open>bfree\<close> marks a block as free, and panics when it is free
  already. Both record their changes in the running transaction, and leave the rest of the disk and all inodes alone.
\<close>

theorem balloc_bfree_correct:
  assumes "fs_trans s L hs" and "fs_layout s L" and "length hs + 2 < LOGSIZE"
  defines "N \<equiv> sb_size (sb s)"
  shows "(if \<forall>b. b < N \<longrightarrow> bused s b then balloc 1 s = Panic ''balloc: out of blocks''
     else \<exists>b t. balloc 1 s = Ret b t \<and> b < N \<and> \<not> bused s b \<and> (\<forall>c. c < N \<longrightarrow> (bused t c \<longleftrightarrow> bused s c \<or> c = b))
       \<and> bview t b = (\<lambda>_. 0) \<and> (\<forall>c. c \<noteq> b \<and> c \<noteq> BBLOCK b (sb s) \<longrightarrow> bview t c = bview s c) \<and> fs_step s t L hs 2 (bview t) \<and> fs_layout t L)
   \<and> (\<forall>b. b < N \<longrightarrow>
       (if bused s b then \<exists>t. bfree 1 b s = Ret () t \<and> (\<forall>c. bused t c \<longleftrightarrow> bused s c \<and> c \<noteq> b)
          \<and> (\<forall>c. c \<noteq> BBLOCK b (sb s) \<longrightarrow> bview t c = bview s c) \<and> fs_step s t L hs 1 (bview t)
        else bfree 1 b s = Panic ''freeing free block''))"
proof (intro conjI allI impI)
  have h: "length hs + 1 < LOGSIZE" using assms(3) by simp
  show "if \<forall>b. b < N \<longrightarrow> bused s b then balloc 1 s = Panic ''balloc: out of blocks''
     else \<exists>b t. balloc 1 s = Ret b t \<and> b < N \<and> \<not> bused s b \<and> (\<forall>c. c < N \<longrightarrow> (bused t c \<longleftrightarrow> bused s c \<or> c = b))
       \<and> bview t b = (\<lambda>_. 0) \<and> (\<forall>c. c \<noteq> b \<and> c \<noteq> BBLOCK b (sb s) \<longrightarrow> bview t c = bview s c) \<and> fs_step s t L hs 2 (bview t) \<and> fs_layout t L"
  proof (cases "scan (\<lambda>b. \<not> bused s b) N")
    case None
    have "balloc 1 s = Panic ''balloc: out of blocks''" using balloc_run [OF assms(1-3)] unfolding N_def [symmetric] None option.case .
    moreover have "\<forall>b. b < N \<longrightarrow> bused s b" using None by (simp add: scan_None_iff)
    ultimately show ?thesis by simp
  next
    case (Some b)
    note S = scan_SomeD [OF Some]
    obtain t where t: "balloc 1 s = Ret b t" "fs_step s t L hs 2 (balloced b s)"
      using balloc_run [OF assms(1-3)] unfolding N_def [symmetric] Some option.case by blast
    have V: "bview t = balloced b s" using t(2) by (simp add: fs_step_def)
    have "bview t b = (\<lambda>_. 0)" "\<forall>c. c \<noteq> b \<and> c \<noteq> BBLOCK b (sb s) \<longrightarrow> bview t c = bview s c" unfolding V balloced_def by simp_all
    then show ?thesis
      using t S V balloced_facts [OF assms(2), of b t hs] by (auto simp: N_def)
  qed
  fix b assume "b < N"
  then show "if bused s b then \<exists>t. bfree 1 b s = Ret () t \<and> (\<forall>c. bused t c \<longleftrightarrow> bused s c \<and> c \<noteq> b)
          \<and> (\<forall>c. c \<noteq> BBLOCK b (sb s) \<longrightarrow> bview t c = bview s c) \<and> fs_step s t L hs 1 (bview t)
        else bfree 1 b s = Panic ''freeing free block''"
    unfolding N_def by (rule bfree_run [OF assms(1,2) h])
qed

text \<open>A file system whose first 64 blocks are in use; its free map is block 45.\<close>

definition disk1 :: "nat \<Rightarrow> block" where
  "disk1 = disk0(45 := (\<lambda>i. if i < 8 then 0xFF else 0))"

definition kinode1 :: kinode where
  "kinode1 = klog.extend (klog_boot disk1) (kinode_ext
     \<lparr>sb_size = 1000, sb_nblocks = 936, sb_ninodes = 80, sb_nlog = 30, sb_logstart = 2, sb_inodestart = 33, sb_bmapstart = 45\<rparr>
     (\<lambda>_. \<lparr>i_dev = 0, i_inum = 0, i_ref = 0, i_valid = False, i_type = 0, i_major = 0, i_minor = 0, i_nlink = 0, i_size = 0, i_addrs = (\<lambda>_. 0)\<rparr>) ())"

lemma kinode1_fields [simp]:
  "kbio.truncate kinode1 = kbio.truncate (klog_boot disk1)" "disksize kinode1 = 1000" "disk kinode1 = disk1" "lh_n kinode1 = 0"
  "log_start kinode1 = 2" "log_size kinode1 = 30" "log_outstanding kinode1 = 1" "log_dev kinode1 = 1" "sb_size (sb kinode1) = 1000"
  "sb_bmapstart (sb kinode1) = 45" "bufs kinode1 = clean_bufs"
  by (simp_all add: kinode1_def klog.extend_def kbio.truncate_def klog_boot_def)

lemma kinode1_trans: "fs_trans kinode1 2 []" and kinode1_view: "bview kinode1 = disk1"
proof -
  have k: "kbio.truncate kinode1 = kbio.truncate (klog_boot disk1)" by simp
  note B = bstate_fields [OF k]
  have K: "bstate (klog_boot disk1) Map.empty" "Collect (bpinned (klog_boot disk1)) = {}"
    using booted_klog_boot [of disk1] by (simp_all add: booted_def)
  have "log_disk 1000 2 [] disk1" using disk0_log by (simp add: log_disk_def disk1_def)
  then show "fs_trans kinode1 2 []"
    using K unfolding fs_trans_def in_trans_def B by (simp add: logged_def NBUF_def LOGSIZE_def MAXOPBLOCKS_def)
  show "bview kinode1 = disk1" unfolding B using booted_view [OF booted_klog_boot [of disk1]] by (simp add: klog_boot_def)
qed

lemma kinode1_used: "b < 1000 \<Longrightarrow> bused kinode1 b \<longleftrightarrow> b < 64"
proof -
  assume b: "b < 1000"
  have "bit (0xFF :: byte) (b mod 8)"
  proof -
    have "bit (mask 8 :: byte) (b mod 8)" by (simp add: bit_mask_iff)
    then show ?thesis by (simp add: mask_eq_exp_minus_1)
  qed
  then show ?thesis using b by (auto simp: bused_def kinode1_view BBLOCK_def BPB_def BSIZE_def bmap_bit_def disk1_def)
qed

theorem balloc_bfree_correct_witness:
  "\<exists>b t. balloc 1 kinode1 = Ret b t \<and> 64 \<le> b \<and> b < 1000 \<and> bused t b \<and> bview t b = (\<lambda>_. 0)"
proof -
  have l: "fs_layout kinode1 2"
    using kinode1_used by (auto simp: fs_layout_def data_block_def BBLOCK_def BPB_def BSIZE_def off_log_def LOGSIZE_def MAXOPBLOCKS_def)
  have h: "length ([] :: nat list) + 2 < LOGSIZE" by (simp add: LOGSIZE_def MAXOPBLOCKS_def)
  have n: "\<not> (\<forall>b. b < sb_size (sb kinode1) \<longrightarrow> bused kinode1 b)" using kinode1_used [of 64] by (auto intro!: exI [of _ 64])
  obtain b t where "balloc 1 kinode1 = Ret b t" and b: "b < sb_size (sb kinode1)" "\<not> bused kinode1 b"
      and u: "\<forall>c. c < sb_size (sb kinode1) \<longrightarrow> (bused t c \<longleftrightarrow> bused kinode1 c \<or> c = b)" and "bview t b = (\<lambda>_. 0)"
    using conjunct1 [OF balloc_bfree_correct [OF kinode1_trans l h]] unfolding if_not_P [OF n] by blast
  moreover have "64 \<le> b" "b < 1000" using b kinode1_used [of b] by auto
  moreover have "bused t b" using u b(1) by blast
  ultimately show ?thesis by blast
qed

end
