(* ===== verification/Sched.thy ===== *)
theory Sched
  imports Proc
begin

text \<open>
  Three of the four schedulers of proc.c: round robin (\<open>default_scheduler\<close>), by priority
  (\<open>priority_scheduler\<close>) and first come, first served (\<open>fcfs_scheduler\<close>). A pass of a scheduler
  runs until it switches to a process, \<open>Ret (Some p)\<close>, or has seen the whole table, \<open>Ret None\<close>. The
  \<open>_resume\<close> functions are the code behind \<open>swtch\<close>: the process has come back and the loop goes on.
  The step relation at the end composes them with the process operations of theory Proc.
\<close>

section \<open>Model\<close>

definition scan_from :: "(nat \<Rightarrow> bool) \<Rightarrow> nat \<Rightarrow> nat \<Rightarrow> nat option" where
  "scan_from P i n = List.find P [i..<n]"

definition sched_done :: "'a kproc_scheme \<Rightarrow> (nat option, 'a kproc_scheme) outcome" where
  "sched_done s = bindK (release PtableLk s) (\<lambda>_ s. Ret None s)"

text \<open>\<open>c->proc = p; switchuvm(p); p->state = RUNNING;\<close>\<close>

definition dispatch :: "nat \<Rightarrow> 'a kproc_scheme \<Rightarrow> (nat option, 'a kproc_scheme) outcome" where
  "dispatch p s =
     bindK (switchuvm p (s\<lparr>cpu_proc := Some p\<rparr>)) (\<lambda>_ s.
     Ret (Some p) (upd_proc p (\<lambda>q. q\<lparr>p_state := RUNNING\<rparr>) s))"

definition undispatch :: "'a kproc_scheme \<Rightarrow> 'a kproc_scheme" where
  "undispatch s = (switchkvm s)\<lparr>cpu_proc := None\<rparr>"

definition default_from :: "nat \<Rightarrow> 'a kproc_scheme \<Rightarrow> (nat option, 'a kproc_scheme) outcome" where
  "default_from i s =
     (case scan_from (\<lambda>j. pst s j = RUNNABLE) i NPROC of
        None \<Rightarrow> sched_done s
      | Some p \<Rightarrow> dispatch p s)"

definition default_scheduler :: "'a kproc_scheme \<Rightarrow> (nat option, 'a kproc_scheme) outcome" where
  "default_scheduler s = bindK (acquire PtableLk s) (\<lambda>_ s. default_from 0 s)"

definition default_resume :: "nat \<Rightarrow> 'a kproc_scheme \<Rightarrow> (nat option, 'a kproc_scheme) outcome" where
  "default_resume p s = default_from (p + 1) (undispatch s)"

text \<open>The inner loop: the runnable process with the smallest key, the first such one after \<open>p\<close>.\<close>

definition pick :: "(proc \<Rightarrow> 'k::linorder) \<Rightarrow> nat \<Rightarrow> (nat \<Rightarrow> proc) \<Rightarrow> nat" where
  "pick key p ps =
     fold (\<lambda>p1 highP. if p_state (ps p1) \<noteq> RUNNABLE then highP
                       else if key (ps highP) > key (ps p1) then p1 else highP) [0..<NPROC] p"

definition priority_from :: "nat \<Rightarrow> 'a kproc_scheme \<Rightarrow> (nat option, 'a kproc_scheme) outcome" where
  "priority_from i s =
     (case scan_from (\<lambda>j. pst s j = RUNNABLE) i NPROC of
        None \<Rightarrow> sched_done s
      | Some p \<Rightarrow> dispatch (pick p_priority p (procs s)) s)"

definition priority_scheduler :: "'a kproc_scheme \<Rightarrow> (nat option, 'a kproc_scheme) outcome" where
  "priority_scheduler s = bindK (acquire PtableLk s) (\<lambda>_ s. priority_from 0 s)"

definition priority_resume :: "nat \<Rightarrow> 'a kproc_scheme \<Rightarrow> (nat option, 'a kproc_scheme) outcome" where
  "priority_resume p s = priority_from (p + 1) (undispatch s)"

text \<open>
  \<open>fcfs_scheduler\<close> may decide not to run the process it picked and goes on behind it, possibly
  at an earlier entry; \<open>None\<close> is a loop that does not end. The message it prints goes to the
  console.
\<close>

definition fcfs_may_run :: "nat \<Rightarrow> 'a kproc_scheme \<Rightarrow> bool" where
  "fcfs_may_run p s =
     (case running_p s of
        None \<Rightarrow> True
      | Some r \<Rightarrow> (pst s r = RUNNING \<and> p_ctime (procs s p) < p_ctime (procs s r)) \<or> pst s r \<noteq> RUNNING)"

definition fcfs_message :: "nat \<Rightarrow> 'a kproc_scheme \<Rightarrow> (unit, 'a kproc_scheme) outcome" where
  "fcfs_message p s =
     (case running_p s of
        None \<Rightarrow> Ret () s
      | Some r \<Rightarrow>
          if p_pid (procs s p) > 2 \<and> p_pid (procs s r) \<noteq> p_pid (procs s p) \<and> p_pid (procs s r) > 2
          then cprintf (''Running process %d .....'' @ [CHR 0x0A]) [PInt (word_of_int (p_pid (procs s r)))] s
          else Ret () s)"

definition fcfs_run :: "nat \<Rightarrow> 'a kproc_scheme \<Rightarrow> (nat option, 'a kproc_scheme) outcome" where
  "fcfs_run p s =
     bindK (fcfs_message p s) (\<lambda>_ s.
     bindK (dispatch p s) (\<lambda>r s. Ret r (s\<lparr>running_p := Some p\<rparr>)))"

partial_function (option) fcfs_from ::
  "nat \<Rightarrow> 'a kproc_scheme \<Rightarrow> (nat option, 'a kproc_scheme) outcome option" where
  "fcfs_from i s =
     (case scan_from (\<lambda>j. pst s j = RUNNABLE) i NPROC of
        None \<Rightarrow> Some (sched_done s)
      | Some p \<Rightarrow>
          (let p = pick p_ctime p (procs s)
           in if fcfs_may_run p s then Some (fcfs_run p s) else fcfs_from (p + 1) s))"

definition fcfs_scheduler :: "'a kproc_scheme \<Rightarrow> (nat option, 'a kproc_scheme) outcome option" where
  "fcfs_scheduler s =
     (case acquire PtableLk s of
        Ret _ s \<Rightarrow> fcfs_from 0 s
      | Panic m \<Rightarrow> Some (Panic m)
      | Fault m \<Rightarrow> Some (Fault m)
      | Swtch s \<Rightarrow> Some (Swtch s))"

definition fcfs_resume :: "nat \<Rightarrow> 'a kproc_scheme \<Rightarrow> (nat option, 'a kproc_scheme) outcome option" where
  "fcfs_resume p s = fcfs_from (p + 1) (undispatch s)"

section \<open>The process that is picked\<close>

lemma scan_from_Some_iff:
  "scan_from P i n = Some p \<longleftrightarrow> i \<le> p \<and> p < n \<and> P p \<and> (\<forall>j. i \<le> j \<and> j < p \<longrightarrow> \<not> P j)"
proof
  assume "scan_from P i n = Some p"
  then obtain k where k: "k < n - i" "P (i + k)" "p = i + k" "\<And>j. j < k \<Longrightarrow> \<not> P (i + j)"
    by (auto simp: scan_from_def find_Some_iff)
  then have "\<not> P j" if "i \<le> j" "j < p" for j using that k(4) [of "j - i"] by simp
  with k show "i \<le> p \<and> p < n \<and> P p \<and> (\<forall>j. i \<le> j \<and> j < p \<longrightarrow> \<not> P j)" by auto
next
  assume "i \<le> p \<and> p < n \<and> P p \<and> (\<forall>j. i \<le> j \<and> j < p \<longrightarrow> \<not> P j)"
  then show "scan_from P i n = Some p"
    by (auto simp: scan_from_def find_Some_iff intro!: exI [of _ "p - i"])
qed

lemma scan_from_None_iff: "scan_from P i n = None \<longleftrightarrow> (\<forall>j. i \<le> j \<and> j < n \<longrightarrow> \<not> P j)"
  by (auto simp: scan_from_def find_None_iff)

text \<open>What the inner loop has found after \<open>n\<close> turns, started with \<open>p\<close>.\<close>

definition best :: "(proc \<Rightarrow> 'k::linorder) \<Rightarrow> nat \<Rightarrow> (nat \<Rightarrow> proc) \<Rightarrow> nat \<Rightarrow> nat \<Rightarrow> bool" where
  "best key p ps n h \<longleftrightarrow>
     p_state (ps h) = RUNNABLE \<and> (h = p \<or> h < n \<and> key (ps h) < key (ps p))
   \<and> (\<forall>j<n. p_state (ps j) = RUNNABLE \<longrightarrow> key (ps h) \<le> key (ps j) \<and> (h \<noteq> p \<and> key (ps j) = key (ps h) \<longrightarrow> h \<le> j))"

lemma best_unique:
  assumes "best key p ps n h" and "best key p ps n h'" and "p < n"
  shows "h = h'"
  using assms unfolding best_def by (metis le_antisym leD order.antisym order.strict_iff_order)

lemma pick_best:
  assumes "p_state (ps p) = RUNNABLE"
  shows "best key p ps NPROC (pick key p ps)"
proof -
  have "best key p ps n (fold (\<lambda>p1 highP. if p_state (ps p1) \<noteq> RUNNABLE then highP
                       else if key (ps highP) > key (ps p1) then p1 else highP) [0..<n] p)" for n
  proof (induction n)
    case (Suc n)
    then show ?case by (auto simp: best_def less_Suc_eq intro: less_imp_le)
  qed (use assms in \<open>simp add: best_def\<close>)
  then show ?thesis by (simp add: pick_def)
qed

lemma pick_lt: "p < NPROC \<Longrightarrow> p_state (ps p) = RUNNABLE \<Longrightarrow> pick key p ps < NPROC"
  using pick_best [of ps p key] by (auto simp: best_def)

lemma pick_eqI: "p < NPROC \<Longrightarrow> p_state (ps p) = RUNNABLE \<Longrightarrow> best key p ps NPROC h \<Longrightarrow> pick key p ps = h"
  using pick_best best_unique by blast

section \<open>Switching to a process\<close>

definition runnable_ok :: "'a kproc_scheme \<Rightarrow> bool" where
  "runnable_ok s \<longleftrightarrow> (\<forall>i<NPROC. pst s i = RUNNABLE \<longrightarrow> p_kstack (procs s i) \<noteq> 0 \<and> p_pgdir (procs s i) \<noteq> 0)"

text \<open>\<open>t\<close> is \<open>s\<close> with the CPU switched to \<open>p\<close>.\<close>

definition dispatched :: "nat \<Rightarrow> 'a kproc_scheme \<Rightarrow> 'a kproc_scheme \<Rightarrow> bool" where
  "dispatched p s t \<longleftrightarrow>
     pst s p = RUNNABLE \<and> cpu_proc t = Some p \<and> held t = [PtableLk]
   \<and> procs t = (procs s)(p := (procs s p)\<lparr>p_state := RUNNING\<rparr>)
   \<and> cr3 t = V2P (p_pgdir (procs s p)) \<and> ts_esp0 t = p_kstack (procs s p) + KSTACKSIZE
   \<and> nextpid t = nextpid s \<and> initproc t = initproc s"

lemma dispatch_Ret:
  assumes "pst s p = RUNNABLE" and "held s = [PtableLk]" and "p_kstack (procs s p) \<noteq> 0" "p_pgdir (procs s p) \<noteq> 0"
  shows "\<exists>t. dispatch p s = Ret (Some p) t \<and> dispatched p s t"
  using assms by (simp add: dispatch_def switchuvm_def dispatched_def)

lemma dispatch_RetD:
  assumes "dispatch p s = Ret r t" and "pst s p = RUNNABLE" and "held s = [PtableLk]"
  shows "r = Some p" and "dispatched p s t"
  using assms by (auto simp: dispatch_def switchuvm_def dispatched_def split: if_splits)

lemma fcfs_message_Ret: "ConsLk \<notin> set (held s) \<Longrightarrow> \<exists>out. fcfs_message p s = Ret () (s\<lparr>conout := out\<rparr>)"
proof -
  assume h: "ConsLk \<notin> set (held s)"
  have "fmt_ok (''Running process %d .....'' @ [CHR 0x0A]) [PInt x]" for x by simp
  from cprintf_Ret [OF this h] show ?thesis
    by (cases "running_p s") (auto simp: fcfs_message_def intro: exI [of _ "conout s"])
qed

lemma fcfs_run_Ret:
  assumes "pst s p = RUNNABLE" and "held s = [PtableLk]" and "p_kstack (procs s p) \<noteq> 0" "p_pgdir (procs s p) \<noteq> 0"
  shows "\<exists>t. fcfs_run p s = Ret (Some p) t \<and> dispatched p s t \<and> running_p t = Some p"
proof -
  obtain out where m: "fcfs_message p s = Ret () (s\<lparr>conout := out\<rparr>)"
    using fcfs_message_Ret [of s p] assms(2) by auto
  from assms show ?thesis by (auto simp: fcfs_run_def m dispatch_def switchuvm_def dispatched_def)
qed

section \<open>Properties of the schedulers\<close>

text \<open>
  C14: the round-robin scheduler, resumed after process \<open>p\<close>, switches to the next runnable entry
  behind \<open>p\<close>; if there is none it unlocks the table and the pass ends. No runnable entry is skipped.
\<close>

theorem default_resume_correct:
  assumes "runnable_ok s" and "held s = [PtableLk]"
  shows "case scan_from (\<lambda>j. pst s j = RUNNABLE) (p + 1) NPROC of
      Some q \<Rightarrow> p < q \<and> (\<forall>j. p < j \<and> j < q \<longrightarrow> pst s j \<noteq> RUNNABLE)
        \<and> (\<exists>t. default_resume p s = Ret (Some q) t \<and> dispatched q s t)
    | None \<Rightarrow> (\<forall>j. p < j \<and> j < NPROC \<longrightarrow> pst s j \<noteq> RUNNABLE)
        \<and> (\<exists>t. default_resume p s = Ret None t \<and> held t = [] \<and> procs t = procs s \<and> cpu_proc t = None)"
proof (cases "scan_from (\<lambda>j. pst s j = RUNNABLE) (p + 1) NPROC")
  case None
  then have "\<forall>j. p < j \<and> j < NPROC \<longrightarrow> pst s j \<noteq> RUNNABLE" by (simp add: scan_from_None_iff)
  with None assms show ?thesis
    by (simp add: default_resume_def default_from_def undispatch_def switchkvm_def sched_done_def)
next
  case (Some q)
  then have q: "p < q" "q < NPROC" "pst s q = RUNNABLE" "\<forall>j. p < j \<and> j < q \<longrightarrow> pst s j \<noteq> RUNNABLE"
    by (auto simp: scan_from_Some_iff)
  moreover have "default_resume p s = dispatch q (undispatch s)"
    using Some by (simp add: default_resume_def default_from_def undispatch_def switchkvm_def)
  moreover have "\<exists>t. dispatch q (undispatch s) = Ret (Some q) t \<and> dispatched q (undispatch s) t"
    using q assms by (intro dispatch_Ret) (auto simp: undispatch_def switchkvm_def runnable_ok_def)
  ultimately show ?thesis
    using Some by (simp add: dispatched_def undispatch_def switchkvm_def)
qed

text \<open>A table with three runnable processes, the second of them the oldest and the most urgent.\<close>

definition ready :: "nat \<Rightarrow> int \<Rightarrow> uint \<Rightarrow> proc" where
  "ready pid prio born = proc0\<lparr>p_state := RUNNABLE, p_pid := int pid, p_kstack := 0x80300000,
     p_pgdir := 0x80400000, p_priority := prio, p_ctime := born\<rparr>"

definition kproc_ready :: kproc where
  "kproc_ready = kproc0\<lparr>nextpid := 9,
     procs := (\<lambda>_. proc0)(2 := ready 3 60 30, 5 := ready 6 10 20, 7 := ready 8 60 40)\<rparr>"

lemma kproc_ready_ok: "runnable_ok kproc_ready" "held kproc_ready = []" "ptable_ok kproc_ready"
  by (auto simp: runnable_ok_def kproc_ready_def ready_def proc0_def kproc0_def ptable_ok_def live_def NPROC_def)

lemma kproc_ready_states: "pst kproc_ready i = RUNNABLE \<longleftrightarrow> i \<in> {2, 5, 7}"
  by (simp add: kproc_ready_def ready_def proc0_def)

theorem default_resume_witness:
  "\<exists>t. default_resume 2 (kproc_ready\<lparr>held := [PtableLk]\<rparr>) = Ret (Some 5) t
     \<and> dispatched 5 (kproc_ready\<lparr>held := [PtableLk]\<rparr>) t"
proof -
  let ?s = "kproc_ready\<lparr>held := [PtableLk]\<rparr>"
  have "runnable_ok ?s" "held ?s = [PtableLk]" using kproc_ready_ok by (simp_all add: runnable_ok_def)
  moreover have "scan_from (\<lambda>j. pst ?s j = RUNNABLE) (2 + 1) NPROC = Some 5"
    using kproc_ready_states by (auto simp: scan_from_Some_iff NPROC_def)
  ultimately show ?thesis using default_resume_correct [of ?s 2] by simp
qed

text \<open>
  C12: a pass of the priority scheduler switches to a runnable process whose priority number is
  minimal among all runnable processes, and to nothing exactly when no process is runnable.
\<close>

theorem priority_scheduler_correct:
  assumes "runnable_ok s" and "held s = []"
  shows "if \<exists>i<NPROC. pst s i = RUNNABLE
    then \<exists>p t. priority_scheduler s = Ret (Some p) t \<and> p < NPROC \<and> dispatched p s t
           \<and> (\<forall>j<NPROC. pst s j = RUNNABLE \<longrightarrow> p_priority (procs s p) \<le> p_priority (procs s j))
    else priority_scheduler s = Ret None s"
proof (cases "scan_from (\<lambda>j. pst s j = RUNNABLE) 0 NPROC")
  case None
  then have n: "\<not> (\<exists>i<NPROC. pst s i = RUNNABLE)" by (simp add: scan_from_None_iff)
  have "priority_scheduler s = Ret None s"
    using None assms(2) by (simp add: priority_scheduler_def priority_from_def sched_done_def)
  then show ?thesis using n by (simp only: if_False)
next
  case (Some q)
  then have q: "q < NPROC" "pst s q = RUNNABLE" by (simp_all add: scan_from_Some_iff)
  let ?p = "pick p_priority q (procs s)" and ?s = "s\<lparr>held := [PtableLk]\<rparr>"
  have p: "best p_priority q (procs s) NPROC ?p" "?p < NPROC"
    using q by (auto intro: pick_best pick_lt)
  then have "\<exists>t. dispatch ?p ?s = Ret (Some ?p) t \<and> dispatched ?p ?s t"
    using assms by (intro dispatch_Ret) (auto simp: best_def runnable_ok_def)
  moreover have "priority_scheduler s = dispatch ?p ?s"
    using Some assms(2) by (simp add: priority_scheduler_def priority_from_def)
  ultimately have "\<exists>p t. priority_scheduler s = Ret (Some p) t \<and> p < NPROC \<and> dispatched p s t
           \<and> (\<forall>j<NPROC. pst s j = RUNNABLE \<longrightarrow> p_priority (procs s p) \<le> p_priority (procs s j))"
    using p by (auto simp: best_def dispatched_def)
  then show ?thesis using q by auto
qed

theorem priority_scheduler_witness:
  "\<exists>p t. priority_scheduler kproc_ready = Ret (Some p) t \<and> p_priority (procs kproc_ready p) \<le> 10"
proof -
  have "\<exists>i<NPROC. pst kproc_ready i = RUNNABLE" by (rule exI [of _ 5]) (simp add: kproc_ready_states NPROC_def)
  moreover have "5 < NPROC \<and> pst kproc_ready 5 = RUNNABLE \<and> p_priority (procs kproc_ready 5) = 10"
    by (simp add: kproc_ready_def ready_def proc0_def NPROC_def)
  ultimately show ?thesis
    using priority_scheduler_correct [OF kproc_ready_ok(1,2)] by (smt (verit))
qed

text \<open>
  C13: when the process last chosen is not running on another CPU, a pass of the first-come
  scheduler ends, and switches to a runnable process that was created earliest.
\<close>

theorem fcfs_scheduler_correct:
  assumes "runnable_ok s" and "held s = []" and "\<exists>i<NPROC. pst s i = RUNNABLE"
    and "\<forall>r. running_p s = Some r \<longrightarrow> pst s r \<noteq> RUNNING"
  shows "\<exists>p t. fcfs_scheduler s = Some (Ret (Some p) t) \<and> p < NPROC \<and> dispatched p s t \<and> running_p t = Some p
     \<and> (\<forall>j<NPROC. pst s j = RUNNABLE \<longrightarrow> p_ctime (procs s p) \<le> p_ctime (procs s j))"
proof -
  obtain q where q: "scan_from (\<lambda>j. pst s j = RUNNABLE) 0 NPROC = Some q"
    using assms(3) scan_from_None_iff [of "\<lambda>j. pst s j = RUNNABLE" 0 NPROC]
    by (cases "scan_from (\<lambda>j. pst s j = RUNNABLE) 0 NPROC") auto
  then have q': "q < NPROC" "pst s q = RUNNABLE" by (simp_all add: scan_from_Some_iff)
  let ?p = "pick p_ctime q (procs s)" and ?s = "s\<lparr>held := [PtableLk]\<rparr>"
  have p: "best p_ctime q (procs s) NPROC ?p" "?p < NPROC"
    using q' by (auto intro: pick_best pick_lt)
  then have "\<exists>t. fcfs_run ?p ?s = Ret (Some ?p) t \<and> dispatched ?p ?s t \<and> running_p t = Some ?p"
    using assms by (intro fcfs_run_Ret) (auto simp: best_def runnable_ok_def)
  moreover have "fcfs_scheduler s = Some (fcfs_run ?p ?s)"
    using q assms(2,4) by (auto simp: fcfs_scheduler_def fcfs_from.simps [of 0] fcfs_may_run_def Let_def split: option.splits)
  ultimately show ?thesis
    using p by (auto simp: best_def dispatched_def)
qed

theorem fcfs_scheduler_witness:
  "\<exists>p t. fcfs_scheduler kproc_ready = Some (Ret (Some p) t) \<and> p_ctime (procs kproc_ready p) \<le> 20"
proof -
  have "\<exists>i<NPROC. pst kproc_ready i = RUNNABLE" by (rule exI [of _ 5]) (simp add: kproc_ready_states NPROC_def)
  moreover have "\<forall>r. running_p kproc_ready = Some r \<longrightarrow> pst kproc_ready r \<noteq> RUNNING"
    by (simp add: kproc_ready_def kproc0_def)
  moreover have "5 < NPROC" "pst kproc_ready 5 = RUNNABLE" "p_ctime (procs kproc_ready 5) = 20"
    by (simp_all add: kproc_ready_def ready_def proc0_def NPROC_def)
  ultimately show ?thesis
    using fcfs_scheduler_correct [OF kproc_ready_ok(1,2)] by metis
qed

text \<open>
  The states in which a pass of the first-come scheduler never ends: \<open>i\<close> is the oldest runnable
  process, a younger one is runnable behind it, and the process chosen last runs on another CPU
  and is at least as old as \<open>i\<close>.
\<close>

definition fcfs_stuck :: "nat \<Rightarrow> nat \<Rightarrow> nat \<Rightarrow> 'a kproc_scheme \<Rightarrow> bool" where
  "fcfs_stuck i j r s \<longleftrightarrow>
     i < j \<and> j < NPROC \<and> pst s i = RUNNABLE \<and> pst s j = RUNNABLE
   \<and> (\<forall>k<NPROC. k \<noteq> i \<and> pst s k = RUNNABLE \<longrightarrow> p_ctime (procs s i) < p_ctime (procs s k))
   \<and> running_p s = Some r \<and> pst s r = RUNNING \<and> p_ctime (procs s r) \<le> p_ctime (procs s i)"

lemma fcfs_stuck_pick:
  assumes "fcfs_stuck i j r s" and "q < NPROC" and "pst s q = RUNNABLE"
  shows "pick p_ctime q (procs s) = i"
  using assms by (intro pick_eqI) (auto simp: fcfs_stuck_def best_def intro: less_imp_le)

lemma fcfs_stuck_diverges:
  assumes "fcfs_from n s = Some y"
  shows "fcfs_stuck i j r s \<longrightarrow> \<not> n \<le> j"
proof (rule fcfs_from.raw_induct [OF _ assms, where P = "\<lambda>n s y. fcfs_stuck i j r s \<longrightarrow> \<not> n \<le> j"], intro impI notI)
  fix f :: "nat \<Rightarrow> 'a kproc_scheme \<Rightarrow> (nat option, 'a kproc_scheme) outcome option" and n s y
  assume IH: "\<And>n s y. f n s = Some y \<Longrightarrow> fcfs_stuck i j r s \<longrightarrow> \<not> n \<le> j"
    and body: "(case scan_from (\<lambda>j. pst s j = RUNNABLE) n NPROC of None \<Rightarrow> Some (sched_done s)
      | Some p \<Rightarrow> let p = pick p_ctime p (procs s)
          in if fcfs_may_run p s then Some (fcfs_run p s) else f (p + 1) s) = Some y"
    and st: "fcfs_stuck i j r s" and n: "n \<le> j"
  have "scan_from (\<lambda>j. pst s j = RUNNABLE) n NPROC \<noteq> None"
    using st n by (auto simp: scan_from_None_iff fcfs_stuck_def)
  then obtain q where q: "scan_from (\<lambda>j. pst s j = RUNNABLE) n NPROC = Some q" by auto
  then have "q < NPROC" "pst s q = RUNNABLE" by (simp_all add: scan_from_Some_iff)
  note P = fcfs_stuck_pick [OF st this]
  have "\<not> fcfs_may_run i s" using st by (auto simp: fcfs_may_run_def fcfs_stuck_def)
  then have "f (i + 1) s = Some y" using body q P by (simp add: Let_def)
  moreover have "i < j" using st by (simp add: fcfs_stuck_def)
  ultimately show False using IH [of "i + 1" s y] st by simp
qed

text \<open>
  C4: with two CPUs the first-come scheduler can loop for ever with the process table locked: while
  the process chosen last runs on the other CPU, and two younger processes of different age are
  runnable, the older one in front, the pass does not end, and no process can ever be scheduled,
  yield or exit again.
\<close>

theorem fcfs_scheduler_livelock:
  assumes "fcfs_stuck i j r s" and "PtableLk \<notin> set (held s)"
  shows "fcfs_scheduler s = None"
proof (rule ccontr)
  assume "fcfs_scheduler s \<noteq> None"
  then obtain y where "fcfs_from 0 (s\<lparr>held := PtableLk # held s\<rparr>) = Some y"
    using assms(2) by (auto simp: fcfs_scheduler_def)
  moreover have "fcfs_stuck i j r (s\<lparr>held := PtableLk # held s\<rparr>)"
    using assms(1) by (simp add: fcfs_stuck_def)
  ultimately show False using fcfs_stuck_diverges by blast
qed

theorem fcfs_scheduler_livelock_witness:
  "fcfs_scheduler (kproc0\<lparr>nextpid := 9, running_p := Some 1,
     procs := (\<lambda>_. proc0)(1 := (ready 2 60 10)\<lparr>p_state := RUNNING\<rparr>, 2 := ready 3 60 20, 5 := ready 6 60 30)\<rparr>) = None"
  by (rule fcfs_scheduler_livelock [of 2 5 1]) (auto simp: fcfs_stuck_def ready_def proc0_def kproc0_def NPROC_def)

section \<open>The kernel as a step relation\<close>

text \<open>
  One CPU with the round-robin scheduler. \<open>in_kernel p s\<close>: process \<open>p\<close> executes kernel code and
  holds no lock; \<open>switched p s\<close>: the scheduler has just switched to \<open>p\<close>, or \<open>p\<close> has just switched
  to the scheduler. The addresses \<open>trapret\<close> and \<open>forkret\<close> are arbitrary.
\<close>

definition in_kernel :: "nat \<Rightarrow> 'a kproc_scheme \<Rightarrow> bool" where
  "in_kernel p s = (cpu_proc s = Some p \<and> held s = [])"

definition switched :: "nat \<Rightarrow> 'a kproc_scheme \<Rightarrow> bool" where
  "switched p s = (cpu_proc s = Some p \<and> held s = [PtableLk])"

inductive kstep :: "'a kproc_scheme \<Rightarrow> 'a kproc_scheme \<Rightarrow> bool" where
  k_yield: "in_kernel p s \<Longrightarrow> yield s = Swtch t \<Longrightarrow> kstep s t"
| k_sleep: "in_kernel p s \<Longrightarrow> acquire lk s = Ret () u \<Longrightarrow> sleep c lk u = Swtch t \<Longrightarrow> kstep s t"
| k_wait: "in_kernel p s \<Longrightarrow> wait s = Ret r t \<Longrightarrow> kstep s t"
| k_wait_sleep: "in_kernel p s \<Longrightarrow> wait s = Swtch t \<Longrightarrow> kstep s t"
| k_exit: "in_kernel p s \<Longrightarrow> initproc s \<noteq> Some p \<Longrightarrow> exit_tail p s = Swtch t \<Longrightarrow> kstep s t"
| k_allocproc: "held s = [] \<Longrightarrow> allocproc trapret forkret s = Ret r t \<Longrightarrow> kstep s t"
| k_start: "held s = [] \<Longrightarrow> i < NPROC \<Longrightarrow> pst s i = EMBRYO \<Longrightarrow>
    kstep s (upd_proc i (\<lambda>q. q\<lparr>p_state := RUNNABLE, p_parent := cpu_proc s\<rparr>) s)"
| k_abort: "held s = [] \<Longrightarrow> i < NPROC \<Longrightarrow> pst s i = EMBRYO \<Longrightarrow>
    kstep s (upd_proc i (\<lambda>q. q\<lparr>p_state := UNUSED, p_kstack := 0\<rparr>) s)"
| k_wakeup: "held s = [] \<Longrightarrow> wakeup c s = Ret () t \<Longrightarrow> kstep s t"
| k_kill: "held s = [] \<Longrightarrow> kill pid s = Ret r t \<Longrightarrow> kstep s t"
| k_chprty: "held s = [] \<Longrightarrow> chprty pid prio s = Ret r t \<Longrightarrow> kstep s t"
| k_tick: "held s = [] \<Longrightarrow> updatestatistics (s\<lparr>ticks := ticks s + 1\<rparr>) = Ret () t \<Longrightarrow> kstep s t"
| k_schedule: "held s = [] \<Longrightarrow> cpu_proc s = None \<Longrightarrow> default_scheduler s = Ret r t \<Longrightarrow> kstep s t"
| k_reschedule: "switched p s \<Longrightarrow> pst s p \<noteq> RUNNING \<Longrightarrow> default_resume p s = Ret r t \<Longrightarrow> kstep s t"
| k_yield_resume: "switched p s \<Longrightarrow> pst s p = RUNNING \<Longrightarrow> yield_resume s = Ret () t \<Longrightarrow> kstep s t"
| k_sleep_resume: "switched p s \<Longrightarrow> pst s p = RUNNING \<Longrightarrow> sleep_resume lk s = Ret () u \<Longrightarrow>
    release lk u = Ret () t \<Longrightarrow> kstep s t"
| k_wait_resume: "switched p s \<Longrightarrow> pst s p = RUNNING \<Longrightarrow> wait_resume s = Ret r t \<Longrightarrow> kstep s t"
| k_wait_resume_sleep: "switched p s \<Longrightarrow> pst s p = RUNNING \<Longrightarrow> wait_resume s = Swtch t \<Longrightarrow> kstep s t"

inductive reachable :: "'a kproc_scheme \<Rightarrow> 'a kproc_scheme \<Rightarrow> bool" for init where
  r_init: "reachable init init"
| r_step: "reachable init s \<Longrightarrow> kstep s t \<Longrightarrow> reachable init t"

text \<open>
  The invariant: the table is well formed; only the process the CPU executes is running; that
  process is alive, and it is running when it holds no lock.
\<close>

definition kernel_ok :: "'a kproc_scheme \<Rightarrow> bool" where
  "kernel_ok s \<longleftrightarrow>
     ptable_ok s \<and> (\<forall>i<NPROC. pst s i = RUNNING \<longrightarrow> cpu_proc s = Some i)
   \<and> (\<forall>p. cpu_proc s = Some p \<longrightarrow> live s p \<and> (held s = [] \<longrightarrow> pst s p = RUNNING))"

text \<open>The life of a process.\<close>

fun legal :: "procstate \<Rightarrow> procstate \<Rightarrow> bool" where
  "legal UNUSED x = (x \<in> {UNUSED, EMBRYO})"
| "legal EMBRYO x = (x \<in> {EMBRYO, RUNNABLE, UNUSED})"
| "legal RUNNABLE x = (x \<in> {RUNNABLE, RUNNING})"
| "legal RUNNING x = (x \<in> {RUNNING, SLEEPING, RUNNABLE, ZOMBIE})"
| "legal SLEEPING x = (x \<in> {SLEEPING, RUNNABLE})"
| "legal ZOMBIE x = (x \<in> {ZOMBIE, UNUSED})"

lemma legal_refl [simp]: "legal x x"
  by (cases x) auto

text \<open>\<open>good s t\<close>: the step from \<open>s\<close> to \<open>t\<close> keeps the invariant and moves every process legally.\<close>

definition good :: "'a kproc_scheme \<Rightarrow> 'a kproc_scheme \<Rightarrow> bool" where
  "good s t \<longleftrightarrow> kernel_ok t \<and> (\<forall>i<NPROC. legal (pst s i) (pst t i))"

lemma kernel_okD:
  assumes "kernel_ok s"
  shows "ptable_ok s" and "i < NPROC \<Longrightarrow> pst s i = RUNNING \<Longrightarrow> cpu_proc s = Some i"
    and "cpu_proc s = Some p \<Longrightarrow> live s p" and "cpu_proc s = Some p \<Longrightarrow> held s = [] \<Longrightarrow> pst s p = RUNNING"
  using assms unfolding kernel_ok_def by blast+

lemma goodI:
  assumes "ptable_ok t" and "\<And>i. i < NPROC \<Longrightarrow> pst t i = RUNNING \<Longrightarrow> cpu_proc t = Some i"
    and "\<And>p. cpu_proc t = Some p \<Longrightarrow> live t p" and "\<And>p. cpu_proc t = Some p \<Longrightarrow> held t = [] \<Longrightarrow> pst t p = RUNNING"
    and "\<And>i. i < NPROC \<Longrightarrow> legal (pst s i) (pst t i)"
  shows "good s t"
  using assms unfolding good_def kernel_ok_def by blast

text \<open>A step that changes one entry and keeps the process of the CPU.\<close>

lemma good_upd:
  assumes ok: "kernel_ok s" and t: "procs t = (procs s)(p := q)" "nextpid t = nextpid s" "initproc t = initproc s"
    and c: "cpu_proc t = cpu_proc s"
    and lg: "p < NPROC \<Longrightarrow> legal (pst s p) (p_state q)" and nr: "p_state q = RUNNING \<Longrightarrow> pst s p = RUNNING"
    and u: "p_state q \<noteq> UNUSED \<Longrightarrow> p < NPROC \<Longrightarrow> pst s p \<noteq> UNUSED \<and> p_pid q = p_pid (procs s p)"
    and sl: "p_state q = SLEEPING \<Longrightarrow> p < NPROC \<Longrightarrow> p_chan q \<noteq> None"
    and par: "\<And>r. p_parent q = Some r \<Longrightarrow> p_parent (procs s p) = Some r \<or> r < NPROC"
    and pid: "p_pid q \<in> {p_pid (procs s p), 0}"
    and cpu: "cpu_proc s = Some p \<Longrightarrow> p_state q \<noteq> UNUSED \<and> (held t = [] \<longrightarrow> p_state q = RUNNING)"
    and h: "\<And>r. held t = [] \<Longrightarrow> cpu_proc s = Some r \<Longrightarrow> pst s r = RUNNING"
  shows "good s t"
proof (rule goodI)
  note D = kernel_okD [OF ok]
  show "ptable_ok t" by (rule ptable_ok_upd [OF D(1) t u sl par pid])
  show "cpu_proc t = Some i" if "i < NPROC" "pst t i = RUNNING" for i
    using that D(2) [of i] nr by (cases "i = p") (simp_all add: t c)
  show "live t r" if "cpu_proc t = Some r" for r
    using that D(3) [of r] cpu by (cases "r = p") (simp_all add: t c live_def)
  show "pst t r = RUNNING" if "cpu_proc t = Some r" "held t = []" for r
    using that cpu h [of r] by (cases "r = p") (simp_all add: t c)
  show "legal (pst s i) (pst t i)" if "i < NPROC" for i
    using that lg by (cases "i = p") (simp_all add: t)
qed

lemma good_same:
  assumes ok: "kernel_ok s" and t: "procs t = procs s" "nextpid t = nextpid s" "initproc t = initproc s"
    "cpu_proc t = cpu_proc s" and h: "\<And>r. held t = [] \<Longrightarrow> cpu_proc s = Some r \<Longrightarrow> pst s r = RUNNING"
  shows "good s t"
proof (rule goodI)
  note D = kernel_okD [OF ok]
  show "ptable_ok t" using D(1) ptable_ok_cong [OF t(1-3)] by simp
  show "cpu_proc t = Some i" if "i < NPROC" "pst t i = RUNNING" for i using that D(2) [of i] by (simp add: t)
  show "live t r" if "cpu_proc t = Some r" for r using that D(3) [of r] by (simp add: t live_def)
  show "pst t r = RUNNING" if "cpu_proc t = Some r" "held t = []" for r using that h [of r] by (simp add: t)
qed (simp add: t)

lemma good_table:
  assumes ok: "kernel_ok s" and "ptable_ok t" and "cpu_proc t = cpu_proc s" and "held t = held s"
    and st: "\<And>i. i < NPROC \<Longrightarrow> pst t i = pst s i \<or> pst s i = SLEEPING \<and> pst t i = RUNNABLE"
  shows "good s t"
proof (rule goodI)
  note D = kernel_okD [OF ok]
  show "cpu_proc t = Some i" if "i < NPROC" "pst t i = RUNNING" for i
    using that D(2) [of i] st [of i] assms(3) by auto
  show "live t r" if "cpu_proc t = Some r" for r
    using that D(3) [of r] st [of r] assms(3) by (auto simp: live_def)
  show "pst t r = RUNNING" if "cpu_proc t = Some r" "held t = []" for r
    using that D(3,4) [of r] st [of r] assms(3,4) by (auto simp: live_def)
  show "legal (pst s i) (pst t i)" if "i < NPROC" for i
    using st [OF that] by auto
qed (rule assms(2))

lemma good_dispatched:
  assumes ok: "ptable_ok s" and nr: "\<And>i. i < NPROC \<Longrightarrow> pst s i \<noteq> RUNNING" and "dispatched q s t" and "q < NPROC"
  shows "good s t"
proof (rule goodI)
  have t: "procs t = (procs s)(q := (procs s q)\<lparr>p_state := RUNNING\<rparr>)" "pst s q = RUNNABLE" "cpu_proc t = Some q"
    "nextpid t = nextpid s" "initproc t = initproc s" "held t = [PtableLk]"
    using assms(3) by (simp_all add: dispatched_def)
  show "ptable_ok t" by (rule ptable_ok_upd [OF ok t(1,4,5)]) (simp_all add: t)
  show "cpu_proc t = Some i" if "i < NPROC" "pst t i = RUNNING" for i
    using that nr [of i] by (cases "i = q") (simp_all add: t)
  show "live t r" if "cpu_proc t = Some r" for r
    using that assms(4) by (simp add: t live_def)
  show "legal (pst s i) (pst t i)" if "i < NPROC" for i
    by (cases "i = q") (simp_all add: t)
  show "pst t r = RUNNING" if "cpu_proc t = Some r" "held t = []" for r
    using that by (simp add: t)
qed

lemma good_wait_body:
  assumes ok: "kernel_ok s" and c: "cpu_proc s = Some c" "pst s c = RUNNING" and h: "held s = [PtableLk]"
  shows "wait_body c s = Ret r t \<Longrightarrow> good s t" and "wait_body c s = Swtch t \<Longrightarrow> good s t"
proof -
  note D = kernel_okD [OF ok]
  note none = wait_body_none [OF _ h, of c] and reaps = wait_body_reaps [OF _ h, of c]
  show "good s t" if w: "wait_body c s = Ret r t"
  proof (cases "scan (zombie_child c s) NPROC")
    case None
    with w none c have "t = s\<lparr>held := []\<rparr>" by (cases "\<not> havekids c s \<or> p_killed (procs s c)") auto
    then show ?thesis by (intro good_same [OF ok]) (use c in auto)
  next
    case (Some i)
    note R = reaps [OF Some w]
    have "pst s i = ZOMBIE" using scan_SomeD(2) [OF Some] by (simp add: zombie_child_def)
    then show ?thesis
      by (intro good_upd [OF ok R(3-6)]) (use c in \<open>auto simp: reset_times_def reaped_def\<close>)
  qed
  show "good s t" if w: "wait_body c s = Swtch t"
  proof (cases "scan (zombie_child c s) NPROC")
    case None
    with w none c have "t = upd_proc c (\<lambda>q. q\<lparr>p_chan := Some (CProc c), p_state := SLEEPING\<rparr>) s"
      by (cases "\<not> havekids c s \<or> p_killed (procs s c)") auto
    then show ?thesis
      by (intro good_upd [OF ok, where p = c and q = "(procs s c)\<lparr>p_chan := Some (CProc c), p_state := SLEEPING\<rparr>"])
        (use c h in auto)
  qed (use w in \<open>auto simp: wait_body_def reap_not_Swtch release_def split: if_splits\<close>)
qed

lemma good_default_from:
  assumes "ptable_ok s" and "\<And>i. i < NPROC \<Longrightarrow> pst s i \<noteq> RUNNING" and "held s = [PtableLk]" and "cpu_proc s = None"
    and "default_from n s = Ret r t"
  shows "good s t"
proof (cases "scan_from (\<lambda>j. pst s j = RUNNABLE) n NPROC")
  case None
  then have t: "t = s\<lparr>held := []\<rparr>"
    using assms(3,5) by (auto simp: default_from_def sched_done_def)
  show ?thesis
    by (rule goodI) (use assms(1,2,4) ptable_ok_cong [of t s] in \<open>simp_all add: t\<close>)
next
  case (Some q)
  then have "q < NPROC" "pst s q = RUNNABLE" "dispatch q s = Ret r t"
    using assms(5) Some by (simp_all add: default_from_def) (simp_all add: scan_from_Some_iff)
  with assms(3) show ?thesis
    by (intro good_dispatched [OF assms(1,2)] dispatch_RetD)
qed

lemma good_trans_states:
  fixes s u t :: "'a kproc_scheme"
  shows "good u t \<Longrightarrow> (\<And>i. i < NPROC \<Longrightarrow> pst u i = pst s i) \<Longrightarrow> good s t"
  by (simp add: good_def)

lemma kernel_ok_mono:
  fixes s t :: "'a kproc_scheme"
  assumes "kernel_ok s" and "procs t = procs s" "nextpid t = nextpid s" "initproc t = initproc s" "cpu_proc t = cpu_proc s"
    and "held t \<noteq> [] \<or> held t = held s"
  shows "kernel_ok t"
proof -
  have "good s t" by (rule good_same [OF assms(1-5)]) (use kernel_okD(4) [OF assms(1)] assms(6) in auto)
  then show ?thesis by (simp add: good_def)
qed

lemma good_exit:
  assumes ok: "kernel_ok s" and "in_kernel p s" and "exit_tail p s = Swtch t"
  shows "good s t"
proof (rule goodI)
  have t: "t = s\<lparr>held := [PtableLk], procs := exited p s\<rparr>" and p: "live s p" "pst s p = RUNNING" "cpu_proc s = Some p"
    using assms(2,3) kernel_okD(3,4) [OF ok, of p] exit_tail_eq [of s p] by (auto simp: in_kernel_def)
  note exited = exited_def Let_def wake_tab_def reparented_def
  show "ptable_ok t" unfolding t by (rule exited_ok [OF kernel_okD(1) [OF ok] p(1)])
  show "cpu_proc t = Some i" if "i < NPROC" "pst t i = RUNNING" for i
    using that kernel_okD(2) [OF ok, of i] by (auto simp: t exited split: if_splits)
  show "legal (pst s i) (pst t i)" if "i < NPROC" for i
    using p by (auto simp: t exited)
  show "live t r" if "cpu_proc t = Some r" for r
    using that p by (auto simp: t exited live_def)
  show "held t = [] \<Longrightarrow> pst t r = RUNNING" for r by (simp add: t)
qed

lemma good_wait:
  assumes ok: "kernel_ok s" and "in_kernel p s"
  shows "wait s = Ret r t \<Longrightarrow> good s t" and "wait s = Swtch t \<Longrightarrow> good s t"
proof -
  let ?u = "s\<lparr>held := [PtableLk]\<rparr>"
  have u: "kernel_ok ?u" "cpu_proc ?u = Some p" "pst ?u p = RUNNING" "held ?u = [PtableLk]" and w: "wait s = wait_body p ?u"
    using assms kernel_okD(4) [OF ok, of p] kernel_ok_mono [OF ok, of ?u] by (simp_all add: wait_def myproc_def in_kernel_def)
  show "good s t" if "wait s = Ret r t"
    using good_wait_body(1) [OF u, of r t] that by (simp add: w good_trans_states [of ?u t s])
  show "good s t" if "wait s = Swtch t"
    using good_wait_body(2) [OF u, of t] that by (simp add: w good_trans_states [of ?u t s])
qed

lemma good_wait_resume:
  assumes ok: "kernel_ok s" and "switched p s" and "pst s p = RUNNING"
  shows "wait_resume s = Ret r t \<Longrightarrow> good s t" and "wait_resume s = Swtch t \<Longrightarrow> good s t"
proof -
  let ?u = "upd_proc p (\<lambda>q. q\<lparr>p_chan := None\<rparr>) s"
  have p: "cpu_proc s = Some p" "held s = [PtableLk]" using assms(2) by (simp_all add: switched_def)
  have "good s ?u"
    by (rule good_upd [OF ok, where p = p and q = "(procs s p)\<lparr>p_chan := None\<rparr>"]) (use assms(3) p in auto)
  then have u: "kernel_ok ?u" "cpu_proc ?u = Some p" "pst ?u p = RUNNING" "held ?u = [PtableLk]"
    using p assms(3) by (simp_all add: good_def)
  have w: "wait_resume s = wait_body p ?u"
    using p by (simp add: wait_resume_def myproc_def sleep_resume_def)
  show "good s t" if "wait_resume s = Ret r t"
    using good_wait_body(1) [OF u, of r t] that by (simp add: w good_trans_states [of ?u t s])
  show "good s t" if "wait_resume s = Swtch t"
    using good_wait_body(2) [OF u, of t] that by (simp add: w good_trans_states [of ?u t s])
qed

lemma good_allocproc:
  assumes ok: "kernel_ok s" and h: "held s = []" and "allocproc trapret forkret s = Ret r t"
  shows "good s t"
proof -
  obtain p q where p: "p < NPROC" "pst s p = UNUSED" and t: "procs t = (procs s)(p := q)" "nextpid t = nextpid s + 1"
    "initproc t = initproc s" "cpu_proc t = cpu_proc s" "held t = held s"
    and q: "p_pid q = nextpid s" "p_state q \<in> {EMBRYO, UNUSED}" "p_parent q = p_parent (procs s p)"
    using allocproc_Ret [OF assms(3)] h by auto
  note D = kernel_okD [OF ok]
  show ?thesis
  proof (rule goodI)
    show "ptable_ok t" by (rule ptable_ok_new [OF D(1) p t(1-3) q])
    show "cpu_proc t = Some i" if "i < NPROC" "pst t i = RUNNING" for i
      using that D(2) [of i] q(2) by (cases "i = p") (auto simp: t)
    show "live t r" if "cpu_proc t = Some r" for r
      using that D(3) [of r] p by (cases "r = p") (auto simp: t live_def)
    show "pst t r = RUNNING" if "cpu_proc t = Some r" "held t = []" for r
      using that D(4) [of r] p by (cases "r = p") (auto simp: t)
    show "legal (pst s i) (pst t i)" if "i < NPROC" for i
      using p q(2) by (cases "i = p") (auto simp: t)
  qed
qed

lemma good_resched:
  assumes ok: "kernel_ok s" and "switched p s" and "pst s p \<noteq> RUNNING" and "default_resume p s = Ret r t"
  shows "good s t"
proof -
  have p: "cpu_proc s = Some p" "held s = [PtableLk]" using assms(2) by (simp_all add: switched_def)
  have nr: "pst s i \<noteq> RUNNING" if "i < NPROC" for i using kernel_okD(2) [OF ok that] p assms(3) by auto
  have "good (undispatch s) t"
    by (rule good_default_from [of _ "p + 1" r])
      (use kernel_okD(1) [OF ok] ptable_ok_cong [of "undispatch s" s] nr p assms(4) in
        \<open>simp_all add: undispatch_def switchkvm_def default_resume_def\<close>)
  then show ?thesis by (rule good_trans_states) (simp add: undispatch_def switchkvm_def)
qed

lemma good_schedule:
  assumes ok: "kernel_ok s" and "held s = []" and "cpu_proc s = None" and "default_scheduler s = Ret r t"
  shows "good s t"
proof -
  let ?u = "s\<lparr>held := [PtableLk]\<rparr>"
  have nr: "pst s i \<noteq> RUNNING" if "i < NPROC" for i using kernel_okD(2) [OF ok that] assms(3) by auto
  have "good ?u t"
    by (rule good_default_from [of _ 0 r])
      (use kernel_okD(1) [OF ok] ptable_ok_cong [of ?u s] nr assms in \<open>simp_all add: default_scheduler_def\<close>)
  then show ?thesis by (rule good_trans_states) simp
qed

lemma good_sleep:
  assumes ok: "kernel_ok s" and "in_kernel p s" and "t = upd_proc p (\<lambda>q. q\<lparr>p_chan := ch q, p_state := st\<rparr>) (s\<lparr>held := [PtableLk]\<rparr>)"
    and "st = RUNNABLE \<or> st = SLEEPING \<and> (\<forall>q. ch q \<noteq> None)"
  shows "good s t"
proof -
  have "cpu_proc s = Some p" "pst s p = RUNNING"
    using assms(2) kernel_okD(4) [OF ok, of p] by (simp_all add: in_kernel_def)
  then show ?thesis
    by (intro good_upd [OF ok, where p = p and q = "(procs s p)\<lparr>p_chan := ch (procs s p), p_state := st\<rparr>"])
      (use assms(3,4) in auto)
qed

lemma good_embryo:
  assumes ok: "kernel_ok s" and h: "held s = []" and i: "i < NPROC" "pst s i = EMBRYO"
  shows "good s (upd_proc i (\<lambda>q. q\<lparr>p_state := RUNNABLE, p_parent := cpu_proc s\<rparr>) s)"
    and "good s (upd_proc i (\<lambda>q. q\<lparr>p_state := UNUSED, p_kstack := 0\<rparr>) s)"
proof -
  note D = kernel_okD [OF ok]
  have n: "cpu_proc s \<noteq> Some i" using D(4) [of i] h i by auto
  show "good s (upd_proc i (\<lambda>q. q\<lparr>p_state := RUNNABLE, p_parent := cpu_proc s\<rparr>) s)"
    by (rule good_upd [OF ok, where p = i and q = "(procs s i)\<lparr>p_state := RUNNABLE, p_parent := cpu_proc s\<rparr>"])
      (use i n h D(3,4) in \<open>auto simp: live_def\<close>)
  show "good s (upd_proc i (\<lambda>q. q\<lparr>p_state := UNUSED, p_kstack := 0\<rparr>) s)"
    by (rule good_upd [OF ok, where p = i and q = "(procs s i)\<lparr>p_state := UNUSED, p_kstack := 0\<rparr>"])
      (use i n h D(4) ptable_okD(6) [OF D(1), of i] in auto)
qed

lemma good_wakeup:
  assumes ok: "kernel_ok s" and h: "held s = []" and w: "wakeup c s = Ret () t"
  shows "good s t"
proof -
  have t: "t = wakeup1 (Some c) s" using w h by (simp add: wakeup_eq)
  show ?thesis
    unfolding t
  proof (rule good_table [OF ok wakeup1_ok [OF kernel_okD(1) [OF ok]]])
    show "pst (wakeup1 (Some c) s) i = pst s i \<or> pst s i = SLEEPING \<and> pst (wakeup1 (Some c) s) i = RUNNABLE" for i
      by (simp add: wakeup1_apply)
  qed (simp_all add: wakeup1_def)
qed

lemma good_kill:
  assumes ok: "kernel_ok s" and h: "held s = []" and k: "kill pid s = Ret r t"
  shows "good s t"
  by (rule good_table [OF ok])
    (use kill_ok [OF kernel_okD(1) [OF ok] _ k] k h in \<open>auto simp: kill_eq split: option.splits if_splits\<close>)

lemma good_chprty:
  assumes ok: "kernel_ok s" and h: "held s = []" and k: "chprty pid pr s = Ret r t"
  shows "good s t"
  by (rule good_table [OF ok])
    (use chprty_ok [OF kernel_okD(1) [OF ok] _ k] k h in \<open>auto simp: chprty_eq split: option.splits if_splits\<close>)

lemma good_tick:
  assumes ok: "kernel_ok s" and h: "held s = []" and k: "updatestatistics (s\<lparr>ticks := ticks s + 1\<rparr>) = Ret () t"
  shows "good s t"
proof (rule good_table [OF ok])
  have "ptable_ok (s\<lparr>ticks := ticks s + 1\<rparr>)"
    using kernel_okD(1) [OF ok] ptable_ok_cong [of "s\<lparr>ticks := ticks s + 1\<rparr>" s] by simp
  then show "ptable_ok t" using updatestatistics_ok [OF _ _ k] h by simp
qed (use k h in \<open>auto simp: updatestatistics_eq split: if_splits\<close>)

lemma good_resume:
  assumes ok: "kernel_ok s" and "switched p s" and "pst s p = RUNNING"
  shows "yield_resume s = Ret () t \<Longrightarrow> good s t"
    and "sleep_resume lk s = Ret () u \<Longrightarrow> release lk u = Ret () t \<Longrightarrow> good s t"
proof -
  have p: "cpu_proc s = Some p" "held s = [PtableLk]" using assms(2) by (simp_all add: switched_def)
  show "good s t" if "yield_resume s = Ret () t"
    by (rule good_same [OF ok]) (use that p assms(3) in \<open>auto simp: yield_resume_def\<close>)
  show "good s t" if "sleep_resume lk s = Ret () u" "release lk u = Ret () t"
    by (rule good_upd [OF ok, where p = p and q = "(procs s p)\<lparr>p_chan := None\<rparr>"])
      (use that p assms(3) in \<open>auto simp: sleep_resume_eq release_Ret_iff\<close>)
qed

lemma kstep_good: "kstep s t \<Longrightarrow> kernel_ok s \<Longrightarrow> good s t"
proof (induction rule: kstep.induct)
  case (k_yield p s t)
  then show ?case
    by (intro good_sleep [where p = p and ch = p_chan and st = RUNNABLE]) (auto simp: in_kernel_def yield_eq)
next
  case (k_sleep p s lk u c t)
  then show ?case
    by (intro good_sleep [where p = p and ch = "\<lambda>_. Some c" and st = SLEEPING]) (auto simp: in_kernel_def acquire_Ret_iff sleep_eq)
qed (auto intro: good_wait good_wait_resume good_exit good_allocproc good_embryo good_wakeup good_kill
    good_chprty good_tick good_schedule good_resched good_resume)


text \<open>The kernel before the first process exists.\<close>

lemma kernel_ok_kproc0: "kernel_ok kproc0"
  using ptable_ok_kproc0 by (simp add: kernel_ok_def) (simp add: kproc0_def proc0_def)




end
