(* ===== verification/User.thy ===== *)
theory User
  imports Proc
begin

text \<open>
  Access of the kernel to the memory of the running process, and the routines of syscall.c that
  fetch and check the arguments of a system call. While a process runs in the kernel its page
  table is loaded, so a user pointer that the kernel dereferences goes through the page table
  \<open>cr3\<close> points to; an address the table does not map is a page fault, which the kernel does not
  survive. The addresses of the kernel's own half are mapped by a fixed offset.
\<close>

section \<open>Address translation\<close>

definition mmu :: "bool \<Rightarrow> addr \<Rightarrow> 'a kproc_scheme \<Rightarrow> addr option" where
  "mmu wr va s =
     (if va \<ge> KERNBASE then Some va
      else
        let pde = load32 (mem s) (P2V (cr3 s) + 4 * PDX va)
        in if pde AND PTE_P = 0 then None
           else
             let pte = load32 (mem s) (P2V (PTE_ADDR pde) + 4 * PTX va)
             in if pte AND PTE_P = 0 \<or> wr \<and> pte AND PTE_W = 0 then None
                else Some (P2V (PTE_ADDR pte) + (va AND 0xFFF)))"

fun load_bytes :: "addr \<Rightarrow> nat \<Rightarrow> 'a kproc_scheme \<Rightarrow> (byte list, 'a kproc_scheme) outcome" where
  "load_bytes a 0 s = Ret [] s"
| "load_bytes a (Suc n) s =
     (case mmu False a s of
        None \<Rightarrow> Fault ''page fault''
      | Some ka \<Rightarrow> bindK (load_bytes (a + 1) n s) (\<lambda>bs s. Ret (mem s ka # bs) s))"

fun store_bytes :: "addr \<Rightarrow> byte list \<Rightarrow> 'a kproc_scheme \<Rightarrow> (unit, 'a kproc_scheme) outcome" where
  "store_bytes a [] s = Ret () s"
| "store_bytes a (b # bs) s =
     (case mmu True a s of
        None \<Rightarrow> Fault ''page fault''
      | Some ka \<Rightarrow> store_bytes (a + 1) bs (s\<lparr>mem := (mem s)(ka := b)\<rparr>))"

text \<open>A C \<open>char\<close> in memory and as a character.\<close>

definition chr :: "byte \<Rightarrow> char" where
  "chr b = char_of (unat b)"

definition ord :: "char \<Rightarrow> byte" where
  "ord c = of_nat (of_char c)"

text \<open>The little-endian bytes of a word and back.\<close>

definition bytes32 :: "uint \<Rightarrow> byte list" where
  "bytes32 w = [ucast w, ucast (drop_bit 8 w), ucast (drop_bit 16 w), ucast (drop_bit 24 w)]"

definition word_of_bytes :: "byte list \<Rightarrow> uint" where
  "word_of_bytes bs = foldr (\<lambda>b w. push_bit 8 w OR ucast b) bs 0"

section \<open>Arguments of system calls\<close>

text \<open>The results are \<^term>\<open>None\<close> where the C code returns -1.\<close>

definition fetchint :: "uint \<Rightarrow> 'a kproc_scheme \<Rightarrow> (uint option, 'a kproc_scheme) outcome" where
  "fetchint a s =
     bindK (myproc s) (\<lambda>p s.
     if a \<ge> p_sz (procs s p) \<or> a + 4 > p_sz (procs s p) then Ret None s
     else bindK (load_bytes a 4 s) (\<lambda>bs s. Ret (Some (word_of_bytes bs)) s))"

text \<open>The characters from \<open>a\<close> up to the first null character below \<open>ep\<close>; \<open>n\<close> is \<open>ep - a\<close>.\<close>

fun fetchstr_loop :: "nat \<Rightarrow> addr \<Rightarrow> 'a kproc_scheme \<Rightarrow> (string option, 'a kproc_scheme) outcome" where
  "fetchstr_loop 0 a s = Ret None s"
| "fetchstr_loop (Suc n) a s =
     (case mmu False a s of
        None \<Rightarrow> Fault ''page fault''
      | Some ka \<Rightarrow>
          if mem s ka = 0 then Ret (Some []) s
          else bindK (fetchstr_loop n (a + 1) s) (\<lambda>r s.
               Ret (map_option (\<lambda>cs. chr (mem s ka) # cs) r) s))"

definition fetchstr :: "uint \<Rightarrow> 'a kproc_scheme \<Rightarrow> (string option, 'a kproc_scheme) outcome" where
  "fetchstr a s =
     bindK (myproc s) (\<lambda>p s.
     if a \<ge> p_sz (procs s p) then Ret None s
     else fetchstr_loop (unat (p_sz (procs s p) - a)) a s)"

definition argint :: "nat \<Rightarrow> 'a kproc_scheme \<Rightarrow> (uint option, 'a kproc_scheme) outcome" where
  "argint n s =
     bindK (myproc s) (\<lambda>p s.
     fetchint (load32 (mem s) (p_tf (procs s p) + tf_esp) + 4 + 4 * of_nat n) s)"

definition argptr :: "nat \<Rightarrow> uint \<Rightarrow> 'a kproc_scheme \<Rightarrow> (addr option, 'a kproc_scheme) outcome" where
  "argptr n sz s =
     bindK (myproc s) (\<lambda>p s.
     bindK (argint n s) (\<lambda>r s.
     case r of
       None \<Rightarrow> Ret None s
     | Some i \<Rightarrow>
         if sint sz < 0 \<or> i \<ge> p_sz (procs s p) \<or> i + sz > p_sz (procs s p) then Ret None s
         else Ret (Some i) s))"

definition argstr :: "nat \<Rightarrow> 'a kproc_scheme \<Rightarrow> (string option, 'a kproc_scheme) outcome" where
  "argstr n s =
     bindK (argint n s) (\<lambda>r s.
     case r of None \<Rightarrow> Ret None s | Some a \<Rightarrow> fetchstr a s)"

section \<open>Properties\<close>

lemma chr_ord [simp]: "chr (ord c) = c"
proof -
  have "unat (ord c) = of_char c" by (simp add: ord_def unat_of_nat take_bit_eq_mod)
  then show ?thesis by (simp add: chr_def)
qed

lemma ord_chr [simp]: "ord (chr b) = b"
proof -
  have "unat b < 256" using unsigned_less [of b] by simp
  then show ?thesis by (simp add: chr_def ord_def)
qed

lemma chr_0 [simp]: "CHR 0x00 = chr b \<longleftrightarrow> b = 0"
proof -
  have o: "ord (CHR 0x00) = 0" by (simp add: ord_def)
  have c: "chr 0 = CHR 0x00" using chr_ord [of "CHR 0x00"] unfolding o .
  show ?thesis
  proof
    assume "CHR 0x00 = chr b"
    from arg_cong [OF this, of ord] show "b = 0" unfolding o ord_chr by simp
  next
    assume "b = 0"
    then show "CHR 0x00 = chr b" unfolding c [symmetric] by simp
  qed
qed

lemma sint_nonneg: "0 \<le> sint x \<longleftrightarrow> unat x < 2 ^ 31" for x :: uint
proof (cases "unat x < 2 ^ 31")
  case True
  then have "unat x < 2147483648" by simp
  moreover have "int (unat x) = uint x" by simp
  ultimately have "uint x < 2147483648" by linarith
  then have "sint x = uint x" by (simp add: sint_uint signed_take_bit_eq_take_bit_shift take_bit_eq_mod)
  then show ?thesis using True by simp
next
  case False
  then have "\<not> unat x < 2147483648" by simp
  moreover have "int (unat x) = uint x" by simp
  ultimately have l: "2147483648 \<le> uint x" by linarith
  have k: "uint x < 2 ^ 32" using uint_lt2p [of x] by simp
  have "(uint x + 2 ^ 31) mod 2 ^ 32 = (uint x - 2 ^ 31) mod 2 ^ 32"
    using mod_add_self2 [of "uint x - 2 ^ 31" "2 ^ 32"] by (simp add: algebra_simps)
  also have "\<dots> = uint x - 2 ^ 31" using l k by simp
  finally have "sint x = uint x - 2 ^ 32"
    by (simp add: sint_uint signed_take_bit_eq_take_bit_shift take_bit_eq_mod)
  then show ?thesis using False k by simp
qed

lemma load_bytes_Ret: "load_bytes a n s = Ret bs t \<Longrightarrow> t = s \<and> length bs = n"
  by (induction n arbitrary: a bs) (auto split: option.splits)

lemma fetchint_state: "fetchint a s = Ret r t \<Longrightarrow> t = s"
  by (auto simp: fetchint_def myproc_def dest: load_bytes_Ret split: option.splits if_splits)

lemma argint_state: "argint n s = Ret r t \<Longrightarrow> t = s"
  by (auto simp: argint_def myproc_def dest: fetchint_state split: option.splits)

lemma fetchstr_loop_Ret:
  "fetchstr_loop n a s = Ret r t \<Longrightarrow> t = s \<and> (\<forall>cs. r = Some cs \<longrightarrow> length cs < n \<and> CHR 0x00 \<notin> set cs)"
proof (induction n arbitrary: a r)
  case (Suc n)
  then show ?case by (auto split: option.splits if_splits dest!: Suc.IH)
qed simp

text \<open>
  Memory accesses depend on nothing but the memory and the page table that is loaded.
\<close>

lemma mmu_cong:
  fixes s :: "'a kproc_scheme" and t :: "'b kproc_scheme"
  shows "mem t = mem s \<Longrightarrow> cr3 t = cr3 s \<Longrightarrow> mmu wr a t = mmu wr a s"
  by (simp add: mmu_def Let_def)

lemma load_bytes_cong:
  "load_bytes a n s = Ret bs s \<Longrightarrow> mem t = mem s \<Longrightarrow> cr3 t = cr3 s \<Longrightarrow> load_bytes a n t = Ret bs t"
proof (induction n arbitrary: a bs)
  case (Suc n)
  then obtain ka bs' where "mmu False a s = Some ka" "load_bytes (a + 1) n s = Ret bs' s" "bs = mem s ka # bs'"
    by (auto split: option.splits dest: load_bytes_Ret)
  then show ?case using Suc.IH [of "a + 1" bs'] Suc.prems mmu_cong [of t s False a] by simp
qed simp

lemma load_bytes_nth:
  "load_bytes a n s = Ret bs s \<Longrightarrow> i < n \<Longrightarrow> load_bytes (a + of_nat i) (Suc 0) s = Ret [bs ! i] s"
proof (induction n arbitrary: a bs i)
  case (Suc n)
  then obtain ka bs' where b: "mmu False a s = Some ka" "load_bytes (a + 1) n s = Ret bs' s" "bs = mem s ka # bs'"
    by (auto split: option.splits dest: load_bytes_Ret)
  show ?case
  proof (cases i)
    case (Suc j)
    then show ?thesis using Suc.IH [OF b(2), of j] Suc.prems(2) b(3) by (simp add: add.assoc)
  qed (simp add: b)
qed simp

text \<open>
  \<open>buffer_at a n ka s\<close>: the \<open>n\<close> bytes of user memory from \<open>a\<close> on may be written, they are at the
  kernel addresses \<open>ka 0\<close>, \<open>ka 1\<close>, \dots, and writing them does not change the page table.
\<close>

definition buffer_at :: "addr \<Rightarrow> nat \<Rightarrow> (nat \<Rightarrow> addr) \<Rightarrow> 'a kproc_scheme \<Rightarrow> bool" where
  "buffer_at a n ka s \<longleftrightarrow>
     inj_on ka {..<n} \<and>
     (\<forall>m. (\<forall>x. x \<notin> ka ` {..<n} \<longrightarrow> m x = mem s x) \<longrightarrow>
          (\<forall>k<n. mmu True (a + of_nat k) (s\<lparr>mem := m\<rparr>) = Some (ka k)))"

definition put_mem :: "(nat \<Rightarrow> addr) \<Rightarrow> byte list \<Rightarrow> memory \<Rightarrow> memory" where
  "put_mem ka bs m = fold (\<lambda>k m. m(ka k := bs ! k)) [0..<length bs] m"

lemma put_mem_Nil [simp]: "put_mem ka [] m = m"
  by (simp add: put_mem_def)

lemma put_mem_snoc: "put_mem ka (bs @ [b]) m = (put_mem ka bs m)(ka (length bs) := b)"
proof -
  have "fold (\<lambda>k m. m(ka k := (bs @ [b]) ! k)) [0..<length bs] m = fold (\<lambda>k m. m(ka k := bs ! k)) [0..<length bs] m"
    by (rule fold_cong) (auto simp: nth_append)
  then show ?thesis by (simp add: put_mem_def)
qed

lemma put_mem_outside: "x \<notin> ka ` {..<length bs} \<Longrightarrow> put_mem ka bs m x = m x"
  by (induction bs rule: rev_induct) (auto simp: put_mem_snoc image_iff)

lemma put_mem_inside:
  "inj_on ka {..<n} \<Longrightarrow> length bs \<le> n \<Longrightarrow> k < length bs \<Longrightarrow> put_mem ka bs m (ka k) = bs ! k"
proof (induction bs rule: rev_induct)
  case (snoc b bs)
  then have "ka k \<noteq> ka (length bs)" if "k < length bs" using that by (auto dest: inj_onD)
  then show ?case using snoc by (auto simp: put_mem_snoc nth_append less_Suc_eq)
qed simp

lemma store_at:
  assumes "buffer_at a n ka s" and "k < n"
    and "\<And>x. x \<notin> ka ` {..<n} \<Longrightarrow> mem t x = mem s x" and "cr3 t = cr3 s"
  shows "store_bytes (a + of_nat k) [b] t = Ret () (t\<lparr>mem := (mem t)(ka k := b)\<rparr>)"
proof -
  have "mmu True (a + of_nat k) (s\<lparr>mem := mem t\<rparr>) = Some (ka k)" using assms by (simp add: buffer_at_def)
  moreover have "mmu True (a + of_nat k) t = mmu True (a + of_nat k) (s\<lparr>mem := mem t\<rparr>)" by (rule mmu_cong) (simp_all add: assms(4))
  ultimately show ?thesis by simp
qed

text \<open>
  C26: a pointer argument that \<open>argptr\<close> accepts lies in the memory of the process together with the
  \<open>size\<close> bytes behind it; the checks are not fooled by wrap-around. Fetching an argument never changes the state.
\<close>

theorem argptr_in_bounds:
  assumes "argptr n sz s = Ret (Some a) t" and "cpu_proc s = Some p" and "p_sz (procs s p) \<le> KERNBASE"
  shows "t = s \<and> 0 \<le> sint sz \<and> unat a + unat sz \<le> unat (p_sz (procs s p))"
proof -
  have A: "t = s" "\<not> sint sz < 0" "a < p_sz (procs s p)" "a + sz \<le> p_sz (procs s p)"
    using assms(1,2) by (auto simp: argptr_def myproc_def not_le not_less dest: argint_state split: option.splits if_splits)
  have "unat sz < 2 ^ 31" using A(2) by (simp only: not_less sint_nonneg)
  moreover have "unat a < 2 ^ 31" using A(3) assms(3) by (simp add: KERNBASE_def word_less_nat_alt word_le_nat_alt)
  ultimately have "unat (a + sz) = unat a + unat sz" by (intro unat_add_lem [THEN iffD1]) simp
  then show ?thesis using A by (simp add: word_le_nat_alt)
qed

text \<open>A process whose page directory, page tables and pages are filled with the byte 7.\<close>

definition kuser0 :: kproc where
  "kuser0 = kproc0\<lparr>mem := (\<lambda>a. if a = 0x87070803 then 0 else 7), cpu_proc := Some 0,
     procs := (\<lambda>_. proc0\<lparr>p_sz := 0x08000000, p_tf := 0x80300000\<rparr>)\<rparr>"

lemmas mmu_eval = mmu_def kuser0_def kproc0_def PDX_def PTX_def load32_def P2V_def PTE_ADDR_def PTE_P_def PTE_W_def KERNBASE_def

lemma mmu_kuser0:
  "mmu False 0x0707070F kuser0 = Some 0x8707070F" "mmu False 0x07070710 kuser0 = Some 0x87070710"
  "mmu False 0x07070711 kuser0 = Some 0x87070711" "mmu False 0x07070712 kuser0 = Some 0x87070712"
  "mmu False 0x1800 kuser0 = Some 0x87070800" "mmu False 0x1801 kuser0 = Some 0x87070801"
  "mmu False 0x1802 kuser0 = Some 0x87070802" "mmu False 0x1803 kuser0 = Some 0x87070803"
  by (simp_all add: mmu_eval)

theorem argptr_in_bounds_witness:
  "argptr 1 16 kuser0 = Ret (Some 0x07070707) kuser0 \<and> (0x07070707 :: nat) + 16 \<le> unat (p_sz (procs kuser0 0))"
proof -
  have esp: "load32 (mem kuser0) (p_tf (procs kuser0 0) + tf_esp) = 0x07070707"
    by (simp add: kuser0_def proc0_def load32_def tf_esp_def)
  have p: "cpu_proc kuser0 = Some 0" "p_sz (procs kuser0 0) = 0x08000000" by (simp_all add: kuser0_def)
  have "load_bytes 0x0707070F (Suc (Suc (Suc (Suc 0)))) kuser0 = Ret [7, 7, 7, 7] kuser0"
    by (simp add: mmu_kuser0) (simp add: kuser0_def)
  moreover have "Suc (Suc (Suc (Suc 0))) = 4" by simp
  ultimately have "load_bytes 0x0707070F 4 kuser0 = Ret [7, 7, 7, 7] kuser0" by (simp only:)
  then have "fetchint 0x0707070F kuser0 = Ret (Some 0x07070707) kuser0"
    by (simp add: fetchint_def myproc_def p word_of_bytes_def)
  then have r: "argptr 1 16 kuser0 = Ret (Some 0x07070707) kuser0"
    by (simp add: argptr_def argint_def myproc_def p esp)
  then show ?thesis using argptr_in_bounds [OF r p(1)] p(2) by (simp add: KERNBASE_def)
qed



end
