(* ===== verification/Mlfq.thy ===== *)
theory Mlfq
  imports Sched User
begin

text \<open>
  The multi-level feedback queue scheduler of proc.c, the choice of a scheduler, and the rest of
  proc.c that reports on processes (\<open>procdump\<close>, \<open>getpinfo\<close>). The queues are arrays of 64 pointers
  with the index of the last entry in \<open>cxj\<close>; an index outside an array is a fault. A pass of the
  scheduler answers the queue, the index and the process it switches to.
\<close>

section \<open>Queues\<close>

text \<open>\<open>q[i] = 0; for (j = i; j <= c - 1; j++) q[j] = q[j + 1];\<close>\<close>

definition shift_row :: "nat \<Rightarrow> nat \<Rightarrow> (nat \<Rightarrow> nat option) \<Rightarrow> (nat \<Rightarrow> nat option)" where
  "shift_row i c q = fold (\<lambda>j q. q(j := q (j + 1))) [i..<c] (q(i := None))"

definition queue_delete :: "nat \<Rightarrow> int \<Rightarrow> 'a kproc_scheme \<Rightarrow> (unit, 'a kproc_scheme) outcome" where
  "queue_delete t i s =
     (if i < 0 \<or> 64 \<le> i \<or> cxj s t < 0 \<or> 64 \<le> cxj s t then Fault ''qxj''
      else
        let c = nat (cxj s t)
        in Ret () (s\<lparr>qxj := (qxj s)(t := (shift_row (nat i) c (qxj s t))(c := None))\<rparr>))"

text \<open>The process enters queue \<open>t\<close> at the end.\<close>

definition queue_enter :: "nat \<Rightarrow> nat \<Rightarrow> 'a kproc_scheme \<Rightarrow> (unit, 'a kproc_scheme) outcome" where
  "queue_enter t p s =
     (let c = cxj s t + 1;
          s = s\<lparr>cxj := (cxj s)(t := c)\<rparr>;
          pid = nat (p_pid (procs s p));
          st = pstat_var s;
          s = s\<lparr>pstat_var := st\<lparr>current_queue := (current_queue st)(pid := int t), runtime := (runtime st)(pid := ticks s)\<rparr>\<rparr>
      in if c < 0 \<or> 64 \<le> c then Fault ''qxj''
         else Ret () (s\<lparr>qxj := (qxj s)(t := (qxj s t)(nat c := Some p))\<rparr>))"

definition queue_leave :: "nat \<Rightarrow> int \<Rightarrow> nat \<Rightarrow> 'a kproc_scheme \<Rightarrow> (unit, 'a kproc_scheme) outcome" where
  "queue_leave t i p s =
     bindK (queue_delete t i s) (\<lambda>_ s.
     let st = pstat_var s;
         s = s\<lparr>pstat_var := st\<lparr>num_run := (num_run st)(nat (p_pid (procs s p)) := 0)\<rparr>\<rparr>
     in Ret () (s\<lparr>cxj := (cxj s)(t := cxj s t - 1)\<rparr>))"

section \<open>The scheduler\<close>

text \<open>\<open>ticksTodur\<close>, the time slices of the queues, and the time after which a waiting process moves up.\<close>

definition timedur :: "nat \<Rightarrow> int" where
  "timedur t = 2 ^ t * 30"

definition exceededTimedur :: uint where
  "exceededTimedur = 25 * 30"

text \<open>One round of the first loop. The entry to delete from queue \<open>t\<close> is taken at the process identifier.\<close>

definition mlfq_age1 :: "nat \<Rightarrow> nat \<Rightarrow> 'a kproc_scheme \<Rightarrow> (unit, 'a kproc_scheme) outcome" where
  "mlfq_age1 t p s =
     (let i = p_pid (procs s p)
      in if pst s p \<noteq> RUNNABLE then Ret () s
         else if i < 0 \<or> 64 \<le> i then Fault ''pstat_var''
         else if current_queue (pstat_var s) (nat i) \<noteq> int t then Ret () s
         else if ticks s - runtime (pstat_var s) (nat i) \<ge> exceededTimedur then
           bindK (queue_enter (t - 1) p s) (\<lambda>_ s. queue_leave t i p s)
         else Ret () s)"

definition mlfq_age :: "'a kproc_scheme \<Rightarrow> (unit, 'a kproc_scheme) outcome" where
  "mlfq_age s = forK (\<lambda>t s. forK (mlfq_age1 t) [0..<NPROC] s) [1..<5] s"

text \<open>\<open>pstat_var.num_run[p->pid]++\<close> and the switch to \<open>p\<close>.\<close>

definition mlfq_run :: "nat \<Rightarrow> nat \<Rightarrow> nat \<Rightarrow> 'a kproc_scheme \<Rightarrow> ((nat \<times> nat \<times> nat) option, 'a kproc_scheme) outcome" where
  "mlfq_run t i p s =
     (let pid = p_pid (procs s p); st = pstat_var s
      in if pid < 0 \<or> 64 \<le> pid then Fault ''pstat_var''
         else
           bindK (dispatch p (s\<lparr>pstat_var := st\<lparr>num_run := (num_run st)(nat pid := num_run st (nat pid) + 1)\<rparr>\<rparr>)) (\<lambda>_ s.
           Ret (Some (t, i, p)) s))"

text \<open>The loops over the queues, from entry \<open>i\<close> of queue \<open>t\<close> on.\<close>

function mlfq_from :: "nat \<Rightarrow> nat \<Rightarrow> 'a kproc_scheme \<Rightarrow> ((nat \<times> nat \<times> nat) option, 'a kproc_scheme) outcome" where
  "mlfq_from t i s =
     (if t \<ge> 5 then bindK (release PtableLk s) (\<lambda>_ s. Ret None s)
      else if int i \<le> cxj s t then
        if i \<ge> 64 then Fault ''qxj''
        else case qxj s t i of
          None \<Rightarrow> Fault ''null process''
        | Some p \<Rightarrow> if pst s p \<noteq> RUNNABLE then mlfq_from t (i + 1) s else mlfq_run t i p s
      else mlfq_from (t + 1) 0 s)"
  by pat_completeness auto
termination
  by (relation "measures [\<lambda>(t, i, s). 5 - t, \<lambda>(t, i, s). nat (cxj s t + 1) - i]") auto

declare mlfq_from.simps [simp del]

definition MLFQ_scheduler :: "'a kproc_scheme \<Rightarrow> ((nat \<times> nat \<times> nat) option, 'a kproc_scheme) outcome" where
  "MLFQ_scheduler s =
     bindK (acquire PtableLk s) (\<lambda>_ s.
     bindK (mlfq_age s) (\<lambda>_ s. mlfq_from 0 0 s))"

text \<open>
  What happens when process \<open>p\<close>, entry \<open>i\<close> of queue \<open>t\<close>, has come back: its time is recorded, and
  it moves down when it has used its slice, or to the end of the last queue.
\<close>

definition mlfq_back :: "nat \<Rightarrow> nat \<Rightarrow> nat \<Rightarrow> 'a kproc_scheme \<Rightarrow> (unit, 'a kproc_scheme) outcome" where
  "mlfq_back t i p s =
     (let pid = nat (p_pid (procs s p));
          st = pstat_var s;
          k = (if t < 4 then t else 3);
          s = s\<lparr>pstat_var := st\<lparr>st_ticks := (st_ticks st)(pid := (st_ticks st pid)(k := num_run st pid))\<rparr>\<rparr>
      in if t < 4 then
           if num_run st pid = timedur t then
             bindK (queue_enter (t + 1) p s) (\<lambda>_ s. queue_leave t (int i) p s)
           else Ret () s
         else if cxj s 4 < 0 \<or> 64 \<le> cxj s 4 then Fault ''qxj''
         else
           let c = nat (cxj s 4)
           in Ret () (s\<lparr>qxj := (qxj s)(4 := (shift_row i c (qxj s 4))(c := Some p))\<rparr>))"

definition mlfq_resume :: "nat \<Rightarrow> nat \<Rightarrow> nat \<Rightarrow> 'a kproc_scheme \<Rightarrow> ((nat \<times> nat \<times> nat) option, 'a kproc_scheme) outcome" where
  "mlfq_resume t i p s =
     bindK (mlfq_back t i p (switchkvm s)) (\<lambda>_ s. mlfq_from t (i + 1) (s\<lparr>cpu_proc := None\<rparr>))"

section \<open>The scheduler loop\<close>

datatype policy = DEFAULT | PBS | FCFS | MLFQ

definition scheduler_name :: "policy \<Rightarrow> string" where
  "scheduler_name pol = (case pol of DEFAULT \<Rightarrow> ''Default'' | PBS \<Rightarrow> ''Priority Based'' | FCFS \<Rightarrow> ''FCFS'' | MLFQ \<Rightarrow> ''MLFQ'')"

text \<open>
  One turn of the loop of \<open>scheduler\<close> for the policy the kernel is compiled with: the name of the
  policy is printed once, \<open>clj\<close> counts, and a pass begins. \<^term>\<open>None\<close> is a pass that does not end.
\<close>

definition scheduler :: "policy \<Rightarrow> int \<Rightarrow> 'a kproc_scheme \<Rightarrow> int \<times> (nat option, 'a kproc_scheme) outcome option" where
  "scheduler pol clj s =
     (if clj = 0 then
        (1, case cprintf (''SCHEDULER: '' @ scheduler_name pol @ [CHR 0x0A]) [] s of
              Ret _ s \<Rightarrow> (case pol of
                 DEFAULT \<Rightarrow> Some (default_scheduler s)
               | PBS \<Rightarrow> Some (priority_scheduler s)
               | FCFS \<Rightarrow> fcfs_scheduler s
               | MLFQ \<Rightarrow> Some (bindK (MLFQ_scheduler s) (\<lambda>r s. Ret (map_option (snd \<circ> snd) r) s)))
            | Panic m \<Rightarrow> Some (Panic m) | Fault m \<Rightarrow> Some (Fault m) | Swtch s \<Rightarrow> Some (Swtch s))
      else
        (clj, case pol of
                DEFAULT \<Rightarrow> Some (default_scheduler s)
              | PBS \<Rightarrow> Some (priority_scheduler s)
              | FCFS \<Rightarrow> fcfs_scheduler s
              | MLFQ \<Rightarrow> Some (bindK (MLFQ_scheduler s) (\<lambda>r s. Ret (map_option (snd \<circ> snd) r) s))))"

section \<open>Reports\<close>

text \<open>\<open>getcallerpcs\<close> follows the chain of saved frame pointers; the result has always ten entries.\<close>

fun callerpcs :: "nat \<Rightarrow> addr \<Rightarrow> (addr \<Rightarrow> byte) \<Rightarrow> uint list" where
  "callerpcs 0 ebp m = []"
| "callerpcs (Suc n) ebp m =
     (if ebp = 0 \<or> ebp < KERNBASE \<or> ebp = 0xFFFFFFFF then replicate (Suc n) 0
      else load32 m (ebp + 4) # callerpcs n (load32 m ebp) m)"

definition getcallerpcs :: "addr \<Rightarrow> (addr \<Rightarrow> byte) \<Rightarrow> uint list" where
  "getcallerpcs v m = callerpcs 10 (v - 8) m"

definition state_name :: "procstate \<Rightarrow> string" where
  "state_name st = (case st of UNUSED \<Rightarrow> ''unused'' | EMBRYO \<Rightarrow> ''embryo'' | SLEEPING \<Rightarrow> ''sleep '' | RUNNABLE \<Rightarrow> ''runble''
     | RUNNING \<Rightarrow> ''run   '' | ZOMBIE \<Rightarrow> ''zombie'')"

definition ctx_ebp :: uint where "ctx_ebp = 12"

definition procdump :: "'a kproc_scheme \<Rightarrow> (unit, 'a kproc_scheme) outcome" where
  "procdump s =
     forK (\<lambda>p s.
       if pst s p = UNUSED then Ret () s
       else
         bindK (cprintf ''%d %s %s'' [PInt (word_of_int (p_pid (procs s p))), PStr (Some (state_name (pst s p))),
                  PStr (Some (p_name (procs s p)))] s) (\<lambda>_ s.
         bindK (if pst s p = SLEEPING then
                  forK (\<lambda>pc s. cprintf '' %p'' [PInt pc] s)
                    (takeWhile (\<lambda>pc. pc \<noteq> 0) (getcallerpcs (load32 (mem s) (p_context (procs s p) + ctx_ebp) + 8) (mem s))) s
                else Ret () s) (\<lambda>_ s.
         cprintf [CHR 0x0A] [] s))) [0..<NPROC] s"

text \<open>
  \<open>struct proc_stat\<close> in memory: the arrays one after the other, 64 words each, \<open>ticks\<close> with
  five words per entry, of which \<open>getpinfo\<close> copies four. \<open>getpinfo\<close> stores entry after entry.
\<close>

definition sizeof_proc_stat :: uint where "sizeof_proc_stat = 64 * 4 * 10"

definition store_word :: "addr \<Rightarrow> uint \<Rightarrow> 'a kproc_scheme \<Rightarrow> (unit, 'a kproc_scheme) outcome" where
  "store_word a w s = store_bytes a (bytes32 w) s"

definition getpinfo :: "'a kproc_scheme \<Rightarrow> (int, 'a kproc_scheme) outcome" where
  "getpinfo s =
     bindK (argptr 0 sizeof_proc_stat s) (\<lambda>r s.
     case r of
       None \<Rightarrow> Ret (-1) s
     | Some a \<Rightarrow>
         bindK (forK (\<lambda>i s.
           let o4 = a + 4 * of_nat i; st = pstat_var s
           in bindK (store_word o4 (word_of_int (inuse st i)) s) (\<lambda>_ s.
              bindK (store_word (o4 + 256) (word_of_int (st_pid st i)) s) (\<lambda>_ s.
              bindK (store_word (o4 + 768) (word_of_int (num_run st i)) s) (\<lambda>_ s.
              bindK (store_word (o4 + 1024) (word_of_int (current_queue st i)) s) (\<lambda>_ s.
              bindK (store_word (o4 + 512) (runtime st i) s) (\<lambda>_ s.
              forK (\<lambda>j s. store_word (a + 1280 + 20 * of_nat i + 4 * of_nat j) (word_of_int (st_ticks st i j)) s) [0..<4] s))))))
           [0..<64] s) (\<lambda>_ s. Ret 0 s))"

section \<open>Queues as lists\<close>

definition mlfq_queue :: "nat \<Rightarrow> 'a kproc_scheme \<Rightarrow> nat option list" where
  "mlfq_queue t s = map (qxj s t) [0..<nat (cxj s t + 1)]"

lemma shift_row_apply:
  "i \<le> c \<Longrightarrow> shift_row i c q j = (if i \<le> j \<and> j < c then q (j + 1) else if i = c \<and> j = c then None else q j)"
proof (induction c arbitrary: j)
  case 0
  then show ?case by (simp add: shift_row_def)
next
  case (Suc c)
  show ?case
  proof (cases "i \<le> c")
    case True
    have s: "shift_row i (Suc c) q = (shift_row i c q)(c := shift_row i c q (c + 1))"
      using True by (simp add: shift_row_def)
    have "shift_row i c q (c + 1) = q (c + 1)" using True Suc.IH [of "c + 1"] by simp
    then show ?thesis unfolding s using True Suc.IH [of j] by auto
  next
    case False
    then have "i = Suc c" using Suc.prems by simp
    then show ?thesis by (auto simp: shift_row_def)
  qed
qed

lemma shift_row_beyond: "c < i \<Longrightarrow> shift_row i c q = q(i := None)"
  by (simp add: shift_row_def)

lemma queue_row_delete:
  assumes "i \<le> c"
  shows "map (shift_row i c q) [0..<c] = take i (map q [0..<Suc c]) @ drop (Suc i) (map q [0..<Suc c])"
proof (rule nth_equalityI)
  show "length (map (shift_row i c q) [0..<c]) = length (take i (map q [0..<Suc c]) @ drop (Suc i) (map q [0..<Suc c]))"
    using assms by simp
  fix j assume "j < length (map (shift_row i c q) [0..<c])"
  then have j: "j < c" by simp
  show "map (shift_row i c q) [0..<c] ! j = (take i (map q [0..<Suc c]) @ drop (Suc i) (map q [0..<Suc c])) ! j"
    using assms j by (simp add: shift_row_apply nth_append take_map drop_map del: upt_Suc)
qed

text \<open>Entering and leaving a queue, on lists.\<close>

lemma queue_enter_run:
  assumes "- 1 \<le> cxj s t" and "cxj s t < 63"
  shows "\<exists>s'. queue_enter t p s = Ret () s' \<and> mlfq_queue t s' = mlfq_queue t s @ [Some p]
    \<and> (\<forall>t'. t' \<noteq> t \<longrightarrow> mlfq_queue t' s' = mlfq_queue t' s) \<and> cxj s' = (cxj s)(t := cxj s t + 1) \<and> (\<forall>t'. t' \<noteq> t \<longrightarrow> qxj s' t' = qxj s t')
    \<and> procs s' = procs s \<and> current_queue (pstat_var s') (nat (p_pid (procs s p))) = int t"
proof -
  let ?c = "nat (cxj s t + 1)"
  have c: "nat (cxj s t + 1 + 1) = Suc ?c" using assms(1) by simp
  have "map ((qxj s t)(?c := Some p)) [0..<Suc ?c] = map (qxj s t) [0..<?c] @ [Some p]" by simp
  then show ?thesis using assms c by (auto simp: queue_enter_def Let_def mlfq_queue_def)
qed

lemma queue_leave_run:
  assumes "0 \<le> cxj s t" and "cxj s t < 64" and "int i \<le> cxj s t"
  shows "\<exists>s'. queue_leave t (int i) p s = Ret () s'
    \<and> mlfq_queue t s' = take i (mlfq_queue t s) @ drop (Suc i) (mlfq_queue t s)
    \<and> (\<forall>t'. t' \<noteq> t \<longrightarrow> mlfq_queue t' s' = mlfq_queue t' s) \<and> cxj s' = (cxj s)(t := cxj s t - 1)
    \<and> procs s' = procs s \<and> num_run (pstat_var s') (nat (p_pid (procs s p))) = 0
    \<and> current_queue (pstat_var s') = current_queue (pstat_var s)"
proof -
  let ?c = "nat (cxj s t)"
  have c: "nat (cxj s t + 1) = Suc ?c" "i \<le> ?c" "nat (cxj s t - 1 + 1) = ?c" using assms by auto
  have "map ((shift_row i ?c (qxj s t))(?c := None)) [0..<?c] = map (shift_row i ?c (qxj s t)) [0..<?c]" by simp
  also note queue_row_delete [OF c(2), of "qxj s t"]
  finally show ?thesis using assms c by (auto simp: queue_leave_def queue_delete_def Let_def mlfq_queue_def simp del: upt_Suc)
qed

section \<open>Properties\<close>

text \<open>
  C30: when a process comes back to the multi-level scheduler, the queues stay lists without holes. In the first
  four levels a process that has used up its slice moves from its place to the end of the next level, with
  its run counter reset, and one that has not keeps its place; in the last level it moves to the end of its own queue.
\<close>

theorem mlfq_back_correct:
  assumes "t < 5" and "int i \<le> cxj s t" and "cxj s t < 64" and "qxj s t i = Some p" and "t < 4 \<Longrightarrow> - 1 \<le> cxj s (t + 1) \<and> cxj s (t + 1) < 63"
  defines "pid \<equiv> nat (p_pid (procs s p))"
  defines "rest \<equiv> take i (mlfq_queue t s) @ drop (Suc i) (mlfq_queue t s)"
  shows "\<exists>s'. mlfq_back t i p s = Ret () s' \<and>
    (if t = 4 then mlfq_queue 4 s' = rest @ [Some p] \<and> (\<forall>u. u \<noteq> 4 \<longrightarrow> mlfq_queue u s' = mlfq_queue u s)
     else if num_run (pstat_var s) pid = timedur t then
       mlfq_queue t s' = rest \<and> mlfq_queue (t + 1) s' = mlfq_queue (t + 1) s @ [Some p]
       \<and> (\<forall>u. u \<noteq> t \<and> u \<noteq> t + 1 \<longrightarrow> mlfq_queue u s' = mlfq_queue u s)
       \<and> current_queue (pstat_var s') pid = int (t + 1) \<and> num_run (pstat_var s') pid = 0
     else \<forall>u. mlfq_queue u s' = mlfq_queue u s)"
proof -
  define st where "st = pstat_var s"
  define s1 where "s1 = s\<lparr>pstat_var := st\<lparr>st_ticks := (st_ticks st)(pid := (st_ticks st pid)(if t < 4 then t else 3 := num_run st pid))\<rparr>\<rparr>"
  have q: "mlfq_queue u s1 = mlfq_queue u s" for u by (simp add: s1_def mlfq_queue_def)
  have f: "cxj s1 = cxj s" "procs s1 = procs s" "qxj s1 = qxj s" by (simp_all add: s1_def)
  consider (last) "t = 4" | (stay) "t < 4" "num_run st pid \<noteq> timedur t" | (move) "t < 4" "num_run st pid = timedur t"
    using assms(1) by linarith
  then show ?thesis
  proof cases
    case last
    let ?c = "nat (cxj s 4)"
    have c: "nat (cxj s 4 + 1) = Suc ?c" "i \<le> ?c" using assms(2) last by auto
    have "map ((shift_row i ?c (qxj s 4))(?c := Some p)) [0..<Suc ?c] = map (shift_row i ?c (qxj s 4)) [0..<?c] @ [Some p]" by simp
    also note queue_row_delete [OF c(2), of "qxj s 4"]
    finally show ?thesis using assms(2,3) last c
      by (auto simp: mlfq_back_def Let_def mlfq_queue_def rest_def fun_upd_def simp del: upt_Suc)
  next
    case stay
    then have "mlfq_back t i p s = Ret () s1" by (simp add: mlfq_back_def Let_def s1_def st_def pid_def)
    then show ?thesis using stay q by (simp add: st_def)
  next
    case move
    from queue_enter_run [of s1 "t + 1" p] assms(5) [OF move(1)] obtain s2 where
      E: "queue_enter (t + 1) p s1 = Ret () s2" "mlfq_queue (t + 1) s2 = mlfq_queue (t + 1) s @ [Some p]"
        "\<forall>u. u \<noteq> t + 1 \<longrightarrow> mlfq_queue u s2 = mlfq_queue u s" "cxj s2 = (cxj s)(t + 1 := cxj s (t + 1) + 1)"
        "procs s2 = procs s" "current_queue (pstat_var s2) pid = int (t + 1)"
      by (auto simp: q f pid_def)
    from queue_leave_run [of s2 t i p] assms(2,3) E(4) obtain s3 where
      L: "queue_leave t (int i) p s2 = Ret () s3" "mlfq_queue t s3 = rest" "\<forall>u. u \<noteq> t \<longrightarrow> mlfq_queue u s3 = mlfq_queue u s2"
        "num_run (pstat_var s3) pid = 0" "current_queue (pstat_var s3) = current_queue (pstat_var s2)"
      by (auto simp: E(3,5) pid_def rest_def)
    have "mlfq_back t i p s = bindK (queue_enter (t + 1) p s1) (\<lambda>_ s. queue_leave t (int i) p s)"
      using move by (simp add: mlfq_back_def Let_def s1_def st_def pid_def)
    then show ?thesis using move E L by (simp add: st_def)
  qed
qed

text \<open>A table of runnable processes with the identifiers 5, 6, \dots, the first two of which wait in level 1.\<close>

definition kmlfq0 :: kproc where
  "kmlfq0 = kproc0\<lparr>procs := (\<lambda>i. proc0\<lparr>p_state := RUNNABLE, p_pid := int i + 5\<rparr>), ticks := 1000,
     cxj := (\<lambda>t. if t = 1 then 1 else - 1), qxj := (\<lambda>t i. if t = 1 then Some i else None),
     pstat_var := proc_stat0\<lparr>current_queue := (\<lambda>_. 1), num_run := (\<lambda>_. 60)\<rparr>\<rparr>"

lemma mlfq_queue_kmlfq0: "mlfq_queue (Suc 0) kmlfq0 = [Some 0, Some 1]" "mlfq_queue 0 kmlfq0 = []" "mlfq_queue 2 kmlfq0 = []"
proof -
  show "mlfq_queue (Suc 0) kmlfq0 = [Some 0, Some 1]" by (simp add: mlfq_queue_def kmlfq0_def upt_rec)
  show "mlfq_queue 0 kmlfq0 = []" "mlfq_queue 2 kmlfq0 = []" by (simp_all add: mlfq_queue_def kmlfq0_def)
qed

theorem mlfq_back_correct_witness:
  "\<exists>s'. mlfq_back 1 0 0 kmlfq0 = Ret () s' \<and> mlfq_queue (Suc 0) s' = [Some 1] \<and> mlfq_queue 2 s' = [Some 0]"
proof -
  have "int 0 \<le> cxj kmlfq0 1" "cxj kmlfq0 1 < 64" "qxj kmlfq0 1 0 = Some 0" "- 1 \<le> cxj kmlfq0 (1 + 1) \<and> cxj kmlfq0 (1 + 1) < 63"
    by (simp_all add: kmlfq0_def)
  moreover have "num_run (pstat_var kmlfq0) x = timedur (Suc 0)" for x by (simp add: kmlfq0_def timedur_def)
  ultimately show ?thesis
    using mlfq_back_correct [of 1 0 kmlfq0 0] by (auto simp: mlfq_queue_kmlfq0 numeral_2_eq_2 [symmetric])
qed

text \<open>
  C31: the code that moves a process which has waited too long one level up files it at the end of the higher level, but
  takes the identifier of the process for its place in the old level. It deletes the entry at that index, or the last
  entry when the identifier is beyond the end of the queue, so in general another process is lost from the queue and
  the process stays in both levels.
\<close>

theorem mlfq_aging_deletes_wrong_entry:
  assumes "1 \<le> t" "t < 5" and "pst s p = RUNNABLE" and "p_pid (procs s p) = int pid" and "pid < 64"
    and "current_queue (pstat_var s) pid = int t" and "ticks s - runtime (pstat_var s) pid \<ge> exceededTimedur"
    and "- 1 \<le> cxj s (t - 1)" and "cxj s (t - 1) < 63" and "0 \<le> cxj s t" and "cxj s t < 64"
  shows "\<exists>s'. mlfq_age1 t p s = Ret () s' \<and> mlfq_queue (t - 1) s' = mlfq_queue (t - 1) s @ [Some p]
    \<and> mlfq_queue t s' = (if int pid \<le> cxj s t then take pid (mlfq_queue t s) @ drop (Suc pid) (mlfq_queue t s)
                          else butlast (mlfq_queue t s))"
proof -
  obtain s1 where E: "queue_enter (t - 1) p s = Ret () s1" "mlfq_queue (t - 1) s1 = mlfq_queue (t - 1) s @ [Some p]"
      "mlfq_queue t s1 = mlfq_queue t s" "cxj s1 t = cxj s t"
    using queue_enter_run [OF assms(8,9), of p] assms(1) by auto
  have a: "mlfq_age1 t p s = queue_leave t (int pid) p s1"
    using assms E(1) by (simp add: mlfq_age1_def Let_def not_le)
  show ?thesis
  proof (cases "int pid \<le> cxj s t")
    case True
    then show ?thesis using queue_leave_run [of s1 t pid p] assms E a by auto
  next
    case False
    let ?c = "nat (cxj s t)"
    have c: "nat (cxj s t + 1) = Suc ?c" "?c < pid" using assms(10) False by auto
    have b: "butlast (mlfq_queue t s) = map (qxj s1 t) [0..<?c]"
      unfolding E(3) [symmetric] using c(1) E(4) by (simp add: mlfq_queue_def)
    have "map (((qxj s1 t)(pid := None))(?c := None)) [0..<?c] = map (qxj s1 t) [0..<?c]" using c(2) by simp
    then show ?thesis
      using False assms(1,5,10,11) E(2,4) c a b
      by (auto simp: queue_leave_def queue_delete_def Let_def shift_row_beyond mlfq_queue_def fun_upd_def)
  qed
qed

theorem mlfq_aging_deletes_wrong_entry_witness:
  "\<exists>s'. mlfq_age1 1 0 kmlfq0 = Ret () s' \<and> mlfq_queue 0 s' = [Some 0] \<and> mlfq_queue 1 s' = [Some 0]"
proof -
  have "pst kmlfq0 0 = RUNNABLE" "p_pid (procs kmlfq0 0) = int 5" "current_queue (pstat_var kmlfq0) 5 = int 1"
    "ticks kmlfq0 - runtime (pstat_var kmlfq0) 5 \<ge> exceededTimedur"
    "- 1 \<le> cxj kmlfq0 (1 - 1)" "cxj kmlfq0 (1 - 1) < 63" "0 \<le> cxj kmlfq0 1" "cxj kmlfq0 1 < 64" "\<not> int 5 \<le> cxj kmlfq0 1"
    by (simp_all add: kmlfq0_def proc_stat0_def exceededTimedur_def)
  then show ?thesis using mlfq_aging_deletes_wrong_entry [of 1 kmlfq0 0 5] by (simp add: mlfq_queue_kmlfq0)
qed

end
