(* ===== verification/Ring.thy ===== *)
theory Ring
  imports Prelude
begin

text \<open>
  Bounded queues. Pipes and the console keep bytes in an array indexed by counters that only grow
  and wrap around at 32 bits, reduced by the size of the array. \<open>slots\<close> is the sequence such an array
  stands for. The locale is the contract of a bounded queue, with what its clients derive from it.
\<close>

section \<open>Arrays with wrapping counters\<close>

definition slots :: "uint \<Rightarrow> (nat \<Rightarrow> 'b) \<Rightarrow> uint \<Rightarrow> uint \<Rightarrow> 'b list" where
  "slots N d r w = map (\<lambda>k. d (unat ((r + of_nat k) mod N))) [0..<unat (w - r)]"

lemma length_slots [simp]: "length (slots N d r w) = unat (w - r)"
  by (simp add: slots_def)

lemma slots_same [simp]: "slots N d r r = []"
  by (simp add: slots_def)

lemma slot_nat:
  assumes "unat N dvd 2 ^ 32"
  shows "unat ((r + of_nat k) mod N) = (unat (r :: uint) + k) mod unat N"
proof -
  have "unat (r + of_nat k) = (unat r + k) mod 2 ^ 32" by (simp add: unat_word_ariths unat_of_nat mod_add_right_eq)
  then show ?thesis using assms by (simp add: unat_mod_distrib mod_mod_cancel)
qed

lemma slot_inj:
  assumes N: "unat N dvd 2 ^ 32" and "i < j" "j - i < unat N"
  shows "unat ((r + of_nat i) mod N) \<noteq> unat ((r + of_nat j) mod (N :: uint))"
proof
  assume "unat ((r + of_nat i) mod N) = unat ((r + of_nat j) mod N)"
  then have "(unat r + i) mod unat N = (unat r + j) mod unat N" using N by (simp only: slot_nat)
  then have "unat N dvd (unat r + j) - (unat r + i)" using assms(2) by (metis mod_eq_dvd_iff_nat add_le_cancel_left less_imp_le)
  then have "unat N dvd j - i" by simp
  then show False using assms(2,3) by (auto dest: dvd_imp_le)
qed

lemma counter_step: "unat (w - r) < 2 ^ 32 - 1 \<Longrightarrow> unat (w + 1 - r) = Suc (unat (w - r :: uint))"
  using unat_inc [of "w - r"] by (simp add: algebra_simps)

lemma slots_put:
  assumes N: "unat N dvd 2 ^ 32" and l: "unat (w - r) < unat N"
  shows "slots N (d(unat (w mod N) := b)) r (w + 1) = slots N d r w @ [b]"
proof -
  let ?n = "unat (w - r)"
  have "unat N < 2 ^ 32" using unsigned_less [of N, where 'a = nat] by simp
  then have s: "unat (w + 1 - r) = Suc ?n" using l by (intro counter_step) simp
  have w: "w = r + of_nat ?n" by simp
  have "unat ((r + of_nat k) mod N) \<noteq> unat (w mod N)" if "k < ?n" for k
    using slot_inj [OF N that, of r] l that w by simp
  then show ?thesis using w by (simp add: slots_def s)
qed

lemma slots_get:
  assumes "r \<noteq> w"
  shows "slots N d r w = d (unat (r mod N)) # slots N d (r + 1) w"
proof -
  have "w - r \<noteq> 0" using assms by simp
  then have p: "0 < unat (w - r)" by (simp add: unat_gt_0)
  have "unat (w - (r + 1)) = unat (w - r) - 1" using unat_dec [OF p] by (simp add: algebra_simps)
  then have "unat (w - r) = Suc (unat (w - (r + 1)))" using p by simp
  then have "[0..<unat (w - r)] = 0 # map Suc [0..<unat (w - (r + 1))]" by (simp only: map_Suc_upt upt_conv_Cons)
  then show ?thesis by (simp add: slots_def add.assoc)
qed

text \<open>Taking back the last entry.\<close>

lemma slots_back: "e \<noteq> w \<Longrightarrow> slots N d w (e - 1) = butlast (slots N d w e)"
proof -
  assume "e \<noteq> w"
  then have "e - w \<noteq> 0" by simp
  then have p: "0 < unat (e - w)" by (simp add: unat_gt_0)
  have "unat (e - 1 - w) = unat (e - w) - 1" using unat_dec [OF p] by (simp add: algebra_simps)
  then show ?thesis using p by (simp add: slots_def butlast_conv_take take_map)
qed

lemma slots_last: "e \<noteq> w \<Longrightarrow> last (slots N d w e) = d (unat ((e - 1) mod N))"
proof -
  assume "e \<noteq> w"
  then have "e - w \<noteq> 0" by simp
  then have p: "0 < unat (e - w)" by (simp add: unat_gt_0)
  then have "w + of_nat (unat (e - w) - 1) = e - 1" by (simp add: of_nat_diff Suc_leI)
  then show ?thesis using p by (simp add: slots_def last_map)
qed

lemma slots_append:
  assumes "unat (w - r) + unat (e - w) < 2 ^ 32"
  shows "slots N d r e = slots N d r w @ slots N d w e"
proof (rule nth_equalityI)
  have l: "unat (e - r) = unat (w - r) + unat (e - w)"
    using assms unat_plus_simple [of "w - r" "unat (e - w)"] by simp
  then show "length (slots N d r e) = length (slots N d r w @ slots N d w e)" by simp
  fix k assume "k < length (slots N d r e)"
  then have k: "k < unat (w - r) + unat (e - w)" using l by simp
  show "slots N d r e ! k = (slots N d r w @ slots N d w e) ! k"
  proof (cases "k < unat (w - r)")
    case True
    then show ?thesis using l k by (simp add: nth_append) (simp add: slots_def)
  next
    case False
    then have e: "r + of_nat k = w + of_nat (k - unat (w - r))" by (simp add: of_nat_diff)
    have j: "k - unat (w - r) < unat (e - w)" using False k by linarith
    have "slots N d r e ! k = d (unat ((r + of_nat k) mod N))" using k l by (simp add: slots_def)
    moreover have "slots N d w e ! (k - unat (w - r)) = d (unat ((w + of_nat (k - unat (w - r))) mod N))"
      using j by (simp add: slots_def)
    ultimately show ?thesis using False by (simp only: nth_append length_slots if_False e)
  qed
qed

section \<open>The contract of a bounded queue\<close>

locale bounded_queue =
  fixes items :: "'q \<Rightarrow> 'b list" and good :: "'q \<Rightarrow> bool" and cap :: nat
    and put :: "'b \<Rightarrow> 'q \<Rightarrow> 'q" and top :: "'q \<Rightarrow> 'b" and pop :: "'q \<Rightarrow> 'q"
  assumes within: "good q \<Longrightarrow> length (items q) \<le> cap"
    and put_law: "good q \<Longrightarrow> length (items q) < cap \<Longrightarrow> good (put b q) \<and> items (put b q) = items q @ [b]"
    and pop_law: "good q \<Longrightarrow> items q \<noteq> [] \<Longrightarrow> good (pop q) \<and> items q = top q # items (pop q)"
begin

lemma put_all:
  "good q \<Longrightarrow> length (items q) + length bs \<le> cap \<Longrightarrow>
   good (fold put bs q) \<and> items (fold put bs q) = items q @ bs"
proof (induction bs arbitrary: q)
  case (Cons b bs)
  then show ?case using put_law [of q b] by simp
qed simp

lemma pop_many:
  "good q \<Longrightarrow> n \<le> length (items q) \<Longrightarrow>
   good ((pop ^^ n) q) \<and> items ((pop ^^ n) q) = drop n (items q) \<and> map (\<lambda>k. top ((pop ^^ k) q)) [0..<n] = take n (items q)"
proof (induction n)
  case (Suc n)
  then have IH: "good ((pop ^^ n) q)" "items ((pop ^^ n) q) = drop n (items q)"
      "map (\<lambda>k. top ((pop ^^ k) q)) [0..<n] = take n (items q)"
    by auto
  moreover have "drop n (items q) = items q ! n # drop (Suc n) (items q)" using Suc.prems by (simp add: Cons_nth_drop_Suc)
  ultimately show ?case using pop_law [OF IH(1)] Suc.prems by (auto simp: take_Suc_conv_app_nth)
qed simp

text \<open>What is put into a queue comes out in the same order, behind what was there.\<close>

lemma put_then_pop:
  assumes "good q" and "length (items q) + length bs \<le> cap"
  shows "items ((pop ^^ length (items q)) (fold put bs q)) = bs"
  using put_all [OF assms] pop_many [of "fold put bs q" "length (items q)"] by simp

end

end
