(* ===== verification/Console.thy ===== *)
theory Console
  imports Inode Mlfq Ring
begin

text \<open>
  The console: the screen (\<open>cgaputc\<close>), the line editor that turns key strokes into lines of input
  (\<open>consoleintr\<close>), and the console as a device (\<open>consoleread\<close>, \<open>consolewrite\<close>). Theory Kprint records
  the characters given to \<open>consputc\<close>; here is what the screen makes of them. The characters a
  keyboard or serial interrupt delivers are the list that \<open>getc\<close> answers one by one before it
  answers a negative number.
\<close>

section \<open>The screen\<close>

text \<open>The cursor position in the registers of the display and the cells of its memory.\<close>

record cga =
  cga_pos :: int
  crt :: "nat \<Rightarrow> 16 word"

definition cga_glyph :: "char \<Rightarrow> 16 word" where
  "cga_glyph c = ucast (ord c) OR 0x0700"

definition cga_move :: "conch \<Rightarrow> cga \<Rightarrow> cga" where
  "cga_move c g =
     (case c of
        BACKSPACE \<Rightarrow> if cga_pos g > 0 then g\<lparr>cga_pos := cga_pos g - 1\<rparr> else g
      | Ch ch \<Rightarrow>
          if ch = CHR 0x0A then g\<lparr>cga_pos := cga_pos g + (80 - cga_pos g mod 80)\<rparr>
          else g\<lparr>crt := (crt g)(nat (cga_pos g) := cga_glyph ch), cga_pos := cga_pos g + 1\<rparr>)"

definition cga_scroll :: "cga \<Rightarrow> cga" where
  "cga_scroll g =
     (if cga_pos g div 80 \<ge> 24 then
        let m = (\<lambda>i. if i < 23 * 80 then crt g (i + 80) else crt g i);
            pos = cga_pos g - 80
        in g\<lparr>cga_pos := pos, crt := (\<lambda>i. if nat pos \<le> i \<and> i < 24 * 80 then 0 else m i)\<rparr>
      else g)"

definition cgaputc :: "conch \<Rightarrow> cga \<Rightarrow> (unit, cga) outcome" where
  "cgaputc c g =
     (let g = cga_move c g
      in if cga_pos g < 0 \<or> cga_pos g > 25 * 80 then Panic ''pos under/overflow''
         else
           let g = cga_scroll g
           in Ret () (g\<lparr>crt := (crt g)(nat (cga_pos g) := 0x20 OR 0x0700)\<rparr>))"

section \<open>Keyboard input\<close>

definition INPUT_BUF :: uint where "INPUT_BUF = 128"

record kinput = kinode +
  in_buf :: "nat \<Rightarrow> byte"
  in_r :: uint
  in_w :: uint
  in_e :: uint

definition in_ix :: "uint \<Rightarrow> nat" where
  "in_ix i = unat (i mod INPUT_BUF)"

definition Cntl :: "char \<Rightarrow> int" where
  "Cntl x = of_char x - 64"

text \<open>Case \<open>C('U')\<close>: the characters back to the start of the line are erased.\<close>

function kill_line :: "'a kinput_scheme \<Rightarrow> 'a kinput_scheme" where
  "kill_line s =
     (if in_e s \<noteq> in_w s \<and> in_buf s (in_ix (in_e s - 1)) \<noteq> 0x0A
      then kill_line (consputc BACKSPACE (s\<lparr>in_e := in_e s - 1\<rparr>))
      else s)"
  by pat_completeness auto
termination
proof (relation "measure (\<lambda>s. unat (in_e s - in_w s))", goal_cases)
  case (2 s)
  then have "in_e s - in_w s \<noteq> 0" by simp
  then have "0 < unat (in_e s - in_w s)" by (simp add: unat_gt_0)
  then have "unat (in_e s - in_w s - 1) < unat (in_e s - in_w s)" by (simp add: unat_dec)
  then show ?case by (simp add: consputc_def algebra_simps)
qed simp

declare kill_line.simps [simp del]

text \<open>The default case, for a character \<open>c\<close> that is not 0.\<close>

definition take_char :: "int \<Rightarrow> 'a kinput_scheme \<Rightarrow> (unit, 'a kinput_scheme) outcome" where
  "take_char c s =
     (if c \<noteq> 0 \<and> in_e s - in_r s < INPUT_BUF then
        let c = (if c = 0x0D then 0x0A else c);
            s = s\<lparr>in_buf := (in_buf s)(in_ix (in_e s) := word_of_int c), in_e := in_e s + 1\<rparr>;
            s = consputc (Ch (chr (word_of_int c))) s
        in if c = 0x0A \<or> c = Cntl CHR ''D'' \<or> in_e s = in_r s + INPUT_BUF
           then wakeup CInput (s\<lparr>in_w := in_e s\<rparr>)
           else Ret () s
      else Ret () s)"

fun consoleintr_loop :: "int list \<Rightarrow> bool \<Rightarrow> 'a kinput_scheme \<Rightarrow> (bool, 'a kinput_scheme) outcome" where
  "consoleintr_loop [] doprocdump s = Ret doprocdump s"
| "consoleintr_loop (c # cs) doprocdump s =
     (if c < 0 then Ret doprocdump s
      else if c = Cntl CHR ''P'' then consoleintr_loop cs True s
      else if c = Cntl CHR ''U'' then consoleintr_loop cs doprocdump (kill_line s)
      else if c = Cntl CHR ''H'' \<or> c = 0x7F then
        consoleintr_loop cs doprocdump
          (if in_e s \<noteq> in_w s then consputc BACKSPACE (s\<lparr>in_e := in_e s - 1\<rparr>) else s)
      else bindK (take_char c s) (\<lambda>_ s. consoleintr_loop cs doprocdump s))"

definition consoleintr :: "int list \<Rightarrow> 'a kinput_scheme \<Rightarrow> (unit, 'a kinput_scheme) outcome" where
  "consoleintr cs s =
     bindK (acquire ConsLk s) (\<lambda>_ s.
     bindK (consoleintr_loop cs False s) (\<lambda>doprocdump s.
     bindK (release ConsLk s) (\<lambda>_ s.
     if doprocdump then procdump s else Ret () s)))"

section \<open>The console as a device\<close>

text \<open>
  Destinations and sources of data: the kernel reads a file into a local variable, \<^term>\<open>None\<close>, or to
  an address, and writes from a local variable or from an address. Reading answers the bytes as well.
\<close>

definition put_dst :: "addr option \<Rightarrow> nat \<Rightarrow> byte list \<Rightarrow> 'a kproc_scheme \<Rightarrow> (unit, 'a kproc_scheme) outcome" where
  "put_dst dst k bs s = (case dst of None \<Rightarrow> Ret () s | Some a \<Rightarrow> store_bytes (a + of_nat k) bs s)"

datatype csrc = Bytes "byte list" | Mem addr

fun get_src :: "csrc \<Rightarrow> nat \<Rightarrow> nat \<Rightarrow> 'a kproc_scheme \<Rightarrow> (byte list, 'a kproc_scheme) outcome" where
  "get_src (Bytes bs) k m s = Ret (take m (drop k bs)) s"
| "get_src (Mem a) k m s = load_bytes (a + of_nat k) m s"

text \<open>
  The loop of \<open>consoleread\<close> with \<open>n\<close> characters still wanted of \<open>target\<close>; \<open>got\<close> are those read so
  far. The result is the number \<open>n\<close> at the end, or \<^term>\<open>None\<close> where the process has been killed.
\<close>

fun consoleread_loop :: "addr option \<Rightarrow> nat \<Rightarrow> byte list \<Rightarrow> nat \<Rightarrow> 'a kinput_scheme \<Rightarrow>
  (nat option \<times> byte list, 'a kinput_scheme) outcome" where
  "consoleread_loop dst target got 0 s = Ret (Some 0, got) s"
| "consoleread_loop dst target got (Suc n) s =
     (if in_r s = in_w s then
        bindK (myproc s) (\<lambda>p s.
        if p_killed (procs s p) then Ret (None, got) s
        else bindK (sleep CInput ConsLk s) (\<lambda>_ s. Ret (None, got) s))
      else
        let c = in_buf s (in_ix (in_r s))
        in if c = 4 then Ret (Some (Suc n), got) (if Suc n < target then s else s\<lparr>in_r := in_r s + 1\<rparr>)
           else
             bindK (put_dst dst (length got) [c] (s\<lparr>in_r := in_r s + 1\<rparr>)) (\<lambda>_ s.
             if c = 0x0A then Ret (Some n, got @ [c]) s
             else consoleread_loop dst target (got @ [c]) n s))"

definition consoleread_tail :: "nat \<Rightarrow> addr option \<Rightarrow> nat \<Rightarrow> byte list \<Rightarrow> nat \<Rightarrow> 'a kinput_scheme \<Rightarrow>
  (int \<times> byte list, 'a kinput_scheme) outcome" where
  "consoleread_tail ip dst target got n s =
     bindK (consoleread_loop dst target got n s) (\<lambda>(r, bs) s.
     bindK (release ConsLk s) (\<lambda>_ s.
     bindK (ilock (Some ip) s) (\<lambda>_ s.
     Ret (case r of None \<Rightarrow> -1 | Some n \<Rightarrow> int target - int n, bs) s)))"

definition consoleread :: "nat \<Rightarrow> addr option \<Rightarrow> int \<Rightarrow> 'a kinput_scheme \<Rightarrow> (int \<times> byte list, 'a kinput_scheme) outcome" where
  "consoleread ip dst n s =
     bindK (iunlock (Some ip) s) (\<lambda>_ s.
     bindK (acquire ConsLk s) (\<lambda>_ s. consoleread_tail ip dst (nat n) [] (nat n) s))"

text \<open>The process has been woken up while it waited for \<open>n\<close> more characters.\<close>

definition consoleread_resume :: "nat \<Rightarrow> addr option \<Rightarrow> nat \<Rightarrow> byte list \<Rightarrow> nat \<Rightarrow> 'a kinput_scheme \<Rightarrow>
  (int \<times> byte list, 'a kinput_scheme) outcome" where
  "consoleread_resume ip dst target got n s =
     bindK (sleep_resume ConsLk s) (\<lambda>_ s. consoleread_tail ip dst target got n s)"

definition consolewrite :: "nat \<Rightarrow> csrc \<Rightarrow> int \<Rightarrow> 'a kinput_scheme \<Rightarrow> (int, 'a kinput_scheme) outcome" where
  "consolewrite ip buf n s =
     bindK (iunlock (Some ip) s) (\<lambda>_ s.
     bindK (acquire ConsLk s) (\<lambda>_ s.
     bindK (forK (\<lambda>i s. bindK (get_src buf i 1 s) (\<lambda>bs s. Ret () (consputc (Ch (chr (hd bs))) s))) [0..<nat n] s) (\<lambda>_ s.
     bindK (release ConsLk s) (\<lambda>_ s.
     bindK (ilock (Some ip) s) (\<lambda>_ s.
     Ret n s)))))"

section \<open>Device switch\<close>

definition NDEV :: nat where "NDEV = 10"

definition CONSOLE :: nat where "CONSOLE = 1"

text \<open>The device functions a table entry can point to.\<close>

datatype devfn = ConsoleDev

record kdev = kinput +
  dev_read :: "nat \<Rightarrow> devfn option"
  dev_write :: "nat \<Rightarrow> devfn option"

definition consoleinit :: "'a kdev_scheme \<Rightarrow> 'a kdev_scheme" where
  "consoleinit s =
     (let s = initlock ConsLk s
      in s\<lparr>dev_write := (dev_write s)(CONSOLE := Some ConsoleDev), dev_read := (dev_read s)(CONSOLE := Some ConsoleDev),
           cons_locking := True\<rparr>)"

section \<open>The line editor on sequences\<close>

text \<open>
  The input buffer holds the lines that wait for a reader and the line being typed. \<open>typed c\<close> is what
  one key stroke does to these two sequences.
\<close>

definition committed :: "'a kinput_scheme \<Rightarrow> byte list" where
  "committed s = slots INPUT_BUF (in_buf s) (in_r s) (in_w s)"

definition edit_line :: "'a kinput_scheme \<Rightarrow> byte list" where
  "edit_line s = slots INPUT_BUF (in_buf s) (in_w s) (in_e s)"

definition input_ok :: "'a kinput_scheme \<Rightarrow> bool" where
  "input_ok s \<longleftrightarrow> unat (in_w s - in_r s) + unat (in_e s - in_w s) \<le> 128 \<and> 0x0A \<notin> set (edit_line s)"

definition typed :: "int \<Rightarrow> byte list \<times> byte list \<Rightarrow> byte list \<times> byte list" where
  "typed c = (\<lambda>(done, line).
     if c = Cntl CHR ''P'' then (done, line)
     else if c = Cntl CHR ''U'' then (done, [])
     else if c = Cntl CHR ''H'' \<or> c = 0x7F then (done, butlast line)
     else if c \<noteq> 0 \<and> length done + length line < 128 then
       let c = (if c = 0x0D then 0x0A else c); line = line @ [word_of_int c]
       in if c = 0x0A \<or> c = Cntl CHR ''D'' \<or> length done + length line = 128 then (done @ line, []) else (done, line)
     else (done, line))"

lemma input_counts:
  assumes "input_ok s"
  shows "unat (in_e s - in_r s) = unat (in_w s - in_r s) + unat (in_e s - in_w s)"
proof -
  have "unat (in_w s - in_r s) + unat (in_e s - in_w s) < 2 ^ 32" using assms by (simp add: input_ok_def)
  from unat_plus_simple [OF this] show ?thesis by simp
qed

lemma consputc_input [simp]:
  "in_buf (consputc c s) = in_buf s" "in_r (consputc c s) = in_r s" "in_w (consputc c s) = in_w s" "in_e (consputc c s) = in_e s"
  "held (consputc c s) = held s"
  by (simp_all add: consputc_def)

lemma backspace_run:
  assumes "input_ok s" and "in_e s \<noteq> in_w s" and t: "t = consputc BACKSPACE (s\<lparr>in_e := in_e s - 1\<rparr>)"
  shows "input_ok t" and "committed t = committed s" and "edit_line t = butlast (edit_line s)"
proof -
  show e: "edit_line t = butlast (edit_line s)" using assms(2) by (simp add: t edit_line_def slots_back)
  show "committed t = committed s" by (simp add: t committed_def)
  have "length (edit_line t) \<le> length (edit_line s)" by (simp add: e)
  then show "input_ok t" using assms(1) e
    by (auto simp: input_ok_def edit_line_def t dest: in_set_butlastD)
qed

lemma kill_line_run:
  "input_ok s \<Longrightarrow> input_ok (kill_line s) \<and> committed (kill_line s) = committed s \<and> edit_line (kill_line s) = [] \<and> held (kill_line s) = held s"
proof (induction s rule: kill_line.induct)
  case (1 s)
  show ?case
  proof (cases "in_e s = in_w s")
    case True
    then show ?thesis using 1(2) by (subst (1 2 3 4) kill_line.simps) (simp add: edit_line_def)
  next
    case False
    have "last (edit_line s) \<in> set (edit_line s)" using False by (intro last_in_set) (auto simp: edit_line_def slots_def unat_eq_zero)
    then have n: "in_buf s (in_ix (in_e s - 1)) \<noteq> 0x0A"
      using 1(2) False by (auto simp: input_ok_def edit_line_def slots_last in_ix_def)
    let ?t = "consputc BACKSPACE (s\<lparr>in_e := in_e s - 1\<rparr>)"
    have "kill_line s = kill_line ?t" using False n by (subst kill_line.simps) simp
    then show ?thesis using 1(1) False n backspace_run [OF 1(2) False refl] by simp
  qed
qed

text \<open>A character goes behind the line.\<close>

lemma append_char:
  assumes "input_ok s" and "length (committed s) + length (edit_line s) < 128"
    and t: "in_buf t = (in_buf s)(in_ix (in_e s) := b)" "in_e t = in_e s + 1" "in_w t = in_w s" "in_r t = in_r s"
  shows "committed t = committed s \<and> edit_line t = edit_line s @ [b]"
proof -
  have N: "unat INPUT_BUF dvd 2 ^ 32" "unat INPUT_BUF = 128" by (simp_all add: INPUT_BUF_def)
  let ?r = "in_r s" and ?w = "in_w s" and ?e = "in_e s" and ?d = "in_buf s"
  have l: "unat (?e - ?r) < unat INPUT_BUF"
    using assms(2) N(2) by (simp add: input_counts [OF assms(1)] committed_def edit_line_def)
  have le: "unat (?e - ?w) < unat INPUT_BUF" using assms(2) N(2) by (simp add: edit_line_def)
  have s1: "unat (?e + 1 - ?w) = Suc (unat (?e - ?w))" using le N(2) by (intro counter_step) simp
  have "slots INPUT_BUF (in_buf t) ?r (?e + 1) = slots INPUT_BUF ?d ?r ?e @ [b]"
    using slots_put [OF N(1) l, of ?d b] t(1) by (simp add: in_ix_def)
  moreover have "slots INPUT_BUF ?d ?r ?e = committed s @ edit_line s"
    unfolding committed_def edit_line_def using assms(1) by (intro slots_append) (simp add: input_ok_def)
  moreover have "slots INPUT_BUF (in_buf t) ?r (?e + 1) = committed t @ edit_line t"
    unfolding committed_def edit_line_def t using assms(1) s1 by (intro slots_append) (simp add: input_ok_def)
  ultimately have "committed t @ edit_line t = committed s @ (edit_line s @ [b])" by simp
  moreover have "length (committed t) = length (committed s)" by (simp add: committed_def t)
  ultimately show ?thesis by simp
qed

lemma commit_line:
  assumes "committed t = done" and "edit_line t = line" and "unat (in_w t - in_r t) + unat (in_e t - in_w t) \<le> 128"
    and u: "in_buf u = in_buf t" "in_r u = in_r t" "in_w u = in_e t" "in_e u = in_e t"
  shows "committed u = done @ line \<and> edit_line u = [] \<and> input_ok u"
proof -
  have "committed u = slots INPUT_BUF (in_buf t) (in_r t) (in_e t)" by (simp add: committed_def u)
  also have "\<dots> = committed t @ edit_line t"
    unfolding committed_def edit_line_def using assms(3) by (intro slots_append) simp
  finally have "committed u = done @ line" using assms(1,2) by simp
  moreover have "unat (in_e t - in_r t) \<le> 128"
    using assms(3) unat_plus_simple [of "in_w t - in_r t" "unat (in_e t - in_w t)"] by simp
  ultimately show ?thesis by (simp add: edit_line_def input_ok_def u)
qed

lemma take_char_run:
  assumes "input_ok s" and "PtableLk \<notin> set (held s)" and "0 \<le> c" "c < 256"
    and "c \<noteq> Cntl CHR ''P''" "c \<noteq> Cntl CHR ''U''" "c \<noteq> Cntl CHR ''H''" "c \<noteq> 0x7F"
  shows "\<exists>t. take_char c s = Ret () t \<and> input_ok t \<and> (committed t, edit_line t) = typed c (committed s, edit_line s) \<and> held t = held s"
proof (cases "c \<noteq> 0 \<and> length (committed s) + length (edit_line s) < 128")
  case False
  have "in_e s - in_r s < INPUT_BUF \<longleftrightarrow> length (committed s) + length (edit_line s) < 128"
    by (simp add: word_less_nat_alt INPUT_BUF_def input_counts [OF assms(1)] committed_def edit_line_def)
  then show ?thesis using False assms by (auto simp: take_char_def typed_def)
next
  case True
  let ?c = "if c = 0x0D then 0x0A else c"
  let ?b = "word_of_int ?c :: byte"
  define t where "t = consputc (Ch (chr ?b)) (s\<lparr>in_buf := (in_buf s)(in_ix (in_e s) := ?b), in_e := in_e s + 1\<rparr>)"
  have A: "committed t = committed s" "edit_line t = edit_line s @ [?b]" "held t = held s"
    using append_char [OF assms(1), of t ?b] True by (auto simp: t_def)
  have f: "in_w t = in_w s" "in_r t = in_r s" "in_e t = in_e s + 1" by (simp_all add: t_def)
  have le: "length (edit_line t) = unat (in_e t - in_w t)" "length (committed t) = unat (in_w t - in_r t)"
    by (simp_all add: edit_line_def committed_def)
  then have n: "unat (in_w t - in_r t) + unat (in_e t - in_w t) \<le> 128" using A True by simp
  then have "unat (in_e t - in_r t) = length (committed t) + length (edit_line t)"
    using le unat_plus_simple [of "in_w t - in_r t" "unat (in_e t - in_w t)"] by simp
  moreover have "in_e t = in_r t + INPUT_BUF \<longleftrightarrow> in_e t - in_r t = 128" by (auto simp: INPUT_BUF_def algebra_simps)
  moreover have "in_e t - in_r t = 128 \<longleftrightarrow> unat (in_e t - in_r t) = unat (128 :: uint)" using unat_inj by auto
  ultimately have full: "in_e t = in_r t + INPUT_BUF \<longleftrightarrow> length (committed t) + length (edit_line t) = 128" by simp
  have g: "in_e s - in_r s < INPUT_BUF"
    using True by (simp add: word_less_nat_alt INPUT_BUF_def input_counts [OF assms(1)] committed_def edit_line_def)
  have run: "take_char c s = (if ?c = 0x0A \<or> ?c = Cntl CHR ''D'' \<or> in_e t = in_r t + INPUT_BUF
      then wakeup CInput (t\<lparr>in_w := in_e t\<rparr>) else Ret () t)"
    using True g by (simp add: take_char_def Let_def t_def)
  have ty: "typed c (committed s, edit_line s) = (if ?c = 0x0A \<or> ?c = Cntl CHR ''D'' \<or> in_e t = in_r t + INPUT_BUF
      then (committed t @ edit_line t, []) else (committed t, edit_line t))"
    using True assms(5-) A full by (simp add: typed_def Let_def)
  show ?thesis
  proof (cases "?c = 0x0A \<or> ?c = Cntl CHR ''D'' \<or> in_e t = in_r t + INPUT_BUF")
    case True
    let ?u = "wakeup1 (Some CInput) (t\<lparr>in_w := in_e t\<rparr>)"
    have "committed ?u = committed t @ edit_line t \<and> edit_line ?u = [] \<and> input_ok ?u"
      by (rule commit_line [OF refl refl n]) (simp_all add: wakeup1_def)
    moreover have "take_char c s = Ret () ?u" using run True assms(2) A(3) by (simp add: wakeup_eq)
    moreover have "held ?u = held s" using A(3) by (simp add: wakeup1_def)
    ultimately show ?thesis using ty True by auto
  next
    case False
    have "?b \<noteq> 0x0A"
    proof
      assume "?b = 0x0A"
      then have "uint ?b = 10" by simp
      then have "?c mod 256 = 10" by (simp add: uint_word_of_int)
      then show False using False assms(3,4) by (auto split: if_splits)
    qed
    then have "input_ok t" using assms(1) A(2) n by (auto simp: input_ok_def)
    then show ?thesis using run ty False A(3) by auto
  qed
qed

lemma consoleintr_loop_run:
  assumes "input_ok s" and "PtableLk \<notin> set (held s)" and "\<forall>c\<in>set cs. c < 256"
  defines "keys \<equiv> takeWhile (\<lambda>c. 0 \<le> c) cs"
  shows "\<exists>t. consoleintr_loop cs d s = Ret (d \<or> Cntl CHR ''P'' \<in> set keys) t \<and> input_ok t
    \<and> (committed t, edit_line t) = fold typed keys (committed s, edit_line s) \<and> held t = held s"
  unfolding keys_def using assms(1-3)
proof (induction cs arbitrary: d s)
  case (Cons c cs)
  let ?T = "\<lambda>c. typed c (committed s, edit_line s)"
  have step: "\<exists>t. consoleintr_loop (c # cs) d s = Ret (d \<or> Cntl CHR ''P'' \<in> set (takeWhile (\<lambda>c. 0 \<le> c) (c # cs))) t \<and> input_ok t
      \<and> (committed t, edit_line t) = fold typed (takeWhile (\<lambda>c. 0 \<le> c) (c # cs)) (committed s, edit_line s) \<and> held t = held s"
    if "0 \<le> c" and u: "consoleintr_loop (c # cs) d s = consoleintr_loop cs (d \<or> c = Cntl CHR ''P'') u" "input_ok u"
      "(committed u, edit_line u) = ?T c" "held u = held s" for u
    using Cons.IH [of u "d \<or> c = Cntl CHR ''P''"] u Cons.prems(2,3) \<open>0 \<le> c\<close> by auto
  consider "c < 0" | (P) "0 \<le> c" "c = Cntl CHR ''P''" | (U) "0 \<le> c" "c = Cntl CHR ''U''"
    | (H) "0 \<le> c" "c = Cntl CHR ''H'' \<or> c = 0x7F" | (ch) "0 \<le> c" "c \<noteq> Cntl CHR ''P''" "c \<noteq> Cntl CHR ''U''" "c \<noteq> Cntl CHR ''H''" "c \<noteq> 0x7F"
    by linarith
  then show ?case
  proof cases
    case P
    then show ?thesis by (intro step [of s]) (use Cons.prems in \<open>auto simp: typed_def\<close>)
  next
    case U
    then have "c \<noteq> Cntl CHR ''P''" by (simp add: Cntl_def)
    then show ?thesis using U kill_line_run [OF Cons.prems(1)] by (intro step [of "kill_line s"]) (auto simp: typed_def)
  next
    case H
    then have n: "c \<noteq> Cntl CHR ''P''" "c \<noteq> Cntl CHR ''U''" by (auto simp: Cntl_def)
    show ?thesis
    proof (cases "in_e s = in_w s")
      case True
      then show ?thesis using H n Cons.prems by (intro step [of s]) (auto simp: typed_def edit_line_def)
    next
      case False
      then show ?thesis using H n backspace_run [OF Cons.prems(1) False refl]
        by (intro step [of "consputc BACKSPACE (s\<lparr>in_e := in_e s - 1\<rparr>)"]) (auto simp: typed_def)
    qed
  next
    case ch
    then obtain u where "take_char c s = Ret () u" "input_ok u" "(committed u, edit_line u) = ?T c" "held u = held s"
      using take_char_run [OF Cons.prems(1,2)] Cons.prems(3) by auto
    then show ?thesis using ch by (intro step [of u]) auto
  qed (use Cons.prems in simp)
qed simp

section \<open>Properties\<close>

text \<open>
  C32: the console turns key strokes into lines. Whatever arrives in one interrupt, the waiting input and the line being
  typed are changed as \<open>typed\<close> says, one key after the other: a character is appended, backspace takes back the
  last one, control-U the whole line, and only a line that is finished, or fills the buffer, reaches the readers. What has
  been handed over is not changed any more, and the counters may wrap around.
\<close>

theorem consoleintr_edits:
  assumes "input_ok s" and "held s = []" and "\<forall>c\<in>set cs. c < 256" and "Cntl CHR ''P'' \<notin> set cs"
  shows "\<exists>t. consoleintr cs s = Ret () t \<and> input_ok t \<and> held t = []
    \<and> (committed t, edit_line t) = fold typed (takeWhile (\<lambda>c. 0 \<le> c) cs) (committed s, edit_line s)
    \<and> (\<exists>more. committed t = committed s @ more)"
proof -
  let ?s = "s\<lparr>held := [ConsLk]\<rparr>"
  have q: "input_ok ?s" "committed ?s = committed s" "edit_line ?s = edit_line s"
    using assms(1) by (simp_all add: input_ok_def committed_def edit_line_def)
  have nP: "Cntl CHR ''P'' \<notin> set (takeWhile (\<lambda>c. 0 \<le> c) cs)" using assms(4) by (auto dest: set_takeWhileD)
  obtain t where t: "consoleintr_loop cs False ?s = Ret False t" "input_ok t" "held t = [ConsLk]"
      "(committed t, edit_line t) = fold typed (takeWhile (\<lambda>c. 0 \<le> c) cs) (committed s, edit_line s)"
    using consoleintr_loop_run [OF q(1) _ assms(3), of False] nP q by auto
  have "consoleintr cs s = Ret () (t\<lparr>held := []\<rparr>)" using assms(2) t(1,3) by (simp add: consoleintr_def)
  moreover have "input_ok (t\<lparr>held := []\<rparr>)" "committed (t\<lparr>held := []\<rparr>) = committed t" "edit_line (t\<lparr>held := []\<rparr>) = edit_line t"
    using t(2) by (simp_all add: input_ok_def committed_def edit_line_def)
  moreover have "\<exists>more. fst (fold typed keys (a, l)) = a @ more" for keys and a l :: "byte list"
  proof (induction keys arbitrary: a l)
    case (Cons k keys)
    obtain a' l' where T: "typed k (a, l) = (a', l')" by fastforce
    then have "\<exists>m. a' = a @ m" by (auto simp: typed_def Let_def split: if_splits)
    then show ?case using Cons.IH [of a' l'] T by auto
  qed simp
  then have "\<exists>more. committed t = committed s @ more" using t(4) by (metis fst_conv)
  ultimately show ?thesis using t(4) by auto
qed

definition kinput0 :: kinput where
  "kinput0 = kproc.extend kuser0 (ksleep_ext (\<lambda>_. unowned) (kbio_ext 1000 (\<lambda>_ _. 0) []
     (\<lambda>_. \<lparr>b_valid = False, b_dirty = False, b_dev = 0, b_blockno = 0, b_refcnt = 0, b_data = (\<lambda>_. 0)\<rparr>) (\<lambda>_. 0) (\<lambda>_. 0)
     (klog_ext 2 30 0 False 1 0 (\<lambda>_. 0) (kinode_ext (get_superblock (\<lambda>_. 0)) (\<lambda>_. \<lparr>i_dev = 0, i_inum = 0, i_ref = 0, i_valid = False,
       i_type = 0, i_major = 0, i_minor = 0, i_nlink = 0, i_size = 0, i_addrs = (\<lambda>_. 0)\<rparr>) (kinput_ext (\<lambda>_. 0) 0 0 0 ())))))"

text \<open>The keys l, x, backspace, s, return.\<close>

theorem consoleintr_edits_witness:
  "\<exists>t. consoleintr [0x6C, 0x78, 8, 0x73, 0x0D, -1] kinput0 = Ret () t \<and> committed t = [0x6C, 0x73, 0x0A] \<and> edit_line t = []"
proof -
  have k: "input_ok kinput0" "held kinput0 = []" "committed kinput0 = []" "edit_line kinput0 = []"
    by (simp_all add: input_ok_def committed_def edit_line_def kinput0_def kproc.extend_def kuser0_def kproc0_def)
  have "fold typed [0x6C, 0x78, 8, 0x73, 0x0D] ([], []) = ([0x6C, 0x73, 0x0A], [])"
    by (simp add: typed_def Cntl_def)
  then show ?thesis
    using consoleintr_edits [OF k(1,2), of "[0x6C, 0x78, 8, 0x73, 0x0D, -1]"] k(3,4) by (auto simp: Cntl_def)
qed

text \<open>Where the cursor goes, and the cells with the character in place, before any scrolling.\<close>

definition cga_next :: "conch \<Rightarrow> int \<Rightarrow> int" where
  "cga_next c p = (case c of BACKSPACE \<Rightarrow> max 0 (p - 1) | Ch ch \<Rightarrow> if ch = CHR 0x0A then 80 * (p div 80 + 1) else p + 1)"

definition cga_shown :: "conch \<Rightarrow> cga \<Rightarrow> nat \<Rightarrow> 16 word" where
  "cga_shown c g = (case c of BACKSPACE \<Rightarrow> crt g | Ch ch \<Rightarrow> if ch = CHR 0x0A then crt g else (crt g)(nat (cga_pos g) := cga_glyph ch))"

text \<open>
  C33: the cursor never leaves the 24 rows of 80 columns that the console uses, so \<open>cgaputc\<close> does not panic and
  never writes behind them. A character is shown at the cursor and the cursor moves on; at the end of the last row all
  rows move up by one and the new last row is empty.
\<close>

theorem cgaputc_correct:
  assumes "0 \<le> cga_pos g" and "cga_pos g < 24 * 80"
  shows "\<exists>g'. cgaputc c g = Ret () g' \<and> crt g' (nat (cga_pos g')) = 0x0720
    \<and> (let m = cga_next c (cga_pos g); shown = cga_shown c g
       in cga_pos g' = (if m < 24 * 80 then m else 23 * 80)
          \<and> (\<forall>i. i \<noteq> nat (cga_pos g') \<longrightarrow>
               crt g' i = (if 24 * 80 \<le> i \<or> m < 24 * 80 then shown i else if i < 23 * 80 then shown (i + 80) else 0)))"
proof -
  define p where "p = cga_pos g"
  define m where "m = cga_next c p"
  define shown where "shown = cga_shown c g"
  have d: "p - p mod 80 = 80 * (p div 80)" using minus_mod_eq_mult_div [of p 80] by simp
  have "p div 80 < 24" using assms(2) by (simp add: p_def)
  then have b: "80 * (p div 80 + 1) \<le> 24 * 80" by presburger
  have "0 \<le> p div 80" using assms(1) by (simp add: p_def pos_imp_zdiv_nonneg_iff)
  then have M: "0 \<le> m" "m \<le> 24 * 80"
    using b assms(1,2) unfolding m_def p_def cga_next_def by (cases c; simp)+
  have mv: "cga_pos (cga_move c g) = m" "crt (cga_move c g) = shown"
    using d assms(1) by (auto simp: cga_move_def m_def shown_def p_def cga_next_def cga_shown_def split: conch.split)
  have run: "cgaputc c g = Ret () ((cga_scroll (cga_move c g))\<lparr>crt := (crt (cga_scroll (cga_move c g)))(nat (cga_pos (cga_scroll (cga_move c g))) := 0x0720)\<rparr>)"
    using M by (simp add: cgaputc_def Let_def mv)
  show ?thesis
  proof (cases "m < 24 * 80")
    case True
    then have "\<not> m div 80 \<ge> 24" by simp
    then have "cga_scroll (cga_move c g) = cga_move c g" by (simp add: cga_scroll_def mv)
    then show ?thesis using run True mv by (auto simp: m_def shown_def p_def)
  next
    case False
    then have e: "m = 1920" using M by simp
    then show ?thesis unfolding run m_def [symmetric] shown_def [symmetric] p_def [symmetric] using mv by (auto simp: cga_scroll_def Let_def)
  qed
qed

theorem cgaputc_correct_witness:
  "\<exists>g'. cgaputc (Ch CHR ''x'') \<lparr>cga_pos = 1919, crt = (\<lambda>i. of_nat i)\<rparr> = Ret () g' \<and> cga_pos g' = 1840 \<and> crt g' 1839 = 0x0778 \<and> crt g' 0 = 80"
  using cgaputc_correct [of "\<lparr>cga_pos = 1919, crt = (\<lambda>i. of_nat i)\<rparr>" "Ch CHR ''x''"] by (auto simp: cga_glyph_def ord_def cga_next_def cga_shown_def Let_def)

end
