(* ===== verification/Fs.thy ===== *)
theory Fs
  imports Console
begin

text \<open>
  The upper half of fs.c: contents of files, directories and path names. Offsets and sizes are the
  values of the C \<open>uint\<close>s. Reading answers the number of bytes, or -1, and the bytes themselves, which it
  also stores at the destination if that is an address.
\<close>

section \<open>Contents\<close>

function readi_loop :: "nat \<Rightarrow> addr option \<Rightarrow> nat \<Rightarrow> nat \<Rightarrow> nat \<Rightarrow> 'a kdev_scheme \<Rightarrow> (byte list, 'a kdev_scheme) outcome" where
  "readi_loop ip dst n tot off s =
     (if tot < n then
        bindK (bmap ip (off div BSIZE) s) (\<lambda>a s.
        bindK (bread (i_dev (inodes s ip)) a s) (\<lambda>bp s.
        let m = min (n - tot) (BSIZE - off mod BSIZE);
            bs = map (b_data (bufs s bp)) [off mod BSIZE..<off mod BSIZE + m]
        in bindK (put_dst dst tot bs s) (\<lambda>_ s.
           bindK (brelse bp s) (\<lambda>_ s.
           bindK (readi_loop ip dst n (tot + m) (off + m) s) (\<lambda>rest s.
           Ret (bs @ rest) s)))))
      else Ret [] s)"
  by pat_completeness auto
termination
  by (relation "measure (\<lambda>(ip, dst, n, tot, off, s). n - tot)") (auto simp: BSIZE_def)

declare readi_loop.simps [simp del]

definition readi :: "nat \<Rightarrow> addr option \<Rightarrow> nat \<Rightarrow> nat \<Rightarrow> 'a kdev_scheme \<Rightarrow> (int \<times> byte list, 'a kdev_scheme) outcome" where
  "readi ip dst off n s =
     (let i = inodes s ip
      in if i_type i = T_DEV then
           if i_major i < 0 \<or> i_major i \<ge> int NDEV \<or> dev_read s (nat (i_major i)) = None then Ret (-1, []) s
           else consoleread ip dst (iarg n) s
         else if off > i_size i \<or> off + n \<ge> 2 ^ 32 then Ret (-1, []) s
         else
           let n = (if off + n > i_size i then i_size i - off else n)
           in bindK (readi_loop ip dst n 0 off s) (\<lambda>bs s. Ret (iarg n, bs) s))"

text \<open>\<open>memmove(bp->data + o, src, m)\<close> for the bytes \<open>bs\<close> of the source.\<close>

definition put_bytes :: "nat \<Rightarrow> byte list \<Rightarrow> block \<Rightarrow> block" where
  "put_bytes k bs d = (\<lambda>i. if k \<le> i \<and> i < k + length bs then bs ! (i - k) else d i)"

function writei_loop :: "nat \<Rightarrow> csrc \<Rightarrow> nat \<Rightarrow> nat \<Rightarrow> nat \<Rightarrow> 'a kdev_scheme \<Rightarrow> (unit, 'a kdev_scheme) outcome" where
  "writei_loop ip src n tot off s =
     (if tot < n then
        bindK (bmap ip (off div BSIZE) s) (\<lambda>a s.
        bindK (bread (i_dev (inodes s ip)) a s) (\<lambda>bp s.
        let m = min (n - tot) (BSIZE - off mod BSIZE)
        in bindK (get_src src tot m s) (\<lambda>bs s.
           bindK (log_write bp (upd_data bp (put_bytes (off mod BSIZE) bs) s)) (\<lambda>_ s.
           bindK (brelse bp s) (\<lambda>_ s.
           writei_loop ip src n (tot + m) (off + m) s)))))
      else Ret () s)"
  by pat_completeness auto
termination
  by (relation "measure (\<lambda>(ip, src, n, tot, off, s). n - tot)") (auto simp: BSIZE_def)

declare writei_loop.simps [simp del]

definition writei :: "nat \<Rightarrow> csrc \<Rightarrow> nat \<Rightarrow> nat \<Rightarrow> 'a kdev_scheme \<Rightarrow> (int, 'a kdev_scheme) outcome" where
  "writei ip src off n s =
     (let i = inodes s ip
      in if i_type i = T_DEV then
           if i_major i < 0 \<or> i_major i \<ge> int NDEV \<or> dev_write s (nat (i_major i)) = None then Ret (-1) s
           else consolewrite ip src (iarg n) s
         else if off > i_size i \<or> off + n \<ge> 2 ^ 32 then Ret (-1) s
         else if off + n > MAXFILE * BSIZE then Ret (-1) s
         else
           bindK (writei_loop ip src n 0 off s) (\<lambda>_ s.
           bindK (if n > 0 \<and> off + n > i_size (inodes s ip)
                  then iupdate ip (upd_inode ip (\<lambda>q. q\<lparr>i_size := off + n\<rparr>) s)
                  else Ret () s) (\<lambda>_ s.
           Ret (iarg n) s)))"

section \<open>Directories\<close>

definition DIRSIZ :: nat where "DIRSIZ = 14"

text \<open>
  Names are strings without the null character that ends them; \<open>strncmp\<close> and \<open>strncpy\<close> on such
  strings.
\<close>

fun strncmp_str :: "nat \<Rightarrow> string \<Rightarrow> string \<Rightarrow> int" where
  "strncmp_str 0 p q = 0"
| "strncmp_str (Suc n) p q =
     (if p \<noteq> [] \<and> q \<noteq> [] \<and> hd p = hd q then strncmp_str n (tl p) (tl q)
      else (if p = [] then 0 else of_char (hd p)) - (if q = [] then 0 else of_char (hd q)))"

definition namecmp :: "string \<Rightarrow> string \<Rightarrow> int" where
  "namecmp s t = strncmp_str DIRSIZ s t"

definition strncpy_str :: "nat \<Rightarrow> string \<Rightarrow> byte list" where
  "strncpy_str n t = map ord (take n t) @ replicate (n - length t) 0"

text \<open>\<open>struct dirent\<close>: inode number and name, in 16 bytes.\<close>

definition get_dirent :: "byte list \<Rightarrow> nat \<times> string" where
  "get_dirent bs =
     (unat (bs ! 0) + 256 * unat (bs ! 1), map chr (takeWhile (\<lambda>b. b \<noteq> 0) (take DIRSIZ (drop 2 bs))))"

definition put_dirent :: "nat \<Rightarrow> string \<Rightarrow> byte list" where
  "put_dirent inum name = [of_nat inum, of_nat (inum div 256)] @ strncpy_str DIRSIZ name"

text \<open>The offsets of the entries of a directory; its size does not change while it is locked.\<close>

definition dirent_offs :: "nat \<Rightarrow> nat \<Rightarrow> nat list" where
  "dirent_offs start sz = map (\<lambda>k. 16 * k) [start..<(sz + 15) div 16]"

fun dirlookup_loop :: "nat \<Rightarrow> string \<Rightarrow> nat list \<Rightarrow> 'a kdev_scheme \<Rightarrow> ((nat \<times> nat) option, 'a kdev_scheme) outcome" where
  "dirlookup_loop dp name [] s = Ret None s"
| "dirlookup_loop dp name (off # offs) s =
     bindK (readi dp None off 16 s) (\<lambda>(r, bs) s.
     if r \<noteq> 16 then Panic ''dirlookup read''
     else
       let (inum, dname) = get_dirent bs
       in if inum = 0 then dirlookup_loop dp name offs s
          else if namecmp name dname = 0 then
            bindK (iget (i_dev (inodes s dp)) inum s) (\<lambda>ip s. Ret (Some (ip, off)) s)
          else dirlookup_loop dp name offs s)"

text \<open>The inode and the offset of its entry, which the caller may ignore.\<close>

definition dirlookup :: "nat \<Rightarrow> string \<Rightarrow> 'a kdev_scheme \<Rightarrow> ((nat \<times> nat) option, 'a kdev_scheme) outcome" where
  "dirlookup dp name s =
     (if i_type (inodes s dp) \<noteq> T_DIR then Panic ''dirlookup not DIR''
      else dirlookup_loop dp name (dirent_offs 0 (i_size (inodes s dp))) s)"

text \<open>The offset of the first unused entry of a directory, or its end.\<close>

fun dirlink_slot :: "nat \<Rightarrow> nat \<Rightarrow> nat list \<Rightarrow> 'a kdev_scheme \<Rightarrow> (nat, 'a kdev_scheme) outcome" where
  "dirlink_slot dp fin [] s = Ret fin s"
| "dirlink_slot dp fin (off # offs) s =
     bindK (readi dp None off 16 s) (\<lambda>(r, bs) s.
     if r \<noteq> 16 then Panic ''dirlink read''
     else if fst (get_dirent bs) = 0 then Ret off s
     else dirlink_slot dp fin offs s)"

definition dirlink :: "nat \<Rightarrow> string \<Rightarrow> nat \<Rightarrow> 'a kdev_scheme \<Rightarrow> (int, 'a kdev_scheme) outcome" where
  "dirlink dp name inum s =
     bindK (dirlookup dp name s) (\<lambda>r s.
     case r of
       Some (ip, _) \<Rightarrow> bindK (iput ip s) (\<lambda>_ s. Ret (-1) s)
     | None \<Rightarrow>
         let sz = i_size (inodes s dp)
         in bindK (dirlink_slot dp (16 * ((sz + 15) div 16)) (dirent_offs 0 sz) s) (\<lambda>off s.
            bindK (writei dp (Bytes (put_dirent inum name)) off 16 s) (\<lambda>r s.
            if r \<noteq> 16 then Panic ''dirlink'' else Ret 0 s)))"

section \<open>Paths\<close>

text \<open>
  The first element of a path, cut to \<open>DIRSIZ\<close> characters, and the rest of the path without the
  slashes in front.
\<close>

definition skipelem :: "string \<Rightarrow> (string \<times> string) option" where
  "skipelem path =
     (let path = dropWhile (\<lambda>c. c = CHR ''/'') path
      in if path = [] then None
         else
           let elem = takeWhile (\<lambda>c. c \<noteq> CHR ''/'') path;
               rest = dropWhile (\<lambda>c. c \<noteq> CHR ''/'') path
           in Some (take DIRSIZ elem, dropWhile (\<lambda>c. c = CHR ''/'') rest))"

lemma skipelem_shorter: "skipelem path = Some (name, rest) \<Longrightarrow> length rest < length path"
proof -
  assume a: "skipelem path = Some (name, rest)"
  let ?p = "dropWhile (\<lambda>c. c = CHR ''/'') path"
  have ne: "?p \<noteq> []" and r: "rest = dropWhile (\<lambda>c. c = CHR ''/'') (dropWhile (\<lambda>c. c \<noteq> CHR ''/'') ?p)"
    using a by (auto simp: skipelem_def Let_def split: if_splits)
  have "hd ?p \<noteq> CHR ''/''" using ne hd_dropWhile by blast
  then have "length (dropWhile (\<lambda>c. c \<noteq> CHR ''/'') ?p) < length ?p"
    using ne by (cases ?p) (auto simp: less_Suc_eq_le length_dropWhile_le)
  then show ?thesis
    unfolding r using length_dropWhile_le [of "\<lambda>c. c = CHR ''/''" "dropWhile (\<lambda>c. c \<noteq> CHR ''/'') ?p"]
      length_dropWhile_le [of "\<lambda>c. c = CHR ''/''" path] by linarith
qed

definition ROOTINO :: nat where "ROOTINO = 1"

definition ROOTDEV :: nat where "ROOTDEV = 1"

text \<open>The loop of \<open>namex\<close>: the inode found, if any, and the last path element.\<close>

function namex_loop :: "string \<Rightarrow> bool \<Rightarrow> string \<Rightarrow> nat \<Rightarrow> 'a kdev_scheme \<Rightarrow> (nat option \<times> string, 'a kdev_scheme) outcome" where
  "namex_loop path parent name ip s =
     (case skipelem path of
        None \<Rightarrow>
          if parent then bindK (iput ip s) (\<lambda>_ s. Ret (None, name) s) else Ret (Some ip, name) s
      | Some (name, rest) \<Rightarrow>
          bindK (ilock (Some ip) s) (\<lambda>_ s.
          if i_type (inodes s ip) \<noteq> T_DIR then bindK (iunlockput ip s) (\<lambda>_ s. Ret (None, name) s)
          else if parent \<and> rest = [] then bindK (iunlock (Some ip) s) (\<lambda>_ s. Ret (Some ip, name) s)
          else
            bindK (dirlookup ip name s) (\<lambda>r s.
            case r of
              None \<Rightarrow> bindK (iunlockput ip s) (\<lambda>_ s. Ret (None, name) s)
            | Some (next, _) \<Rightarrow> bindK (iunlockput ip s) (\<lambda>_ s. namex_loop rest parent name next s))))"
  by pat_completeness auto
termination
  by (relation "measure (\<lambda>(path, parent, name, ip, s). length path)") (auto simp: skipelem_shorter)

declare namex_loop.simps [simp del]

definition namex :: "string \<Rightarrow> bool \<Rightarrow> 'a kdev_scheme \<Rightarrow> (nat option \<times> string, 'a kdev_scheme) outcome" where
  "namex path parent s =
     bindK (if path \<noteq> [] \<and> hd path = CHR ''/'' then iget ROOTDEV ROOTINO s
            else bindK (myproc s) (\<lambda>p s.
                 case p_cwd (procs s p) of None \<Rightarrow> Fault ''null inode'' | Some cwd \<Rightarrow> idup cwd s)) (\<lambda>ip s.
     namex_loop path parent [] ip s)"

definition namei :: "string \<Rightarrow> 'a kdev_scheme \<Rightarrow> (nat option, 'a kdev_scheme) outcome" where
  "namei path s = bindK (namex path False s) (\<lambda>(ip, name) s. Ret ip s)"

definition nameiparent :: "string \<Rightarrow> 'a kdev_scheme \<Rightarrow> (nat option \<times> string, 'a kdev_scheme) outcome" where
  "nameiparent path s = namex path True s"

end
