(* ===== verification/Content.thy ===== *)
theory Content
  imports Fs
begin

text \<open>
  Files as sequences of bytes. \<open>faddr\<close> follows the direct and the indirect addresses of an inode in the
  contents of the disk that the running transaction sees, \<open>fcontent\<close> is the byte at a position of the
  file. The theory proves that \<open>readi\<close> reads and \<open>writei\<close> overwrites or extends this sequence, through
  \<open>bmap\<close>, which allocates missing blocks, the buffer cache and the log.
\<close>

section \<open>The blocks and the bytes of a file\<close>

definition faddr :: "'a kinode_scheme \<Rightarrow> nat \<Rightarrow> nat \<Rightarrow> nat" where
  "faddr s ip k =
     (let a = i_addrs (inodes s ip)
      in if k < NDIRECT then a k
         else if a NDIRECT = 0 then 0
         else unat (getw (bview s (a NDIRECT)) (4 * (k - NDIRECT))))"

definition fcontent :: "'a kinode_scheme \<Rightarrow> nat \<Rightarrow> nat \<Rightarrow> byte" where
  "fcontent s ip j = (if faddr s ip (j div BSIZE) = 0 then 0 else bview s (faddr s ip (j div BSIZE)) (j mod BSIZE))"

definition file_data :: "'a kinode_scheme \<Rightarrow> nat \<Rightarrow> byte list" where
  "file_data s ip = map (fcontent s ip) [0..<i_size (inodes s ip)]"

text \<open>
  Blocks that hold files: inside the device, marked as used, and apart from the boot block, the super block,
  the log and the free map.
\<close>

definition fs_block :: "'a kinode_scheme \<Rightarrow> nat \<Rightarrow> nat \<Rightarrow> bool" where
  "fs_block s L b \<longleftrightarrow> b < sb_size (sb s) \<and> bused s b \<and> data_block s L b \<and> (\<forall>c. c < sb_size (sb s) \<longrightarrow> BBLOCK c (sb s) \<noteq> b)"

text \<open>
  A well-formed file on device 1: its blocks are blocks for files, no block occurs twice, and none is the block of
  the inode.
\<close>

definition file_ok :: "'a kinode_scheme \<Rightarrow> nat \<Rightarrow> nat \<Rightarrow> bool" where
  "file_ok s L ip \<longleftrightarrow>
     (let ind = i_addrs (inodes s ip) NDIRECT; ib = IBLOCK (i_inum (inodes s ip)) (sb s)
      in i_dev (inodes s ip) = 1 \<and> bused s 0 \<and> 0 < sb_size (sb s) \<and> fs_block s L ib
       \<and> (\<forall>k<MAXFILE. faddr s ip k \<noteq> 0 \<longrightarrow> fs_block s L (faddr s ip k) \<and> faddr s ip k \<noteq> ind \<and> faddr s ip k \<noteq> ib)
       \<and> (ind \<noteq> 0 \<longrightarrow> fs_block s L ind \<and> ind \<noteq> ib)
       \<and> (\<forall>j<MAXFILE. \<forall>k<MAXFILE. faddr s ip j = faddr s ip k \<longrightarrow> faddr s ip j \<noteq> 0 \<longrightarrow> j = k))"

text \<open>Every block in front of the end of the file is there.\<close>

definition file_dense :: "'a kinode_scheme \<Rightarrow> nat \<Rightarrow> bool" where
  "file_dense s ip \<longleftrightarrow> (\<forall>k. k * BSIZE < i_size (inodes s ip) \<longrightarrow> faddr s ip k \<noteq> 0)"

section \<open>Reading\<close>

lemma fs_step_refl: "fs_trans s L hs \<Longrightarrow> fs_step s s L hs 0 (bview s)"
  by (auto simp: fs_step_def)

lemma bmap_present:
  assumes "fs_trans s L hs" and "file_ok s L ip" and "k < MAXFILE" and "faddr s ip k \<noteq> 0"
  shows "\<exists>t. bmap ip k s = Ret (faddr s ip k) t \<and> fs_step s t L hs 0 (bview s)"
proof (cases "k < NDIRECT")
  case True
  then show ?thesis using assms(4) fs_step_refl [OF assms(1)] by (auto simp: bmap_def faddr_def)
next
  case False
  define ind where "ind = i_addrs (inodes s ip) NDIRECT"
  have n: "k - NDIRECT < NINDIRECT" using assms(3) False by (simp add: MAXFILE_def)
  have ind: "ind \<noteq> 0" and f: "faddr s ip k = unat (getw (bview s ind) (4 * (k - NDIRECT)))"
    using False assms(4) by (auto simp: faddr_def ind_def Let_def split: if_splits)
  then have "data_block s L ind" and dev: "i_dev (inodes s ip) = 1"
    using assms(2) by (auto simp: file_ok_def fs_block_def ind_def Let_def)
  then obtain i u where u: "bread 1 ind s = Ret i u" "b_data (bufs u i) = bview s ind" "klog.more u = klog.more s"
      "\<exists>t. brelse i u = Ret () t \<and> fs_step s t L hs 0 (bview s)"
    unfolding data_block_def by (elim conjE) (rule open_block [OF assms(1)])
  then obtain t where t: "brelse i u = Ret () t" "fs_step s t L hs 0 (bview s)" by blast
  have "bmap ip k s = Ret (faddr s ip k) t"
    using False n ind u t(1) assms(4) unfolding ind_def by (simp add: bmap_def dev Let_def f [unfolded ind_def])
  then show ?thesis using t(2) by blast
qed

text \<open>The file depends on the contents of the blocks and on the inode only.\<close>

lemma file_cong:
  assumes "bview t = bview s" and "inodes t = inodes s" and "sb t = sb s" and "disksize t = disksize s"
  shows "faddr t ip = faddr s ip" "fcontent t ip = fcontent s ip" "file_ok t L ip = file_ok s L ip"
    "fs_block t L b = fs_block s L b" "file_dense t ip = file_dense s ip" "bused t = bused s"
proof -
  show F: "faddr t ip = faddr s ip" by (rule ext) (simp add: faddr_def Let_def assms)
  then show "fcontent t ip = fcontent s ip" "file_dense t ip = file_dense s ip"
    by (auto simp: fcontent_def fun_eq_iff file_dense_def assms)
  show B: "bused t = bused s" by (rule ext) (simp add: bused_def assms)
  have K: "fs_block t L b = fs_block s L b" for b by (simp add: fs_block_def data_block_def B assms)
  then show "fs_block t L b = fs_block s L b" .
  show "file_ok t L ip = file_ok s L ip" by (simp add: file_ok_def F B K assms)
qed

lemma fs_step_same:
  assumes "fs_step s t L hs 0 (bview s)"
  obtains hs' where "fs_trans t L hs'" "length hs' \<le> length hs" "bview t = bview s" "klog.more t = klog.more s"
    "inodes t = inodes s" "sb t = sb s" "disksize t = disksize s"
    and "\<And>u V. fs_step t u L hs' n V \<Longrightarrow> fs_step s u L hs n V"
  using fs_stepE [OF assms] more_kinode fs_step_trans [of _ hs 0 t s] by (metis add_0 add_0_right)

lemma upt_split: "i \<le> j \<Longrightarrow> j \<le> k \<Longrightarrow> [i..<k] = [i..<j] @ [j..<k]"
  using upt_add_eq_append [of i j "k - j"] by simp

text \<open>The part of a block that one turn of the loops of \<open>readi\<close> and \<open>writei\<close> handles.\<close>

lemma chunk_index:
  assumes "off mod BSIZE + m \<le> BSIZE" and "off \<le> j" and "j < off + m"
  shows "j div BSIZE = off div BSIZE" "j mod BSIZE = off mod BSIZE + (j - off)"
proof -
  have e: "BSIZE * (off div BSIZE) + off mod BSIZE = off" by simp
  have "BSIZE * Suc (off div BSIZE) = BSIZE * (off div BSIZE) + BSIZE" by simp
  then have "BSIZE * (off div BSIZE) \<le> j" "j < BSIZE * Suc (off div BSIZE)" using e assms by linarith+
  then show d: "j div BSIZE = off div BSIZE" by (intro div_nat_eqI)
  have "BSIZE * (j div BSIZE) + j mod BSIZE = j" by simp
  then show "j mod BSIZE = off mod BSIZE + (j - off)" using e assms(2) unfolding d by linarith
qed

lemma chunk_bytes:
  assumes "off mod BSIZE + m \<le> BSIZE" and "faddr s ip (off div BSIZE) \<noteq> 0"
  shows "map (bview s (faddr s ip (off div BSIZE))) [off mod BSIZE..<off mod BSIZE + m] = map (fcontent s ip) [off..<off + m]"
proof (rule nth_equalityI)
  fix i assume "i < length (map (bview s (faddr s ip (off div BSIZE))) [off mod BSIZE..<off mod BSIZE + m])"
  then show "map (bview s (faddr s ip (off div BSIZE))) [off mod BSIZE..<off mod BSIZE + m] ! i = map (fcontent s ip) [off..<off + m] ! i"
    using chunk_index [OF assms(1), of "off + i"] assms(2) by (simp add: fcontent_def)
qed simp

lemma file_okD:
  assumes "file_ok s L ip"
  shows "i_dev (inodes s ip) = 1" and "k < MAXFILE \<Longrightarrow> faddr s ip k \<noteq> 0 \<Longrightarrow> fs_block s L (faddr s ip k)"
    and "k < MAXFILE \<Longrightarrow> faddr s ip k \<noteq> 0 \<Longrightarrow> data_block s L (faddr s ip k)"
    and "fs_block s L (IBLOCK (i_inum (inodes s ip)) (sb s))"
  using assms by (auto simp: file_ok_def Let_def fs_block_def)

lemma read_chunk:
  assumes "fs_trans s L hs" and "file_ok s L ip" and "k < MAXFILE" and "faddr s ip k \<noteq> 0"
  obtains v u i t where "bmap ip k s = Ret (faddr s ip k) v" and "bread (i_dev (inodes v ip)) (faddr s ip k) v = Ret i u"
    and "b_data (bufs u i) = bview s (faddr s ip k)" and "brelse i u = Ret () t" and "fs_step s t L hs 0 (bview s)"
proof -
  obtain v where v: "bmap ip k s = Ret (faddr s ip k) v" "fs_step s v L hs 0 (bview s)"
    using bmap_present [OF assms] by blast
  obtain hs' where h: "fs_trans v L hs'" "bview v = bview s" "inodes v = inodes s" "disksize v = disksize s"
      and tr: "\<And>u V. fs_step v u L hs' 0 V \<Longrightarrow> fs_step s u L hs 0 V"
    by (rule fs_step_same [OF v(2), where n = 0]) (rule that)
  have "data_block s L (faddr s ip k)" by (rule file_okD(3) [OF assms(2-4)])
  then have "faddr s ip k < disksize v" "off_log L (faddr s ip k)" "faddr s ip k \<noteq> 1"
    using h(4) by (simp_all add: data_block_def)
  then obtain i u where u: "bread 1 (faddr s ip k) v = Ret i u" "b_data (bufs u i) = bview v (faddr s ip k)"
      "\<exists>t. brelse i u = Ret () t \<and> fs_step v t L hs' 0 (bview v)"
    by (rule open_block [OF h(1)])
  from u(3) obtain t where t: "brelse i u = Ret () t" "fs_step v t L hs' 0 (bview v)" by blast
  show thesis
    using that [OF v(1) _ _ t(1)] u(1,2) tr [OF t(2)] file_okD(1) [OF assms(2)] h by simp
qed

lemma readi_loop_run:
  assumes "fs_trans s L hs" and "file_ok s L ip" and "tot \<le> n" and "off + (n - tot) \<le> MAXFILE * BSIZE"
    and "\<And>k. off div BSIZE \<le> k \<Longrightarrow> k * BSIZE < off + (n - tot) \<Longrightarrow> faddr s ip k \<noteq> 0"
  shows "\<exists>t. readi_loop ip None n tot off s = Ret (map (fcontent s ip) [off..<off + (n - tot)]) t \<and> fs_step s t L hs 0 (bview s)"
  using assms
proof (induction "n - tot" arbitrary: tot off s hs rule: less_induct)
  case less
  show ?case
  proof (cases "tot < n")
    case False
    then show ?thesis using fs_step_refl [OF less.prems(1)] by (subst readi_loop.simps) simp
  next
    case True
    define k where "k = off div BSIZE"
    define m where "m = min (n - tot) (BSIZE - off mod BSIZE)"
    have B: "0 < BSIZE" "off mod BSIZE < BSIZE" by (simp_all add: BSIZE_def)
    then have m: "0 < m" "m \<le> n - tot" "off mod BSIZE + m \<le> BSIZE" using True by (auto simp: m_def)
    have kb: "k * BSIZE \<le> off" by (simp add: k_def)
    have "k * BSIZE < MAXFILE * BSIZE" using kb less.prems(4) True by linarith
    then have "k < MAXFILE" by simp
    moreover have f: "faddr s ip k \<noteq> 0" using kb True by (intro less.prems(5)) (simp add: k_def, linarith)
    ultimately obtain v u i t where R: "bmap ip k s = Ret (faddr s ip k) v" "bread (i_dev (inodes v ip)) (faddr s ip k) v = Ret i u"
        "b_data (bufs u i) = bview s (faddr s ip k)" "brelse i u = Ret () t" "fs_step s t L hs 0 (bview s)"
      by (rule read_chunk [OF less.prems(1,2)])
    obtain hs' where h: "fs_trans t L hs'" "bview t = bview s" "inodes t = inodes s" "sb t = sb s" "disksize t = disksize s"
        and tr: "\<And>u V. fs_step t u L hs' 0 V \<Longrightarrow> fs_step s u L hs 0 V"
      by (rule fs_step_same [OF R(5), where n = 0]) (rule that)
    note C = file_cong [OF h(2-5)]
    have nz: "faddr t ip k' \<noteq> 0" if "(off + m) div BSIZE \<le> k'" "k' * BSIZE < off + m + (n - (tot + m))" for k'
      unfolding C using that m(2) div_le_mono [of off "off + m" BSIZE] by (intro less.prems(5)) simp_all
    have "\<exists>w. readi_loop ip None n (tot + m) (off + m) t = Ret (map (fcontent t ip) [off + m..<off + m + (n - (tot + m))]) w
        \<and> fs_step t w L hs' 0 (bview t)"
      using m less.prems(2,4) nz by (intro less.hyps [OF _ h(1)]) (simp_all add: C)
    moreover have "off + m + (n - (tot + m)) = off + (n - tot)" using m(2) by simp
    ultimately obtain w where w: "readi_loop ip None n (tot + m) (off + m) t = Ret (map (fcontent s ip) [off + m..<off + (n - tot)]) w"
        "fs_step t w L hs' 0 (bview s)"
      by (auto simp: C h(2))
    have "[off..<off + (n - tot)] = [off..<off + m] @ [off + m..<off + (n - tot)]"
      using m(2) by (intro upt_split) simp_all
    moreover have "map (bview s (faddr s ip k)) [off mod BSIZE..<off mod BSIZE + m] = map (fcontent s ip) [off..<off + m]"
      unfolding k_def by (rule chunk_bytes [OF m(3) f [unfolded k_def]])
    ultimately have "readi_loop ip None n tot off s = Ret (map (fcontent s ip) [off..<off + (n - tot)]) w"
      using True R(1-4) w(1) by (subst readi_loop.simps) (simp add: k_def [symmetric] m_def [symmetric] Let_def put_dst_def)
    then show ?thesis using tr [OF w(2)] by blast
  qed
qed

lemma readi_run:
  assumes "fs_trans s L hs" and "file_ok s L ip" and "file_dense s ip" and "i_type (inodes s ip) \<noteq> T_DEV"
    and "off \<le> i_size (inodes s ip)" and "i_size (inodes s ip) \<le> MAXFILE * BSIZE" and "off + n < 2 ^ 32"
  defines "bs \<equiv> take n (drop off (file_data s ip))"
  shows "\<exists>t. readi ip None off n s = Ret (int (length bs), bs) t \<and> fs_step s t L hs 0 (bview s)"
proof -
  define m where "m = (if off + n > i_size (inodes s ip) then i_size (inodes s ip) - off else n)"
  have m: "off + m \<le> i_size (inodes s ip)" "m = min n (i_size (inodes s ip) - off)" using assms(5) by (auto simp: m_def)
  have nz: "faddr s ip k \<noteq> 0" if "k * BSIZE < off + (m - 0)" for k
    using assms(3) that m(1) by (auto simp: file_dense_def)
  have "off + (m - 0) \<le> MAXFILE * BSIZE" using m(1) assms(6) by simp
  then obtain t where t: "readi_loop ip None m 0 off s = Ret (map (fcontent s ip) [off..<off + m]) t" "fs_step s t L hs 0 (bview s)"
    using readi_loop_run [OF assms(1,2), of 0 m off] nz by auto
  have "bs = map (fcontent s ip) [off..<off + m]"
    unfolding assms(8) file_data_def using m(2) assms(5) by (simp add: drop_map take_map drop_upt take_upt min_def)
  moreover have "m < 2 ^ 31" using m(1) assms(6) by (simp add: MAXFILE_def NDIRECT_def NINDIRECT_def BSIZE_def)
  then have "iarg m = int m" by (rule iarg_small)
  ultimately have "readi ip None off n s = Ret (int (length bs), bs) t"
    using assms(4,5,7) t(1) m_def by (simp add: readi_def Let_def)
  then show ?thesis using t(2) by blast
qed

section \<open>Changing a block of a file\<close>

definition nfree :: "'a kinode_scheme \<Rightarrow> nat" where
  "nfree s = card {b. b < sb_size (sb s) \<and> \<not> bused s b}"

text \<open>A step that may have allocated blocks of the file: at most \<open>n\<close> log entries and \<open>f\<close> blocks are used up.\<close>

definition file_step :: "'a kinode_scheme \<Rightarrow> 'a kinode_scheme \<Rightarrow> nat \<Rightarrow> nat list \<Rightarrow> nat \<Rightarrow> nat \<Rightarrow> nat \<Rightarrow> bool" where
  "file_step s t L hs n f ip \<longleftrightarrow>
     (\<exists>hs'. fs_trans t L hs' \<and> length hs' \<le> length hs + n) \<and> nfree s \<le> nfree t + f
   \<and> disksize t = disksize s \<and> sb t = sb s \<and> (\<exists>a. inodes t = (inodes s)(ip := (inodes s ip)\<lparr>i_addrs := a\<rparr>))
   \<and> fs_layout t L \<and> file_ok t L ip \<and> (\<forall>k<MAXFILE. faddr s ip k \<noteq> 0 \<longrightarrow> faddr t ip k \<noteq> 0)"

text \<open>A block outside the free map and the indirect block is given new contents.\<close>

lemma file_update:
  assumes "fs_layout s L" and "file_ok s L ip" and "bview t = (bview s)(a := x)" and "inodes t = inodes s" and "sb t = sb s"
    and "disksize t = disksize s" and "\<And>c. c < sb_size (sb s) \<Longrightarrow> BBLOCK c (sb s) \<noteq> a"
    and "i_addrs (inodes s ip) NDIRECT \<noteq> 0 \<Longrightarrow> i_addrs (inodes s ip) NDIRECT \<noteq> a"
  shows "faddr t ip = faddr s ip" "file_ok t L ip" "fs_layout t L" "nfree t = nfree s"
proof -
  show F: "faddr t ip = faddr s ip" by (rule ext) (use assms(8) in \<open>auto simp: faddr_def Let_def assms(3,4)\<close>)
  have B: "bused t c = bused s c" if "c < sb_size (sb s)" for c using assms(7) [OF that] by (simp add: bused_def assms(3,5))
  have D: "data_block t = data_block s" by (intro ext) (simp add: data_block_def assms(6))
  have K: "fs_block t L b = fs_block s L b" for b using B [of b] by (auto simp: fs_block_def D assms(5))
  show "file_ok t L ip" using assms(2) B [of 0] by (auto simp: file_ok_def F K assms(4,5) Let_def)
  show "fs_layout t L" using assms(1) B by (auto simp: fs_layout_def D assms(5))
  have "{b. b < sb_size (sb t) \<and> \<not> bused t b} = {b. b < sb_size (sb s) \<and> \<not> bused s b}" using B assms(5) by auto
  then show "nfree t = nfree s" by (simp add: nfree_def)
qed

lemma file_block_apart:
  assumes "file_ok s L ip" and "k < MAXFILE" and "faddr s ip k \<noteq> 0"
  shows "\<And>c. c < sb_size (sb s) \<Longrightarrow> BBLOCK c (sb s) \<noteq> faddr s ip k"
    and "i_addrs (inodes s ip) NDIRECT \<noteq> faddr s ip k"
    and "\<And>j. j < MAXFILE \<Longrightarrow> faddr s ip j = faddr s ip k \<Longrightarrow> j = k"
  using assms by (auto simp: file_ok_def fs_block_def Let_def)

text \<open>Bytes are put into the block of the file with index \<open>k\<close>.\<close>

lemma write_chunk:
  assumes "fs_trans s L hs" and "fs_layout s L" and "file_ok s L ip" and "k < MAXFILE" and "faddr s ip k \<noteq> 0"
    and "length hs + 1 < LOGSIZE"
  obtains i u v t where "bread 1 (faddr s ip k) s = Ret i u" and "klog.more u = klog.more s"
    and "log_write i (upd_data i (put_bytes p bs) u) = Ret () v"
    and "brelse i v = Ret () t" and "file_step s t L hs 1 0 ip"
    and "\<And>j. j < MAXFILE * BSIZE \<Longrightarrow> fcontent t ip j =
      (if j div BSIZE = k \<and> p \<le> j mod BSIZE \<and> j mod BSIZE < p + length bs then bs ! (j mod BSIZE - p) else fcontent s ip j)"
proof -
  let ?a = "faddr s ip k"
  have "data_block s L ?a" by (rule file_okD(3) [OF assms(3-5)])
  then obtain i u where u: "bread 1 ?a s = Ret i u" "klog.more u = klog.more s" "\<forall>f. length hs + 1 < LOGSIZE \<longrightarrow>
      (\<exists>v t. log_write i (upd_data i f u) = Ret () v \<and> klog.more v = klog.more s \<and> brelse i v = Ret () t \<and> fs_step s t L hs 1 ((bview s)(?a := f (bview s ?a))))"
    unfolding data_block_def by (elim conjE) (rule open_block [OF assms(1)])
  then obtain v t where t: "log_write i (upd_data i (put_bytes p bs) u) = Ret () v" "brelse i v = Ret () t"
      "fs_step s t L hs 1 ((bview s)(?a := put_bytes p bs (bview s ?a)))" using assms(6) by blast
  from fs_stepE [OF t(3)] obtain hs' where h: "fs_trans t L hs'" "length hs' \<le> length hs + 1"
      "bview t = (bview s)(?a := put_bytes p bs (bview s ?a))" "klog.more t = klog.more s" "disksize t = disksize s" by blast
  note M = more_kinode [OF h(4)] and A = file_block_apart [OF assms(3-5)]
  note U = file_update [OF assms(2,3) h(3) M(2,1) h(5) A(1) A(2)]
  have "inodes t = (inodes s)(ip := (inodes s ip)\<lparr>i_addrs := i_addrs (inodes s ip)\<rparr>)" by (simp add: M(2))
  then have ex: "\<exists>a. inodes t = (inodes s)(ip := (inodes s ip)\<lparr>i_addrs := a\<rparr>)" by blast
  have st: "file_step s t L hs 1 0 ip" unfolding file_step_def
    using h(1,2,5) M(1) U by (intro conjI ex) auto
  have "fcontent t ip j = (if j div BSIZE = k \<and> p \<le> j mod BSIZE \<and> j mod BSIZE < p + length bs then bs ! (j mod BSIZE - p) else fcontent s ip j)"
    if "j < MAXFILE * BSIZE" for j
  proof -
    have "j div BSIZE < MAXFILE" using that by (simp add: less_mult_imp_div_less)
    then have "faddr s ip (j div BSIZE) = ?a \<longleftrightarrow> j div BSIZE = k" using A(3) by auto
    then show ?thesis using assms(5) by (auto simp: fcontent_def U(1) h(3) put_bytes_def)
  qed
  then show thesis by (rule that [OF u(1,2) t(1,2) st])
qed

section \<open>Allocating a block of a file\<close>

lemma fs_trans_inode:
  "fs_trans (s\<lparr>inodes := x\<rparr>) L hs = fs_trans s L hs" "bview (s\<lparr>inodes := x\<rparr>) = bview s"
proof -
  have "kbio.truncate (s\<lparr>inodes := x\<rparr>) = kbio.truncate s" by (cases s) (simp add: kbio.truncate_def)
  note B = bstate_fields [OF this]
  show "bview (s\<lparr>inodes := x\<rparr>) = bview s" by (rule B)
  show "fs_trans (s\<lparr>inodes := x\<rparr>) L hs = fs_trans s L hs" by (simp add: fs_trans_def in_trans_def logged_def B)
qed

text \<open>The file with the unused block \<open>b\<close> as its block \<open>k\<close>.\<close>

lemma file_alloc:
  assumes "fs_layout s L" and "file_ok s L ip" and "k < NDIRECT" and "faddr s ip k = 0"
    and "b < sb_size (sb s)" and "\<not> bused s b" and "bview t = balloced b s" and "sb t = sb s" and "disksize t = disksize s"
    and "inodes t = (inodes s)(ip := (inodes s ip)\<lparr>i_addrs := (i_addrs (inodes s ip))(k := b)\<rparr>)"
    and "\<And>c. c < sb_size (sb s) \<Longrightarrow> bused t c \<longleftrightarrow> bused s c \<or> c = b"
  shows "b \<noteq> 0" "j < MAXFILE \<Longrightarrow> faddr t ip j = (if j = k then b else faddr s ip j)" "file_ok t L ip" "nfree s = Suc (nfree t)"
    "j < MAXFILE * BSIZE \<Longrightarrow> fcontent t ip j = fcontent s ip j"
proof -
  let ?ind = "i_addrs (inodes s ip) NDIRECT" and ?ib = "IBLOCK (i_inum (inodes s ip)) (sb s)"
  have "bused s 0" using assms(2) by (simp add: file_ok_def Let_def)
  then show b0: "b \<noteq> 0" using assms(6) by metis
  have old: "bview t a = bview s a" "a \<noteq> b" "bused t a" if "fs_block s L a" for a
    using that assms(1,5,6,11) by (auto simp: assms(7) balloced_def fs_block_def)
  have nb: "fs_block t L b" using assms(1,5,6,11) by (auto simp: fs_block_def assms(8,9) fs_layout_def data_block_def)
  have keep: "fs_block t L a" if "fs_block s L a" for a
    using that old(3) [OF that] by (auto simp: fs_block_def assms(8,9) data_block_def)
  have ind: "?ind \<noteq> 0 \<Longrightarrow> fs_block s L ?ind" using assms(2) by (auto simp: file_ok_def Let_def)
  show F: "faddr t ip j = (if j = k then b else faddr s ip j)" if "j < MAXFILE" for j
    using assms(3) ind old(1) [of ?ind] by (auto simp: faddr_def Let_def assms(10))
  have fo: "fs_block s L (faddr s ip j)" if "j < MAXFILE" "faddr s ip j \<noteq> 0" for j by (rule file_okD(2) [OF assms(2) that])
  have ne: "faddr s ip j \<noteq> b" if "j < MAXFILE" "faddr s ip j \<noteq> 0" for j by (rule old(2) [OF fo [OF that]])
  have ib: "?ib \<noteq> b" by (rule old(2) [OF file_okD(4) [OF assms(2)]])
  have indb: "?ind \<noteq> 0 \<Longrightarrow> ?ind \<noteq> b" using ind old(2) by blast
  have indt: "i_addrs (inodes t ip) NDIRECT = ?ind" "i_inum (inodes t ip) = i_inum (inodes s ip)" "i_dev (inodes t ip) = i_dev (inodes s ip)"
    using assms(3) by (simp_all add: assms(10))
  have "bused t 0" using assms(2,11) by (auto simp: file_ok_def Let_def)
  moreover have "\<forall>j<MAXFILE. faddr t ip j \<noteq> 0 \<longrightarrow> fs_block t L (faddr t ip j) \<and> faddr t ip j \<noteq> ?ind \<and> faddr t ip j \<noteq> ?ib"
    using assms(2) F nb keep fo ib indb b0 by (auto simp: file_ok_def Let_def)
  moreover have "\<forall>i<MAXFILE. \<forall>j<MAXFILE. faddr t ip i = faddr t ip j \<longrightarrow> faddr t ip i \<noteq> 0 \<longrightarrow> i = j"
    using assms(2) F ne by (auto simp: file_ok_def Let_def)
  ultimately show "file_ok t L ip"
    using assms(2) keep ind unfolding file_ok_def Let_def indt assms(8) by auto
  have "{c. c < sb_size (sb s) \<and> \<not> bused s c} = insert b {c. c < sb_size (sb t) \<and> \<not> bused t c}"
    using assms(5,6,8,11) by auto
  moreover have "b \<notin> {c. c < sb_size (sb t) \<and> \<not> bused t c}" using assms(5,11) by auto
  moreover have "finite {c. c < sb_size (sb t) \<and> \<not> bused t c}" by simp
  ultimately show "nfree s = Suc (nfree t)" unfolding nfree_def by (simp only: card_insert_disjoint not_False_eq_True)
  show "fcontent t ip j = fcontent s ip j" if "j < MAXFILE * BSIZE"
  proof -
    have j: "j div BSIZE < MAXFILE" using that by (simp add: less_mult_imp_div_less)
    then have v: "bview t (faddr s ip (j div BSIZE)) = bview s (faddr s ip (j div BSIZE))" if "faddr s ip (j div BSIZE) \<noteq> 0"
      using old(1) fo that by blast
    have "bview t b = (\<lambda>_. 0)" by (simp add: assms(7) balloced_def)
    then show ?thesis using F [OF j] v assms(4) by (auto simp: fcontent_def)
  qed
qed

lemma bmap_run:
  assumes "fs_trans s L hs" and "fs_layout s L" and "file_ok s L ip" and "k < MAXFILE"
    and "k < NDIRECT \<or> faddr s ip k \<noteq> 0" and "faddr s ip k \<noteq> 0 \<or> 0 < nfree s" and "length hs + 2 < LOGSIZE"
  obtains t where "bmap ip k s = Ret (faddr t ip k) t" and "faddr t ip k \<noteq> 0" and "file_step s t L hs 2 1 ip"
    and "\<And>j. j < MAXFILE * BSIZE \<Longrightarrow> fcontent t ip j = fcontent s ip j"
proof (cases "faddr s ip k = 0")
  case False
  obtain t where t: "bmap ip k s = Ret (faddr s ip k) t" "fs_step s t L hs 0 (bview s)"
    using bmap_present [OF assms(1,3,4) False] by blast
  from fs_stepE [OF t(2)] obtain hs' where h: "fs_trans t L hs'" "length hs' \<le> length hs + 0"
      "bview t = bview s" "klog.more t = klog.more s" "disksize t = disksize s" by blast
  note M = more_kinode [OF h(4)]
  note C = file_cong [OF h(3) M(2,1) h(5)]
  have "inodes t = (inodes s)(ip := (inodes s ip)\<lparr>i_addrs := i_addrs (inodes s ip)\<rparr>)" by (simp add: M(2))
  then have ex: "\<exists>a. inodes t = (inodes s)(ip := (inodes s ip)\<lparr>i_addrs := a\<rparr>)" by blast
  have "file_step s t L hs 2 1 ip" unfolding file_step_def
    using h(1,2,5) M(1) assms(2,3) layout_cong(2) [OF h(3-5)] by (intro conjI ex exI [of _ hs']) (simp_all add: C nfree_def)
  then show thesis using that [of t] t(1) False by (simp add: C)
next
  case True
  then have k: "k < NDIRECT" using assms(5) by simp
  have "{b. b < sb_size (sb s) \<and> \<not> bused s b} \<noteq> {}" using assms(6) True by (auto simp: nfree_def card_gt_0_iff)
  then obtain c where c: "c < sb_size (sb s)" "\<not> bused s c" by auto
  obtain b where sc: "scan (\<lambda>b. \<not> bused s b) (sb_size (sb s)) = Some b"
    using scan_ex [OF c(1), of "\<lambda>b. \<not> bused s b"] c(2) by auto
  note S = scan_SomeD [OF sc]
  obtain u where u: "balloc 1 s = Ret b u" "fs_step s u L hs 2 (balloced b s)"
    using balloc_run [OF assms(1,2,7)] unfolding sc option.case by blast
  from fs_stepE [OF u(2)] obtain hs' where h: "fs_trans u L hs'" "length hs' \<le> length hs + 2"
      "bview u = balloced b s" "klog.more u = klog.more s" "disksize u = disksize s" by blast
  have nu: "\<not> bused s b" using S(2) by blast
  note M = more_kinode [OF h(4)] and B = balloced_facts [OF assms(2) S(1) nu u(2)]
  define t where "t = upd_inode ip (\<lambda>i. i\<lparr>i_addrs := (i_addrs i)(k := b)\<rparr>) u"
  have T: "bview t = balloced b s" "sb t = sb s" "disksize t = disksize s" "fs_trans t L hs'"
    "inodes t = (inodes s)(ip := (inodes s ip)\<lparr>i_addrs := (i_addrs (inodes s ip))(k := b)\<rparr>)"
    unfolding t_def by (simp_all add: fs_trans_inode h M)
  have bt: "bused t = bused u" by (rule ext) (simp add: bused_def t_def fs_trans_inode)
  have F: "b \<noteq> 0" "\<And>j. j < MAXFILE \<Longrightarrow> faddr t ip j = (if j = k then b else faddr s ip j)" "file_ok t L ip" "nfree s = Suc (nfree t)"
      "\<And>j. j < MAXFILE * BSIZE \<Longrightarrow> fcontent t ip j = fcontent s ip j"
    using file_alloc [OF assms(2,3) k True S(1) nu T(1,2,3,5)] B(1) unfolding bt by blast+
  have "fs_layout t L" using B(2) by (simp add: fs_layout_def data_block_def bt) (simp add: t_def)
  then have "file_step s t L hs 2 1 ip" unfolding file_step_def
    using T h(2) F by (intro conjI exI [of _ hs']) auto
  moreover have "bmap ip k s = Ret b t"
    using k True u(1) file_okD(1) [OF assms(3)] by (simp add: bmap_def faddr_def t_def)
  ultimately show thesis using that [of t] F(1,2,5) assms(4) by simp
qed

section \<open>Writing\<close>

lemma file_step_trans:
  assumes "file_step s t L hs n f ip"
  obtains hs' where "fs_trans t L hs'" and "length hs' \<le> length hs + n" and "fs_layout t L" and "file_ok t L ip"
    and "nfree s \<le> nfree t + f" and "disksize t = disksize s" and "sb t = sb s"
    and "\<And>k. k < MAXFILE \<Longrightarrow> faddr s ip k \<noteq> 0 \<Longrightarrow> faddr t ip k \<noteq> 0"
    and "\<And>u m g. file_step t u L hs' m g ip \<Longrightarrow> file_step s u L hs (n + m) (f + g) ip"
proof -
  obtain hs' a where h: "fs_trans t L hs'" "length hs' \<le> length hs + n" "nfree s \<le> nfree t + f"
      "disksize t = disksize s" "sb t = sb s" "inodes t = (inodes s)(ip := (inodes s ip)\<lparr>i_addrs := a\<rparr>)"
      "fs_layout t L" "file_ok t L ip" "\<forall>k<MAXFILE. faddr s ip k \<noteq> 0 \<longrightarrow> faddr t ip k \<noteq> 0"
    using assms by (auto simp: file_step_def)
  have "file_step s u L hs (n + m) (f + g) ip" if F: "file_step t u L hs' m g ip" for u m g
  proof -
    obtain hs'' b where u: "fs_trans u L hs''" "length hs'' \<le> length hs' + m" "nfree t \<le> nfree u + g"
      "inodes u = (inodes t)(ip := (inodes t ip)\<lparr>i_addrs := b\<rparr>)"
      using F by (auto simp: file_step_def)
    have "inodes u = (inodes s)(ip := (inodes s ip)\<lparr>i_addrs := b\<rparr>)" unfolding u(4) h(6) by simp
    then have ex: "\<exists>a. inodes u = (inodes s)(ip := (inodes s ip)\<lparr>i_addrs := a\<rparr>)" by blast
    have le: "length hs'' \<le> length hs + (n + m)" "nfree s \<le> nfree u + (f + g)" using u(2,3) h(2,3) by linarith+
    show ?thesis
      using F h u(1) le unfolding file_step_def by (intro conjI ex exI [of _ hs'']) auto
  qed
  then show thesis using that [OF h(1,2,7,8,3,4,5)] h(9) by blast
qed

lemma chunk_iff:
  assumes "off mod BSIZE + m \<le> BSIZE"
  shows "j div BSIZE = off div BSIZE \<and> off mod BSIZE \<le> j mod BSIZE \<and> j mod BSIZE < off mod BSIZE + m \<longleftrightarrow> off \<le> j \<and> j < off + m"
proof
  assume a: "j div BSIZE = off div BSIZE \<and> off mod BSIZE \<le> j mod BSIZE \<and> j mod BSIZE < off mod BSIZE + m"
  have "BSIZE * (off div BSIZE) + off mod BSIZE = off" "BSIZE * (j div BSIZE) + j mod BSIZE = j" by simp_all
  then show "off \<le> j \<and> j < off + m" using a by (metis add_le_cancel_left add.assoc add_less_cancel_left)
next
  assume "off \<le> j \<and> j < off + m"
  then show "j div BSIZE = off div BSIZE \<and> off mod BSIZE \<le> j mod BSIZE \<and> j mod BSIZE < off mod BSIZE + m"
    using chunk_index [OF assms, of j] by auto
qed

text \<open>One turn of the loop of \<open>writei\<close>.\<close>

lemma write_turn:
  assumes "fs_trans s L hs" and "fs_layout s L" and "file_ok s L ip" and "k < MAXFILE"
    and "k < NDIRECT \<or> faddr s ip k \<noteq> 0" and "0 < nfree s" and "length hs + 3 < LOGSIZE"
    and "k = off div BSIZE" and "off mod BSIZE + length bs \<le> BSIZE"
  obtains v i u w t where "bmap ip k s = Ret (faddr v ip k) v" and "bread (i_dev (inodes v ip)) (faddr v ip k) v = Ret i u"
    and "log_write i (upd_data i (put_bytes (off mod BSIZE) bs) u) = Ret () w" and "brelse i w = Ret () t"
    and "file_step s t L hs 3 1 ip" and "faddr t ip k \<noteq> 0"
    and "\<And>j. j < MAXFILE * BSIZE \<Longrightarrow> fcontent t ip j = (if off \<le> j \<and> j < off + length bs then bs ! (j - off) else fcontent s ip j)"
proof -
  have sz: "length hs + 2 < LOGSIZE" using assms(7) by simp
  obtain v where v: "bmap ip k s = Ret (faddr v ip k) v" "faddr v ip k \<noteq> 0" "file_step s v L hs 2 1 ip"
      "\<And>j. j < MAXFILE * BSIZE \<Longrightarrow> fcontent v ip j = fcontent s ip j"
    by (rule bmap_run [OF assms(1-5) disjI2 [OF assms(6)] sz]) (rule that)
  obtain hs' where h: "fs_trans v L hs'" "length hs' \<le> length hs + 2" "fs_layout v L" "file_ok v L ip"
      and tr: "\<And>u m g. file_step v u L hs' m g ip \<Longrightarrow> file_step s u L hs (2 + m) (1 + g) ip"
    by (rule file_step_trans [OF v(3)]) (rule that)
  have sz': "length hs' + 1 < LOGSIZE" using h(2) assms(7) by simp
  obtain i u w t where w: "bread 1 (faddr v ip k) v = Ret i u"
      "log_write i (upd_data i (put_bytes (off mod BSIZE) bs) u) = Ret () w" "brelse i w = Ret () t" "file_step v t L hs' 1 0 ip"
      "\<And>j. j < MAXFILE * BSIZE \<Longrightarrow> fcontent t ip j = (if j div BSIZE = k \<and> off mod BSIZE \<le> j mod BSIZE \<and> j mod BSIZE < off mod BSIZE + length bs
         then bs ! (j mod BSIZE - off mod BSIZE) else fcontent v ip j)"
    by (rule write_chunk [OF h(1,3,4) assms(4) v(2) sz', where p = "off mod BSIZE" and bs = bs]) (rule that)
  have st: "file_step s t L hs 3 1 ip" using tr [OF w(4)] by simp
  have nz: "faddr t ip k \<noteq> 0" by (rule file_step_trans [OF w(4)]) (use assms(4) v(2) in blast)
  have "fcontent t ip j = (if off \<le> j \<and> j < off + length bs then bs ! (j - off) else fcontent s ip j)" if "j < MAXFILE * BSIZE" for j
    using w(5) [OF that] v(4) [OF that] chunk_iff [OF assms(9), of j] chunk_index(2) [OF assms(9), of j] assms(8) by auto
  then show thesis using that [OF v(1) _ w(2,3) st nz] w(1) file_okD(1) [OF h(4)] by simp
qed

text \<open>The number of turns for \<open>r\<close> bytes at \<open>off\<close>.\<close>

definition turns :: "nat \<Rightarrow> nat \<Rightarrow> nat" where
  "turns off r = (if r = 0 then 0 else (off mod BSIZE + r + BSIZE - 1) div BSIZE)"

lemma turns_step:
  assumes "0 < r" and m_def: "m = min r (BSIZE - off mod BSIZE)"
  shows "turns off r = Suc (turns (off + m) (r - m))"
proof (cases "r \<le> BSIZE - off mod BSIZE")
  case True
  then have "(off mod BSIZE + r + BSIZE - 1) div BSIZE = 1"
    using assms(1) by (intro div_nat_eqI) (auto simp: BSIZE_def)
  then show ?thesis using True assms(1) by (simp add: turns_def m_def min_def)
next
  case False
  have B: "off mod BSIZE < BSIZE" by (simp add: BSIZE_def)
  have m: "m = BSIZE - off mod BSIZE" using False by (simp add: m_def)
  have "BSIZE * (off div BSIZE) + off mod BSIZE = off" by simp
  then have "off + m = BSIZE * Suc (off div BSIZE)" using B unfolding m mult_Suc_right by linarith
  then have z: "(off + m) mod BSIZE = 0" by simp
  have "off mod BSIZE + r + BSIZE - 1 = BSIZE + (r - m + BSIZE - 1)" using B False unfolding m by linarith
  then have "(off mod BSIZE + r + BSIZE - 1) div BSIZE = Suc ((r - m + BSIZE - 1) div BSIZE)" by (simp add: BSIZE_def)
  then show ?thesis using z False assms(1) m by (simp add: turns_def)
qed

lemma writei_loop_run:
  assumes "fs_trans s L hs" and "fs_layout s L" and "file_ok s L ip" and "tot \<le> length bs"
    and "off + (length bs - tot) \<le> MAXFILE * BSIZE"
    and "\<And>j. off \<le> j \<Longrightarrow> j < off + (length bs - tot) \<Longrightarrow> j div BSIZE < NDIRECT \<or> faddr s ip (j div BSIZE) \<noteq> 0"
    and "turns off (length bs - tot) \<le> nfree s" and "length hs + 3 * turns off (length bs - tot) < LOGSIZE"
  shows "\<exists>t. writei_loop ip (Bytes bs) (length bs) tot off s = Ret () t
     \<and> file_step s t L hs (3 * turns off (length bs - tot)) (turns off (length bs - tot)) ip
     \<and> (\<forall>j<MAXFILE * BSIZE. fcontent t ip j =
          (if off \<le> j \<and> j < off + (length bs - tot) then bs ! (tot + (j - off)) else fcontent s ip j))
     \<and> (\<forall>j. off \<le> j \<and> j < off + (length bs - tot) \<longrightarrow> faddr t ip (j div BSIZE) \<noteq> 0)"
  using assms
proof (induction "length bs - tot" arbitrary: tot off s hs rule: less_induct)
  case less
  let ?r = "length bs - tot"
  show ?case
  proof (cases "tot < length bs")
    case False
    have ex: "\<exists>a. inodes s = (inodes s)(ip := (inodes s ip)\<lparr>i_addrs := a\<rparr>)" by (rule exI [of _ "i_addrs (inodes s ip)"]) simp
    have "file_step s s L hs 0 0 ip" unfolding file_step_def using less.prems(1-3) by (intro conjI ex) auto
    then show ?thesis using False
      by (subst writei_loop.simps) (auto simp: turns_def)
  next
    case True
    define k where "k = off div BSIZE"
    define m where "m = min ?r (BSIZE - off mod BSIZE)"
    have B: "0 < BSIZE" "off mod BSIZE < BSIZE" by (simp_all add: BSIZE_def)
    then have m: "0 < m" "m \<le> ?r" "off mod BSIZE + m \<le> BSIZE" using True by (auto simp: m_def)
    define cs where "cs = take m (drop tot bs)"
    have cs: "length cs = m" "off mod BSIZE + length cs \<le> BSIZE" using m by (simp_all add: cs_def)
    have kb: "k * BSIZE \<le> off" by (simp add: k_def)
    have "k * BSIZE < MAXFILE * BSIZE" using kb less.prems(5) True by linarith
    then have kM: "k < MAXFILE" by simp
    have kk: "k < NDIRECT \<or> faddr s ip k \<noteq> 0" unfolding k_def using True by (intro less.prems(6)) simp_all
    have T: "turns off ?r = Suc (turns (off + m) (length bs - (tot + m)))"
      using turns_step [OF _ m_def] True by (simp add: diff_diff_add)
    have sz: "0 < nfree s" "length hs + 3 < LOGSIZE" using less.prems(7,8) T by simp_all
    obtain v i u w t where W: "bmap ip k s = Ret (faddr v ip k) v" "bread (i_dev (inodes v ip)) (faddr v ip k) v = Ret i u"
        "log_write i (upd_data i (put_bytes (off mod BSIZE) cs) u) = Ret () w" "brelse i w = Ret () t"
        "file_step s t L hs 3 1 ip" "faddr t ip k \<noteq> 0"
        "\<And>j. j < MAXFILE * BSIZE \<Longrightarrow> fcontent t ip j = (if off \<le> j \<and> j < off + length cs then cs ! (j - off) else fcontent s ip j)"
      by (rule write_turn [OF less.prems(1-3) kM kk sz k_def cs(2)]) (rule that)
    obtain hs' where h: "fs_trans t L hs'" "length hs' \<le> length hs + 3" "fs_layout t L" "file_ok t L ip" "nfree s \<le> nfree t + 1"
        and nz: "\<And>k. k < MAXFILE \<Longrightarrow> faddr s ip k \<noteq> 0 \<Longrightarrow> faddr t ip k \<noteq> 0"
        and tr: "\<And>u m g. file_step t u L hs' m g ip \<Longrightarrow> file_step s u L hs (3 + m) (1 + g) ip"
      by (rule file_step_trans [OF W(5)]) (rule that)
    have e: "off + m + (length bs - (tot + m)) = off + ?r" using m(2) by simp
    have nx: "j div BSIZE < NDIRECT \<or> faddr t ip (j div BSIZE) \<noteq> 0" if "off + m \<le> j" "j < off + ?r" for j
    proof -
      have "j div BSIZE < MAXFILE" using that(2) less.prems(5) by (intro less_mult_imp_div_less) linarith
      moreover have "off \<le> j" using that(1) by simp
      ultimately show ?thesis using nz less.prems(6) [OF _ that(2)] by blast
    qed
    have "\<exists>x. writei_loop ip (Bytes bs) (length bs) (tot + m) (off + m) t = Ret () x
     \<and> file_step t x L hs' (3 * turns (off + m) (length bs - (tot + m))) (turns (off + m) (length bs - (tot + m))) ip
     \<and> (\<forall>j<MAXFILE * BSIZE. fcontent x ip j =
          (if off + m \<le> j \<and> j < off + m + (length bs - (tot + m)) then bs ! (tot + m + (j - (off + m))) else fcontent t ip j))
     \<and> (\<forall>j. off + m \<le> j \<and> j < off + m + (length bs - (tot + m)) \<longrightarrow> faddr x ip (j div BSIZE) \<noteq> 0)"
      using m less.prems(4,5,7,8) T h(2,5) nx by (intro less.hyps [OF _ h(1,3,4)]) (simp_all add: e)
    then obtain x where x: "writei_loop ip (Bytes bs) (length bs) (tot + m) (off + m) t = Ret () x"
        "file_step t x L hs' (3 * turns (off + m) (length bs - (tot + m))) (turns (off + m) (length bs - (tot + m))) ip"
        "\<And>j. j < MAXFILE * BSIZE \<Longrightarrow> fcontent x ip j =
          (if off + m \<le> j \<and> j < off + ?r then bs ! (tot + m + (j - (off + m))) else fcontent t ip j)"
        "\<And>j. off + m \<le> j \<Longrightarrow> j < off + ?r \<Longrightarrow> faddr x ip (j div BSIZE) \<noteq> 0"
      unfolding e by blast
    have "writei_loop ip (Bytes bs) (length bs) tot off s = Ret () x"
      using True W(1-4) x(1) by (subst writei_loop.simps)
        (simp add: k_def [symmetric] m_def [symmetric] cs_def [symmetric] Let_def)
    moreover have "file_step s x L hs (3 * turns off ?r) (turns off ?r) ip" using tr [OF x(2)] T by simp
    moreover have "fcontent x ip j = (if off \<le> j \<and> j < off + ?r then bs ! (tot + (j - off)) else fcontent s ip j)"
      if "j < MAXFILE * BSIZE" for j
      using W(7) [OF that] x(3) [OF that] m(2) by (auto simp: cs_def)
    moreover have "faddr x ip (j div BSIZE) \<noteq> 0" if "off \<le> j" "j < off + ?r" for j
    proof (cases "j < off + m")
      case True
      then have "j div BSIZE = k" using chunk_index(1) [OF m(3) that(1)] by (simp add: k_def)
      then show ?thesis using file_step_trans [OF x(2)] kM W(6) by blast
    qed (use x(4) that in simp)
    ultimately show ?thesis by blast
  qed
qed

text \<open>The size of the file is not part of its blocks.\<close>

lemma file_size:
  assumes t_def: "t = upd_inode ip (\<lambda>i. i\<lparr>i_size := z\<rparr>) s"
  shows "fs_trans t L hs = fs_trans s L hs" "bview t = bview s" "faddr t ip = faddr s ip" "fcontent t ip = fcontent s ip"
    "file_ok t L ip = file_ok s L ip" "fs_layout t L = fs_layout s L"
proof -
  show v: "fs_trans t L hs = fs_trans s L hs" "bview t = bview s" unfolding t_def by (rule fs_trans_inode)+
  have i: "sb t = sb s" "disksize t = disksize s" "i_addrs (inodes t ip) = i_addrs (inodes s ip)"
    "i_inum (inodes t ip) = i_inum (inodes s ip)" "i_dev (inodes t ip) = i_dev (inodes s ip)" by (simp_all add: t_def)
  show F: "faddr t ip = faddr s ip" by (rule ext) (simp add: faddr_def Let_def v(2) i)
  then show "fcontent t ip = fcontent s ip" by (intro ext) (simp add: fcontent_def v(2))
  have B: "bused t = bused s" by (rule ext) (simp add: bused_def v(2) i)
  have K: "fs_block t L b = fs_block s L b" for b by (simp add: fs_block_def data_block_def B i)
  show "file_ok t L ip = file_ok s L ip" by (simp add: file_ok_def F B K i)
  show "fs_layout t L = fs_layout s L" by (simp add: fs_layout_def data_block_def B i)
qed

lemma iupdate_run:
  assumes "fs_trans s L hs" and "fs_layout s L" and "file_ok s L ip" and "length hs + 1 < LOGSIZE"
  obtains t hs' where "iupdate ip s = Ret () t" and "fs_trans t L hs'" and "length hs' \<le> length hs + 1"
    and "inodes t = inodes s" and "faddr t ip = faddr s ip" and "file_ok t L ip" and "fs_layout t L"
    and "\<And>j. j < MAXFILE * BSIZE \<Longrightarrow> fcontent t ip j = fcontent s ip j"
proof -
  let ?i = "inodes s ip"
  let ?ib = "IBLOCK (i_inum ?i) (sb s)" and ?f = "put_dinode (i_inum ?i mod IPB) (to_disk ?i)"
  have ib: "fs_block s L ?ib" "data_block s L ?ib" using file_okD(4) [OF assms(3)] by (simp_all add: fs_block_def)
  then obtain i u where u: "bread 1 ?ib s = Ret i u" "klog.more u = klog.more s" "\<forall>f. length hs + 1 < LOGSIZE \<longrightarrow>
      (\<exists>v t. log_write i (upd_data i f u) = Ret () v \<and> klog.more v = klog.more s \<and> brelse i v = Ret () t \<and> fs_step s t L hs 1 ((bview s)(?ib := f (bview s ?ib))))"
    unfolding data_block_def by (elim conjE) (rule open_block [OF assms(1)])
  obtain v t where t: "log_write i (upd_data i ?f u) = Ret () v" "brelse i v = Ret () t" "fs_step s t L hs 1 ((bview s)(?ib := ?f (bview s ?ib)))"
    using u(3) [rule_format, OF assms(4), of ?f] by blast
  from fs_stepE [OF t(3)] obtain hs' where h: "fs_trans t L hs'" "length hs' \<le> length hs + 1"
      "bview t = (bview s)(?ib := ?f (bview s ?ib))" "klog.more t = klog.more s" "disksize t = disksize s" by blast
  note M = more_kinode [OF h(4)]
  have a: "BBLOCK c (sb s) \<noteq> ?ib" if "c < sb_size (sb s)" for c using ib(1) that by (simp add: fs_block_def)
  have b: "i_addrs ?i NDIRECT \<noteq> 0 \<Longrightarrow> i_addrs ?i NDIRECT \<noteq> ?ib" using assms(3) by (simp add: file_ok_def Let_def)
  note U = file_update [OF assms(2,3) h(3) M(2,1) h(5) a b]
  have "fcontent t ip j = fcontent s ip j" if "j < MAXFILE * BSIZE" for j
  proof -
    have "j div BSIZE < MAXFILE" using that by (simp add: less_mult_imp_div_less)
    then have "faddr s ip (j div BSIZE) \<noteq> 0 \<Longrightarrow> faddr s ip (j div BSIZE) \<noteq> ?ib" using assms(3) by (auto simp: file_ok_def Let_def)
    then show ?thesis by (auto simp: fcontent_def U(1) h(3))
  qed
  moreover have "iupdate ip s = Ret () t"
    using u(1) t(1,2) more_kinode [OF u(2)] file_okD(1) [OF assms(3)] by (simp add: iupdate_def)
  ultimately show thesis using that [OF _ h(1,2) M(2) U(1-3)] by blast
qed

text \<open>The abstract write: \<open>bs\<close> replaces what is at \<open>off\<close>, and extends the sequence when it reaches behind its end.\<close>

definition overwrite :: "nat \<Rightarrow> byte list \<Rightarrow> byte list \<Rightarrow> byte list" where
  "overwrite off bs xs = take off xs @ bs @ drop (off + length bs) xs"

lemma overwrite_map:
  assumes "off \<le> n" and "\<And>j. j < max n (off + length bs) \<Longrightarrow> g j = (if off \<le> j \<and> j < off + length bs then bs ! (j - off) else f j)"
  shows "map g [0..<max n (off + length bs)] = overwrite off bs (map f [0..<n])"
proof (rule nth_equalityI)
  show "length (map g [0..<max n (off + length bs)]) = length (overwrite off bs (map f [0..<n]))"
    using assms(1) by (simp add: overwrite_def)
  fix j assume "j < length (map g [0..<max n (off + length bs)])"
  then have j: "j < max n (off + length bs)" by simp
  then show "map g [0..<max n (off + length bs)] ! j = overwrite off bs (map f [0..<n]) ! j"
    using assms(1) assms(2) [OF j] by (auto simp: overwrite_def nth_append)
qed

lemma writei_run:
  assumes "fs_trans s L hs" and "fs_layout s L" and "file_ok s L ip" and "file_dense s ip" and "i_type (inodes s ip) \<noteq> T_DEV"
    and "off \<le> i_size (inodes s ip)" and "i_size (inodes s ip) \<le> MAXFILE * BSIZE" and "off + length bs \<le> MAXFILE * BSIZE"
    and "\<And>j. off \<le> j \<Longrightarrow> j < off + length bs \<Longrightarrow> j div BSIZE < NDIRECT \<or> faddr s ip (j div BSIZE) \<noteq> 0"
    and "turns off (length bs) \<le> nfree s" and "length hs + 3 * turns off (length bs) + 1 < LOGSIZE"
  obtains t hs' where "writei ip (Bytes bs) off (length bs) s = Ret (int (length bs)) t" and "fs_trans t L hs'"
    and "length hs' \<le> length hs + 3 * turns off (length bs) + 1" and "fs_layout t L" and "file_ok t L ip" and "file_dense t ip"
    and "i_type (inodes t ip) = i_type (inodes s ip)" and "i_size (inodes t ip) = max (i_size (inodes s ip)) (off + length bs)"
    and "\<And>i. i \<noteq> ip \<Longrightarrow> inodes t i = inodes s i"
    and "file_data t ip = overwrite off bs (file_data s ip)"
proof -
  let ?n = "length bs" and ?z = "i_size (inodes s ip)"
  have small: "off + ?n < 2 ^ 31" using assms(8) by (simp add: MAXFILE_def NDIRECT_def NINDIRECT_def BSIZE_def)
  then have ia: "iarg ?n = int ?n" by (intro iarg_small) simp
  have sz: "length hs + 3 * turns off ?n < LOGSIZE" using assms(11) by simp
  obtain v where v: "writei_loop ip (Bytes bs) ?n 0 off s = Ret () v" "file_step s v L hs (3 * turns off ?n) (turns off ?n) ip"
      "\<And>j. j < MAXFILE * BSIZE \<Longrightarrow> fcontent v ip j = (if off \<le> j \<and> j < off + ?n then bs ! (j - off) else fcontent s ip j)"
      "\<And>j. off \<le> j \<Longrightarrow> j < off + ?n \<Longrightarrow> faddr v ip (j div BSIZE) \<noteq> 0"
    using writei_loop_run [OF assms(1-3), of 0 bs off, unfolded diff_zero add_0, OF le0 assms(8-10) sz] by blast
  obtain hs' where h: "fs_trans v L hs'" "length hs' \<le> length hs + 3 * turns off ?n" "fs_layout v L" "file_ok v L ip"
      and nz: "\<And>k. k < MAXFILE \<Longrightarrow> faddr s ip k \<noteq> 0 \<Longrightarrow> faddr v ip k \<noteq> 0"
    by (rule file_step_trans [OF v(2)]) (rule that)
  obtain a where iv: "inodes v = (inodes s)(ip := (inodes s ip)\<lparr>i_addrs := a\<rparr>)" using v(2) by (auto simp: file_step_def)
  have dense: "faddr v ip k \<noteq> 0" if k: "k * BSIZE < max ?z (off + ?n)" for k
  proof (cases "k * BSIZE < ?z")
    case True
    then have "k * BSIZE < MAXFILE * BSIZE" using assms(7) by linarith
    then show ?thesis using nz assms(4) True by (simp add: file_dense_def)
  next
    case False
    then have "off \<le> k * BSIZE" "k * BSIZE < off + ?n" using k assms(6) by auto
    then show ?thesis using v(4) [of "k * BSIZE"] by (simp add: BSIZE_def)
  qed
  have data: "map (fcontent v ip) [0..<max ?z (off + ?n)] = overwrite off bs (file_data s ip)"
    unfolding file_data_def using v(3) assms(6-8) by (intro overwrite_map) simp_all
  show thesis
  proof (cases "?n > 0 \<and> off + ?n > ?z")
    case False
    then have m: "max ?z (off + ?n) = ?z" using assms(6) by auto
    have W: "writei ip (Bytes bs) off ?n s = Ret (int ?n) v"
      using assms(5,6,8) small v(1) False by (auto simp: writei_def Let_def ia iv)
    have "file_data v ip = overwrite off bs (file_data s ip)" using data unfolding m by (simp add: file_data_def iv)
    moreover have "file_dense v ip" using dense unfolding m by (simp add: file_dense_def iv)
    ultimately show thesis using that [OF W h(1) _ h(3,4)] h(2) m by (simp add: iv)
  next
    case True
    define w where "w = upd_inode ip (\<lambda>q. q\<lparr>i_size := off + ?n\<rparr>) v"
    note Z = file_size [OF w_def]
    have lw: "length hs' + 1 < LOGSIZE" using h(2) assms(11) by simp
    obtain t hs'' where t: "iupdate ip w = Ret () t" "fs_trans t L hs''" "length hs'' \<le> length hs' + 1" "inodes t = inodes w"
        "faddr t ip = faddr w ip" "file_ok t L ip" "fs_layout t L" "\<And>j. j < MAXFILE * BSIZE \<Longrightarrow> fcontent t ip j = fcontent w ip j"
      using h(1,3,4) unfolding Z(1,5,6) [symmetric] by (rule iupdate_run [OF _ _ _ lw]) (rule that)
    have m: "max ?z (off + ?n) = off + ?n" using True by simp
    have "file_data t ip = map (fcontent v ip) [0..<off + ?n]"
      unfolding file_data_def using t(4,8) assms(8) Z(4) by (simp add: w_def)
    then have D: "file_data t ip = overwrite off bs (file_data s ip)" using data unfolding m by simp
    have "file_dense t ip" using dense unfolding m by (simp add: file_dense_def t(4,5) Z(3)) (simp add: w_def)
    moreover have "writei ip (Bytes bs) off ?n s = Ret (int ?n) t"
      using assms(5,6,8) small v(1) True t(1) by (simp add: writei_def Let_def ia iv w_def)
    ultimately show thesis using that [of t hs''] t(2-7) h(2) m D by (simp add: w_def iv)
  qed
qed

section \<open>Properties\<close>


text \<open>The file system of \<^const>\<open>disk1\<close> with an empty file, inode number 1, in every entry of the inode table.\<close>

definition inode1 :: inode where
  "inode1 = \<lparr>i_dev = 1, i_inum = 1, i_ref = 1, i_valid = True, i_type = T_FILE, i_major = 0, i_minor = 0, i_nlink = 1,
     i_size = 0, i_addrs = (\<lambda>_. 0)\<rparr>"

definition kdev1 :: kdev where
  "kdev1 = klog.extend (klog.truncate kinode1) (kinode_ext (sb kinode1) (\<lambda>_. inode1)
     (kinput_ext (\<lambda>_. 0) 0 0 0 (kdev_ext (\<lambda>_. None) (\<lambda>_. None) ())))"

lemma kdev1_fields [simp]:
  "sb kdev1 = sb kinode1" "inodes kdev1 = (\<lambda>_. inode1)" "disksize kdev1 = 1000" "sb_inodestart (sb kinode1) = 33"
  by (simp_all add: kdev1_def kinode1_def klog.extend_def klog.truncate_def klog_boot_def)

lemma kdev1_trans: "fs_trans kdev1 2 []" "bview kdev1 = disk1"
proof -
  have "kbio.truncate kdev1 = kbio.truncate kinode1"
    by (simp add: kdev1_def kinode1_def klog.extend_def klog.truncate_def kbio.truncate_def klog_boot_def)
  note B = bstate_fields [OF this]
  have "lh_n kdev1 = lh_n kinode1" "log_start kdev1 = log_start kinode1" "log_size kdev1 = log_size kinode1"
    "log_outstanding kdev1 = log_outstanding kinode1" "log_dev kdev1 = log_dev kinode1" "log_committing kdev1 = log_committing kinode1"
    "disk kdev1 = disk kinode1" "lh_block kdev1 = lh_block kinode1" "disksize kdev1 = disksize kinode1"
    by (simp_all add: kdev1_def kinode1_def klog.extend_def klog.truncate_def klog_boot_def)
  then show "fs_trans kdev1 2 []" using kinode1_trans unfolding fs_trans_def in_trans_def logged_def B by simp
  show "bview kdev1 = disk1" unfolding B by (rule kinode1_view)
qed

lemma kdev1_used: "b < 1000 \<Longrightarrow> bused kdev1 b \<longleftrightarrow> b < 64"
  using kinode1_used [of b] by (simp add: bused_def kdev1_trans kinode1_view)

lemma kdev1_file: "fs_layout kdev1 2" "file_ok kdev1 2 0" "file_dense kdev1 0" "0 < nfree kdev1" "file_data kdev1 0 = []"
proof -
  show "fs_layout kdev1 2"
    using kdev1_used by (auto simp: fs_layout_def data_block_def BBLOCK_def BPB_def BSIZE_def off_log_def LOGSIZE_def MAXOPBLOCKS_def)
  have f: "faddr kdev1 0 k = 0" for k by (simp add: faddr_def inode1_def)
  show "file_ok kdev1 2 0"
    using kdev1_used [of 0] kdev1_used [of 33] unfolding file_ok_def Let_def f
    by (simp add: inode1_def fs_block_def data_block_def IBLOCK_def IPB_def BBLOCK_def BPB_def BSIZE_def off_log_def LOGSIZE_def MAXOPBLOCKS_def)
  show "file_dense kdev1 0" "file_data kdev1 0 = []" by (simp_all add: file_dense_def file_data_def inode1_def)
  have "64 \<in> {b. b < sb_size (sb kdev1) \<and> \<not> bused kdev1 b}" using kdev1_used [of 64] by simp
  moreover have "finite {b. b < sb_size (sb kdev1) \<and> \<not> bused kdev1 b}" by simp
  ultimately show "0 < nfree kdev1" unfolding nfree_def by (subst card_gt_0_iff) blast
qed


end
