(* ===== verification/File.thy ===== *)
theory File
  imports Fs Ring
begin

text \<open>
  Open files (file.c) and pipes (pipe.c). An open file is an index into the file table. A pipe lives in
  a page of the page allocator and is named by the address of that page; the fields of the C structure
  in that page are a record. Both ends of a pipe count in 32 bits and wrap around.
\<close>

section \<open>State\<close>

definition NFILE :: nat where "NFILE = 100"

datatype fdtype = FD_NONE | FD_PIPE | FD_INODE

record ofile =
  f_type :: fdtype
  f_ref :: int
  f_readable :: bool
  f_writable :: bool
  f_pipe :: addr
  f_ip :: "nat option"
  f_off :: nat

definition PIPESIZE :: uint where "PIPESIZE = 512"

record pipe =
  pi_data :: "nat \<Rightarrow> byte"
  nread :: uint
  nwrite :: uint
  readopen :: bool
  writeopen :: bool

record kfile = kdev +
  files :: "nat \<Rightarrow> ofile"
  pipes :: "addr \<Rightarrow> pipe"

abbreviation upd_file :: "nat \<Rightarrow> (ofile \<Rightarrow> ofile) \<Rightarrow> 'a kfile_scheme \<Rightarrow> 'a kfile_scheme" where
  "upd_file f u s \<equiv> s\<lparr>files := (files s)(f := u (files s f))\<rparr>"

abbreviation upd_pipe :: "addr \<Rightarrow> (pipe \<Rightarrow> pipe) \<Rightarrow> 'a kfile_scheme \<Rightarrow> 'a kfile_scheme" where
  "upd_pipe p u s \<equiv> s\<lparr>pipes := (pipes s)(p := u (pipes s p))\<rparr>"

section \<open>The file table\<close>

definition fileinit :: "'a kfile_scheme \<Rightarrow> 'a kfile_scheme" where
  "fileinit s = initlock FtableLk s"

definition filealloc :: "'a kfile_scheme \<Rightarrow> (nat option, 'a kfile_scheme) outcome" where
  "filealloc s =
     bindK (acquire FtableLk s) (\<lambda>_ s.
     case scan (\<lambda>f. f_ref (files s f) = 0) NFILE of
       Some f \<Rightarrow> bindK (release FtableLk (upd_file f (\<lambda>q. q\<lparr>f_ref := 1\<rparr>) s)) (\<lambda>_ s. Ret (Some f) s)
     | None \<Rightarrow> bindK (release FtableLk s) (\<lambda>_ s. Ret None s))"

definition filedup :: "nat \<Rightarrow> 'a kfile_scheme \<Rightarrow> (nat, 'a kfile_scheme) outcome" where
  "filedup f s =
     bindK (acquire FtableLk s) (\<lambda>_ s.
     if f_ref (files s f) < 1 then Panic ''filedup''
     else bindK (release FtableLk (upd_file f (\<lambda>q. q\<lparr>f_ref := f_ref q + 1\<rparr>) s)) (\<lambda>_ s. Ret f s))"

section \<open>Pipes\<close>

definition pipeclose :: "addr \<Rightarrow> bool \<Rightarrow> 'a kfile_scheme \<Rightarrow> (unit, 'a kfile_scheme) outcome" where
  "pipeclose p writable s =
     bindK (acquire (PipeLk p) s) (\<lambda>_ s.
     bindK (if writable then wakeup (CPipeR p) (upd_pipe p (\<lambda>q. q\<lparr>writeopen := False\<rparr>) s)
            else wakeup (CPipeW p) (upd_pipe p (\<lambda>q. q\<lparr>readopen := False\<rparr>) s)) (\<lambda>_ s.
     if \<not> readopen (pipes s p) \<and> \<not> writeopen (pipes s p)
     then bindK (release (PipeLk p) s) (\<lambda>_ s. kfree p s)
     else release (PipeLk p) s))"

text \<open>The two accesses to the array: a byte in at the write counter, a byte out at the read counter.\<close>

definition pipe_put :: "byte \<Rightarrow> pipe \<Rightarrow> pipe" where
  "pipe_put b q = q\<lparr>pi_data := (pi_data q)(unat (nwrite q mod PIPESIZE) := b), nwrite := nwrite q + 1\<rparr>"

definition pipe_top :: "pipe \<Rightarrow> byte" where
  "pipe_top q = pi_data q (unat (nread q mod PIPESIZE))"

definition pipe_pop :: "pipe \<Rightarrow> pipe" where
  "pipe_pop q = q\<lparr>nread := nread q + 1\<rparr>"

text \<open>The loop of \<open>pipewrite\<close> with \<open>n\<close> bytes still to write, of which the next is byte \<open>i\<close> of the source.\<close>

fun pipewrite_loop :: "addr \<Rightarrow> csrc \<Rightarrow> nat \<Rightarrow> nat \<Rightarrow> 'a kfile_scheme \<Rightarrow> (int, 'a kfile_scheme) outcome" where
  "pipewrite_loop p src i 0 s =
     bindK (wakeup (CPipeR p) s) (\<lambda>_ s.
     bindK (release (PipeLk p) s) (\<lambda>_ s. Ret (int i) s))"
| "pipewrite_loop p src i (Suc n) s =
     (if nwrite (pipes s p) = nread (pipes s p) + PIPESIZE then
        bindK (if \<not> readopen (pipes s p) then Ret True s
               else bindK (myproc s) (\<lambda>c s. Ret (p_killed (procs s c)) s)) (\<lambda>stop s.
        if stop then bindK (release (PipeLk p) s) (\<lambda>_ s. Ret (-1) s)
        else bindK (wakeup (CPipeR p) s) (\<lambda>_ s.
             bindK (sleep (CPipeW p) (PipeLk p) s) (\<lambda>_ s. Ret (-1) s)))
      else
        bindK (get_src src i 1 s) (\<lambda>bs s.
        pipewrite_loop p src (i + 1) n (upd_pipe p (pipe_put (hd bs)) s)))"

definition pipewrite :: "addr \<Rightarrow> csrc \<Rightarrow> int \<Rightarrow> 'a kfile_scheme \<Rightarrow> (int, 'a kfile_scheme) outcome" where
  "pipewrite p src n s =
     bindK (acquire (PipeLk p) s) (\<lambda>_ s.
     bindK (pipewrite_loop p src 0 (nat n) s) (\<lambda>r s. Ret (if r < 0 then r else n) s))"

definition pipewrite_resume :: "addr \<Rightarrow> csrc \<Rightarrow> nat \<Rightarrow> nat \<Rightarrow> 'a kfile_scheme \<Rightarrow> (int, 'a kfile_scheme) outcome" where
  "pipewrite_resume p src i n s =
     bindK (sleep_resume (PipeLk p) s) (\<lambda>_ s. pipewrite_loop p src i n s)"

fun piperead_copy :: "addr \<Rightarrow> addr option \<Rightarrow> byte list \<Rightarrow> nat \<Rightarrow> 'a kfile_scheme \<Rightarrow> (byte list, 'a kfile_scheme) outcome" where
  "piperead_copy p dst got 0 s = Ret got s"
| "piperead_copy p dst got (Suc n) s =
     (if nread (pipes s p) = nwrite (pipes s p) then Ret got s
      else
        let b = pipe_top (pipes s p)
        in bindK (put_dst dst (length got) [b] (upd_pipe p pipe_pop s)) (\<lambda>_ s.
           piperead_copy p dst (got @ [b]) n s))"

definition piperead_body :: "addr \<Rightarrow> addr option \<Rightarrow> int \<Rightarrow> 'a kfile_scheme \<Rightarrow> (int \<times> byte list, 'a kfile_scheme) outcome" where
  "piperead_body p dst n s =
     (if nread (pipes s p) = nwrite (pipes s p) \<and> writeopen (pipes s p) then
        bindK (myproc s) (\<lambda>c s.
        if p_killed (procs s c) then bindK (release (PipeLk p) s) (\<lambda>_ s. Ret (-1, []) s)
        else bindK (sleep (CPipeR p) (PipeLk p) s) (\<lambda>_ s. Ret (-1, []) s))
      else
        bindK (piperead_copy p dst [] (nat n) s) (\<lambda>bs s.
        bindK (wakeup (CPipeW p) s) (\<lambda>_ s.
        bindK (release (PipeLk p) s) (\<lambda>_ s. Ret (int (length bs), bs) s))))"

definition piperead :: "addr \<Rightarrow> addr option \<Rightarrow> int \<Rightarrow> 'a kfile_scheme \<Rightarrow> (int \<times> byte list, 'a kfile_scheme) outcome" where
  "piperead p dst n s = bindK (acquire (PipeLk p) s) (\<lambda>_ s. piperead_body p dst n s)"

definition piperead_resume :: "addr \<Rightarrow> addr option \<Rightarrow> int \<Rightarrow> 'a kfile_scheme \<Rightarrow> (int \<times> byte list, 'a kfile_scheme) outcome" where
  "piperead_resume p dst n s = bindK (sleep_resume (PipeLk p) s) (\<lambda>_ s. piperead_body p dst n s)"

section \<open>Open files\<close>

definition fileclose :: "nat \<Rightarrow> 'a kfile_scheme \<Rightarrow> (unit, 'a kfile_scheme) outcome" where
  "fileclose f s =
     bindK (acquire FtableLk s) (\<lambda>_ s.
     if f_ref (files s f) < 1 then Panic ''fileclose''
     else
       let s = upd_file f (\<lambda>q. q\<lparr>f_ref := f_ref q - 1\<rparr>) s
       in if f_ref (files s f) > 0 then release FtableLk s
          else
            let ff = files s f
            in bindK (release FtableLk (upd_file f (\<lambda>q. q\<lparr>f_ref := 0, f_type := FD_NONE\<rparr>) s)) (\<lambda>_ s.
               if f_type ff = FD_PIPE then pipeclose (f_pipe ff) (f_writable ff) s
               else if f_type ff = FD_INODE then
                 bindK (begin_op s) (\<lambda>_ s.
                 bindK (case f_ip ff of None \<Rightarrow> Fault ''null inode'' | Some ip \<Rightarrow> iput ip s) (\<lambda>_ s.
                 end_op s))
               else Ret () s))"

text \<open>The code behind \<open>bad\<close>, for the files allocated so far.\<close>

definition pipealloc_bad :: "nat option \<Rightarrow> nat option \<Rightarrow> 'a kfile_scheme \<Rightarrow> ((nat \<times> nat) option, 'a kfile_scheme) outcome" where
  "pipealloc_bad f0 f1 s =
     bindK (case f0 of None \<Rightarrow> Ret () s | Some f \<Rightarrow> fileclose f s) (\<lambda>_ s.
     bindK (case f1 of None \<Rightarrow> Ret () s | Some f \<Rightarrow> fileclose f s) (\<lambda>_ s.
     Ret None s))"

definition pipealloc :: "'a kfile_scheme \<Rightarrow> ((nat \<times> nat) option, 'a kfile_scheme) outcome" where
  "pipealloc s =
     bindK (filealloc s) (\<lambda>f0 s.
     case f0 of
       None \<Rightarrow> pipealloc_bad None None s
     | Some r \<Rightarrow>
         bindK (filealloc s) (\<lambda>f1 s.
         case f1 of
           None \<Rightarrow> pipealloc_bad f0 None s
         | Some w \<Rightarrow>
             bindK (kalloc s) (\<lambda>p s.
             if p = 0 then pipealloc_bad f0 f1 s
             else
               let s = upd_pipe p (\<lambda>q. q\<lparr>readopen := True, writeopen := True, nwrite := 0, nread := 0\<rparr>) s;
                   s = initlock (PipeLk p) s;
                   s = upd_file r (\<lambda>q. q\<lparr>f_type := FD_PIPE, f_readable := True, f_writable := False, f_pipe := p\<rparr>) s;
                   s = upd_file w (\<lambda>q. q\<lparr>f_type := FD_PIPE, f_readable := False, f_writable := True, f_pipe := p\<rparr>) s
               in Ret (Some (r, w)) s)))"

text \<open>\<open>struct stat\<close> in memory: type, device, inode number, links and size at 0, 4, 8, 12 and 16.\<close>

definition store_stat :: "addr \<Rightarrow> stat \<Rightarrow> 'a kproc_scheme \<Rightarrow> (unit, 'a kproc_scheme) outcome" where
  "store_stat a st s =
     bindK (store_bytes (a + 4) (bytes32 (of_nat (st_dev st))) s) (\<lambda>_ s.
     bindK (store_bytes (a + 8) (bytes32 (of_nat (st_ino st))) s) (\<lambda>_ s.
     bindK (store_bytes a (take 2 (bytes32 (word_of_int (st_type st)))) s) (\<lambda>_ s.
     bindK (store_bytes (a + 12) (take 2 (bytes32 (word_of_int (st_nlink st)))) s) (\<lambda>_ s.
     store_bytes (a + 16) (bytes32 (of_nat (st_size st))) s))))"

definition filestat :: "nat \<Rightarrow> addr \<Rightarrow> 'a kfile_scheme \<Rightarrow> (int, 'a kfile_scheme) outcome" where
  "filestat f a s =
     (if f_type (files s f) = FD_INODE then
        bindK (ilock (f_ip (files s f)) s) (\<lambda>_ s.
        case f_ip (files s f) of
          None \<Rightarrow> Fault ''null inode''
        | Some ip \<Rightarrow>
            bindK (store_stat a (stati ip s) s) (\<lambda>_ s.
            bindK (iunlock (Some ip) s) (\<lambda>_ s. Ret 0 s)))
      else Ret (-1) s)"

definition fileread :: "nat \<Rightarrow> addr \<Rightarrow> int \<Rightarrow> 'a kfile_scheme \<Rightarrow> (int, 'a kfile_scheme) outcome" where
  "fileread f a n s =
     (if \<not> f_readable (files s f) then Ret (-1) s
      else if f_type (files s f) = FD_PIPE then
        bindK (piperead (f_pipe (files s f)) (Some a) n s) (\<lambda>(r, bs) s. Ret r s)
      else if f_type (files s f) = FD_INODE then
        bindK (ilock (f_ip (files s f)) s) (\<lambda>_ s.
        case f_ip (files s f) of
          None \<Rightarrow> Fault ''null inode''
        | Some ip \<Rightarrow>
            bindK (readi ip (Some a) (f_off (files s f)) (uarg n) s) (\<lambda>(r, bs) s.
            let s = (if r > 0 then upd_file f (\<lambda>q. q\<lparr>f_off := (f_off q + nat r) mod 2 ^ 32\<rparr>) s else s)
            in bindK (iunlock (Some ip) s) (\<lambda>_ s. Ret r s)))
      else Panic ''fileread'')"

text \<open>One turn of the loop of \<open>filewrite\<close>: a transaction that writes \<open>n1\<close> bytes from byte \<open>i\<close> on.\<close>

definition filewrite_chunk :: "nat \<Rightarrow> addr \<Rightarrow> nat \<Rightarrow> nat \<Rightarrow> 'a kfile_scheme \<Rightarrow> (int, 'a kfile_scheme) outcome" where
  "filewrite_chunk f a i n1 s =
     bindK (begin_op s) (\<lambda>_ s.
     bindK (ilock (f_ip (files s f)) s) (\<lambda>_ s.
     case f_ip (files s f) of
       None \<Rightarrow> Fault ''null inode''
     | Some ip \<Rightarrow>
         bindK (writei ip (Mem (a + of_nat i)) (f_off (files s f)) n1 s) (\<lambda>r s.
         let s = (if r > 0 then upd_file f (\<lambda>q. q\<lparr>f_off := (f_off q + nat r) mod 2 ^ 32\<rparr>) s else s)
         in bindK (iunlock (Some ip) s) (\<lambda>_ s.
            bindK (end_op s) (\<lambda>_ s. Ret r s)))))"

text \<open>The most bytes a transaction writes.\<close>

definition filewrite_max :: nat where
  "filewrite_max = (MAXOPBLOCKS - 1 - 1 - 2) div 2 * 512"

function filewrite_loop :: "nat \<Rightarrow> addr \<Rightarrow> nat \<Rightarrow> nat \<Rightarrow> 'a kfile_scheme \<Rightarrow> (nat, 'a kfile_scheme) outcome" where
  "filewrite_loop f a n i s =
     (if i < n then
        let n1 = (if n - i > filewrite_max then filewrite_max else n - i)
        in bindK (filewrite_chunk f a i n1 s) (\<lambda>r s.
           if r < 0 then Ret i s
           else if r \<noteq> int n1 then Panic ''short filewrite''
           else filewrite_loop f a n (i + n1) s)
      else Ret i s)"
  by pat_completeness auto
termination
  by (relation "measure (\<lambda>(f, a, n, i, s). n - i)") (auto simp: filewrite_max_def MAXOPBLOCKS_def)

declare filewrite_loop.simps [simp del]

definition filewrite :: "nat \<Rightarrow> addr \<Rightarrow> int \<Rightarrow> 'a kfile_scheme \<Rightarrow> (int, 'a kfile_scheme) outcome" where
  "filewrite f a n s =
     (if \<not> f_writable (files s f) then Ret (-1) s
      else if f_type (files s f) = FD_PIPE then pipewrite (f_pipe (files s f)) (Mem a) n s
      else if f_type (files s f) = FD_INODE then
        bindK (filewrite_loop f a (nat n) 0 s) (\<lambda>i s. Ret (if int i = n then n else -1) s)
      else Panic ''filewrite'')"

section \<open>A pipe is a queue of bytes\<close>

definition pipe_items :: "pipe \<Rightarrow> byte list" where
  "pipe_items q = slots PIPESIZE (pi_data q) (nread q) (nwrite q)"

definition pipe_ok :: "pipe \<Rightarrow> bool" where
  "pipe_ok q = (unat (nwrite q - nread q) \<le> 512)"

interpretation pq: bounded_queue pipe_items pipe_ok 512 pipe_put pipe_top pipe_pop
proof
  have N: "unat PIPESIZE dvd 2 ^ 32" "unat PIPESIZE = 512" by (simp_all add: PIPESIZE_def)
  fix q b
  show "length (pipe_items q) \<le> 512" if "pipe_ok q" using that by (simp add: pipe_items_def pipe_ok_def)
  show "pipe_ok (pipe_put b q) \<and> pipe_items (pipe_put b q) = pipe_items q @ [b]"
    if "pipe_ok q" "length (pipe_items q) < 512"
  proof -
    have l: "unat (nwrite q - nread q) < unat PIPESIZE" using that N by (simp add: pipe_items_def)
    then have "unat (nwrite q + 1 - nread q) = Suc (unat (nwrite q - nread q))" using N by (intro counter_step) simp
    then show ?thesis using l N slots_put [OF N(1) l, of "pi_data q" b] by (simp add: pipe_items_def pipe_ok_def pipe_put_def)
  qed
  show "pipe_ok (pipe_pop q) \<and> pipe_items q = pipe_top q # pipe_items (pipe_pop q)"
    if "pipe_ok q" "pipe_items q \<noteq> []"
  proof -
    have "nread q \<noteq> nwrite q" using that(2) by (auto simp: pipe_items_def)
    then have g: "pipe_items q = pipe_top q # pipe_items (pipe_pop q)"
      using slots_get [of "nread q" "nwrite q" PIPESIZE "pi_data q"] by (simp add: pipe_items_def pipe_top_def pipe_pop_def)
    moreover have "length (pipe_items (pipe_pop q)) \<le> 512"
      using arg_cong [OF g, of length] that(1) by (simp add: pipe_items_def pipe_ok_def)
    ultimately show ?thesis by (simp add: pipe_items_def pipe_ok_def pipe_pop_def)
  qed
qed

lemma pipe_full: "pipe_ok q \<Longrightarrow> nwrite q = nread q + PIPESIZE \<longleftrightarrow> length (pipe_items q) = 512"
proof -
  have "nwrite q = nread q + PIPESIZE \<longleftrightarrow> nwrite q - nread q = 512" by (auto simp: PIPESIZE_def algebra_simps)
  also have "\<dots> \<longleftrightarrow> unat (nwrite q - nread q) = unat (512 :: uint)" by (metis unat_inj)
  finally show ?thesis by (simp add: pipe_items_def)
qed

lemma pipe_empty: "nread q = nwrite q \<longleftrightarrow> pipe_items q = []"
proof -
  have "pipe_items q = [] \<longleftrightarrow> unat (nwrite q - nread q) = 0"
    by (metis length_0_conv length_slots pipe_items_def)
  then show ?thesis by (auto simp: unat_eq_zero)
qed

text \<open>The loop of \<open>pipewrite\<close> puts in as many bytes as there is room for.\<close>

lemma pipewrite_loop_puts:
  assumes "load_bytes a (length bs) s = Ret bs s" and "i + m + n = length bs"
    and "pipe_ok (pipes s p)" and "length (pipe_items (pipes s p)) + m \<le> 512"
  shows "pipewrite_loop p (Mem a) i (m + n) s =
    pipewrite_loop p (Mem a) (i + m) n (upd_pipe p (fold pipe_put (take m (drop i bs))) s)"
  using assms
proof (induction m arbitrary: i s)
  case (Suc m)
  let ?t = "upd_pipe p (pipe_put (bs ! i)) s"
  have nf: "nwrite (pipes s p) \<noteq> nread (pipes s p) + PIPESIZE" using Suc.prems(3,4) pipe_full by fastforce
  have g: "load_bytes (a + of_nat i) (Suc 0) s = Ret [bs ! i] s"
    using Suc.prems(1,2) by (intro load_bytes_nth [where n = "length bs"]) auto
  have P: "pipe_ok (pipes ?t p)" "length (pipe_items (pipes ?t p)) + m \<le> 512"
    using pq.put_law [OF Suc.prems(3), of "bs ! i"] Suc.prems(4) by auto
  have d: "drop i bs = bs ! i # drop (Suc i) bs" using Suc.prems(2) by (simp add: Cons_nth_drop_Suc)
  have "pipewrite_loop p (Mem a) i (Suc m + n) s = pipewrite_loop p (Mem a) (Suc i) (m + n) ?t"
    using nf g by simp
  also have "\<dots> = pipewrite_loop p (Mem a) (Suc i + m) n (upd_pipe p (fold pipe_put (take m (drop (Suc i) bs))) ?t)"
    using Suc.prems(2) by (intro Suc.IH [OF _ _ P] load_bytes_cong [OF Suc.prems(1)]) auto
  also have "upd_pipe p (fold pipe_put (take m (drop (Suc i) bs))) ?t = upd_pipe p (fold pipe_put (take (Suc m) (drop i bs))) s"
    unfolding d by simp
  finally show ?case by (simp only: add_Suc add_Suc_right)
qed simp

text \<open>
  What a writer with the bytes \<open>bs\<close> still to write does to pipe \<open>p\<close>: as many of them as there is room
  for go in, and the readers are woken. If some do not fit the writer goes to sleep, unless nobody will
  read them or the writer is to be killed.
\<close>

definition pipe_write_spec :: "addr \<Rightarrow> nat \<Rightarrow> byte list \<Rightarrow> int \<Rightarrow> 'a kfile_scheme \<Rightarrow> (int, 'a kfile_scheme) outcome" where
  "pipe_write_spec p c bs r s =
     (let q = pipes s p; room = 512 - length (pipe_items q);
          t = upd_pipe p (\<lambda>_. fold pipe_put (take room bs) q) s
      in if length bs \<le> room then Ret r (wakeup1 (Some (CPipeR p)) t)
         else if \<not> readopen q \<or> p_killed (procs s c) then Ret (-1) t
         else Swtch (upd_proc c (\<lambda>q. q\<lparr>p_chan := Some (CPipeW p), p_state := SLEEPING\<rparr>)
                       ((wakeup1 (Some (CPipeR p)) t)\<lparr>held := [PtableLk]\<rparr>)))"

lemma pipe_put_ends [simp]:
  "readopen (fold pipe_put bs q) = readopen q" "writeopen (fold pipe_put bs q) = writeopen q"
  by (induction bs arbitrary: q) (simp_all add: pipe_put_def)

lemma pipewrite_loop_run:
  assumes "load_bytes a (length bs) s = Ret bs s" and "i \<le> length bs" and "pipe_ok (pipes s p)"
    and "held s = [PipeLk p]" and "cpu_proc s = Some c"
  shows "pipewrite_loop p (Mem a) i (length bs - i) s =
    pipe_write_spec p c (drop i bs) (int (length bs)) (s\<lparr>held := []\<rparr>)"
proof -
  define q where "q = pipes s p"
  define room where "room = 512 - length (pipe_items q)"
  have ok: "pipe_ok q" using assms(3) by (simp add: q_def)
  have l: "length (pipe_items q) \<le> 512" using pq.within [OF ok] .
  show ?thesis
  proof (cases "length bs - i \<le> room")
    case True
    have "length (pipe_items (pipes s p)) + (length bs - i) \<le> 512" using True l by (simp add: room_def q_def)
    then have "pipewrite_loop p (Mem a) i (length bs - i + 0) s =
        pipewrite_loop p (Mem a) (i + (length bs - i)) 0 (upd_pipe p (fold pipe_put (take (length bs - i) (drop i bs))) s)"
      using assms(2,3) by (intro pipewrite_loop_puts [OF assms(1)]) auto
    then show ?thesis
      using True assms(2,4) by (simp add: pipe_write_spec_def Let_def wakeup_eq wakeup1_def q_def room_def)
  next
    case False
    let ?n = "length bs - i - room"
    let ?t = "upd_pipe p (fold pipe_put (take room (drop i bs))) s"
    have "length (pipe_items (pipes s p)) + room \<le> 512" using l by (simp add: room_def q_def)
    then have "pipewrite_loop p (Mem a) i (room + ?n) s = pipewrite_loop p (Mem a) (i + room) ?n ?t"
      using False assms(2,3) by (intro pipewrite_loop_puts [OF assms(1)]) auto
    moreover have "room + ?n = length bs - i" using False by simp
    moreover obtain k where "?n = Suc k" using False by (metis diff_is_0_eq not0_implies_Suc)
    ultimately have run: "pipewrite_loop p (Mem a) i (length bs - i) s = pipewrite_loop p (Mem a) (i + room) (Suc k) ?t" by simp
    have "pipe_ok (pipes ?t p)" "length (pipe_items (pipes ?t p)) = 512"
      using pq.put_all [of q "take room (drop i bs)"] ok l False by (auto simp: q_def room_def)
    then have full: "nwrite (pipes ?t p) = nread (pipes ?t p) + PIPESIZE" using pipe_full by blast
    have f: "nwrite (fold pipe_put (take room (drop i bs)) (pipes s p)) = nread (fold pipe_put (take room (drop i bs)) (pipes s p)) + PIPESIZE"
      using full by simp
    show ?thesis
      unfolding run using False assms(4,5) f
      by (auto simp: pipe_write_spec_def Let_def wakeup_eq wakeup1_def q_def [symmetric] room_def [symmetric] myproc_def sleep_eq)
  qed
qed

text \<open>The loop of \<open>piperead\<close> takes out what is there, up to the number asked for.\<close>

lemma same_upd: "(\<lambda>a. if a = p then f p else f a) = f"
  by auto

lemma piperead_copy_run:
  assumes "buffer_at a n ka s" and "length got + m \<le> n" and "pipe_ok (pipes t p)"
    and "mem t = put_mem ka got (mem s)" and "cr3 t = cr3 s"
  shows "piperead_copy p (Some a) got m t =
    (let bs = take m (pipe_items (pipes t p))
     in Ret (got @ bs) (upd_pipe p (pipe_pop ^^ length bs) (t\<lparr>mem := put_mem ka (got @ bs) (mem s)\<rparr>)))"
  using assms(2-)
proof (induction m arbitrary: got t)
  case 0
  have "t\<lparr>mem := put_mem ka got (mem s)\<rparr> = t" unfolding 0(3) [symmetric] by simp
  then show ?case by (simp add: Let_def same_upd cong: if_cong)
next
  case (Suc m)
  let ?q = "pipes t p"
  show ?case
  proof (cases "pipe_items ?q = []")
    case True
    have "t\<lparr>mem := put_mem ka got (mem s)\<rparr> = t" unfolding Suc.prems(3) [symmetric] by simp
    then show ?thesis using True pipe_empty [of ?q] by (simp add: Let_def same_upd cong: if_cong)
  next
    case False
    let ?b = "pipe_top ?q"
    let ?u = "(upd_pipe p pipe_pop t)\<lparr>mem := (mem t)(ka (length got) := ?b)\<rparr>"
    have it: "pipe_ok (pipe_pop ?q)" "pipe_items ?q = ?b # pipe_items (pipe_pop ?q)"
      using pq.pop_law [OF Suc.prems(2) False] by auto
    have o: "put_mem ka got (mem s) x = mem s x" if "x \<notin> ka ` {..<n}" for x
      using that Suc.prems(1) by (intro put_mem_outside) auto
    have "store_bytes (a + of_nat (length got)) [?b] (upd_pipe p pipe_pop t) =
        Ret () ((upd_pipe p pipe_pop t)\<lparr>mem := (mem (upd_pipe p pipe_pop t))(ka (length got) := ?b)\<rparr>)"
      by (rule store_at [OF assms(1)]) (use Suc.prems o in auto)
    then have "piperead_copy p (Some a) got (Suc m) t = piperead_copy p (Some a) (got @ [?b]) m ?u"
      using False pipe_empty [of ?q] by (simp add: put_dst_def Let_def)
    also have "\<dots> = (let bs = take m (pipe_items (pipes ?u p))
        in Ret ((got @ [?b]) @ bs) (upd_pipe p (pipe_pop ^^ length bs) (?u\<lparr>mem := put_mem ka ((got @ [?b]) @ bs) (mem s)\<rparr>)))"
      by (rule Suc.IH) (use Suc.prems it(1) in \<open>auto simp: put_mem_snoc\<close>)
    also have "\<dots> = (let bs = take (Suc m) (pipe_items ?q)
        in Ret (got @ bs) (upd_pipe p (pipe_pop ^^ length bs) (t\<lparr>mem := put_mem ka (got @ bs) (mem s)\<rparr>)))"
      unfolding it(2) by (simp add: Let_def funpow_swap1)
    finally show ?thesis .
  qed
qed

text \<open>
  What a reader of at most \<open>n\<close> bytes does to pipe \<open>p\<close>: it sleeps while the pipe is empty and has
  a writer; otherwise it takes the first bytes and wakes the writers.
\<close>

definition pipe_read_spec :: "addr \<Rightarrow> nat \<Rightarrow> (nat \<Rightarrow> addr) \<Rightarrow> nat \<Rightarrow> 'a kfile_scheme \<Rightarrow> (int \<times> byte list, 'a kfile_scheme) outcome" where
  "pipe_read_spec p c ka n s =
     (let q = pipes s p; bs = take n (pipe_items q)
      in if pipe_items q = [] \<and> writeopen q then
           if p_killed (procs s c) then Ret (-1, []) s
           else Swtch (upd_proc c (\<lambda>q. q\<lparr>p_chan := Some (CPipeR p), p_state := SLEEPING\<rparr>) (s\<lparr>held := [PtableLk]\<rparr>))
         else
           Ret (int (length bs), bs)
             (wakeup1 (Some (CPipeW p))
               (upd_pipe p (pipe_pop ^^ length bs) (s\<lparr>mem := put_mem ka bs (mem s)\<rparr>))))"

lemma piperead_body_run:
  assumes "buffer_at a n ka s" and "pipe_ok (pipes s p)" and "held s = [PipeLk p]" and "cpu_proc s = Some c"
  shows "piperead_body p (Some a) (int n) s = pipe_read_spec p c ka n (s\<lparr>held := []\<rparr>)"
proof -
  have "piperead_copy p (Some a) [] n s =
    (let bs = take n (pipe_items (pipes s p))
     in Ret ([] @ bs) (upd_pipe p (pipe_pop ^^ length bs) (s\<lparr>mem := put_mem ka ([] @ bs) (mem s)\<rparr>)))"
    by (rule piperead_copy_run [OF assms(1)]) (use assms in auto)
  then show ?thesis
    using assms pipe_empty [of "pipes s p"]
    by (auto simp: piperead_body_def pipe_read_spec_def Let_def myproc_def sleep_eq wakeup_eq wakeup1_def)
qed

lemma buffer_at_cong: "mem t = mem s \<Longrightarrow> cr3 t = cr3 s \<Longrightarrow> buffer_at a n ka t = buffer_at a n ka s"
proof -
  assume h: "mem t = mem s" "cr3 t = cr3 s"
  have "mmu True x (t\<lparr>mem := m\<rparr>) = mmu True x (s\<lparr>mem := m\<rparr>)" for x m by (rule mmu_cong) (simp_all add: h)
  then show ?thesis by (simp add: buffer_at_def h)
qed

section \<open>Properties\<close>

text \<open>
  C28: a pipe is a queue of at most 512 bytes, also when its counters wrap around. A writer appends as many of its
  bytes as fit. If all fit it returns their number; if not it wakes the readers and sleeps until there is
  room, and goes on with the bytes that are left when it is woken. It fails instead of sleeping when the read
  end is closed or the process has been killed.
\<close>

theorem pipewrite_correct:
  assumes "load_bytes a (length bs) s = Ret bs s" and "pipe_ok (pipes s p)" and "cpu_proc s = Some c" and "i \<le> length bs"
  defines "n \<equiv> 512 - length (pipe_items (pipes s p))"
  shows "(held s = [] \<longrightarrow> pipewrite p (Mem a) (int (length bs)) s = pipe_write_spec p c bs (int (length bs)) s)
    \<and> (held s = [PtableLk] \<longrightarrow> pipewrite_resume p (Mem a) i (length bs - i) s =
         pipe_write_spec p c (drop i bs) (int (length bs)) (upd_proc c (\<lambda>q. q\<lparr>p_chan := None\<rparr>) (s\<lparr>held := []\<rparr>)))
    \<and> pipe_ok (fold pipe_put (take n (drop i bs)) (pipes s p))
    \<and> pipe_items (fold pipe_put (take n (drop i bs)) (pipes s p)) = pipe_items (pipes s p) @ take n (drop i bs)"
proof (intro conjI impI)
  show "pipewrite p (Mem a) (int (length bs)) s = pipe_write_spec p c bs (int (length bs)) s" if h: "held s = []"
  proof -
    let ?t = "s\<lparr>held := [PipeLk p]\<rparr>"
    have "pipewrite_loop p (Mem a) 0 (length bs - 0) ?t = pipe_write_spec p c (drop 0 bs) (int (length bs)) (?t\<lparr>held := []\<rparr>)"
      using assms by (intro pipewrite_loop_run load_bytes_cong [OF assms(1)]) auto
    moreover have "s\<lparr>held := []\<rparr> = s" using h by simp
    ultimately show ?thesis using h by (auto simp: pipewrite_def pipe_write_spec_def Let_def)
  qed
  show "pipewrite_resume p (Mem a) i (length bs - i) s =
      pipe_write_spec p c (drop i bs) (int (length bs)) (upd_proc c (\<lambda>q. q\<lparr>p_chan := None\<rparr>) (s\<lparr>held := []\<rparr>))"
    if h: "held s = [PtableLk]"
  proof -
    let ?t = "upd_proc c (\<lambda>q. q\<lparr>p_chan := None\<rparr>) (s\<lparr>held := [PipeLk p]\<rparr>)"
    have "pipewrite_loop p (Mem a) i (length bs - i) ?t = pipe_write_spec p c (drop i bs) (int (length bs)) (?t\<lparr>held := []\<rparr>)"
      using assms by (intro pipewrite_loop_run load_bytes_cong [OF assms(1)]) auto
    moreover have "?t\<lparr>held := []\<rparr> = upd_proc c (\<lambda>q. q\<lparr>p_chan := None\<rparr>) (s\<lparr>held := []\<rparr>)" by simp
    ultimately show ?thesis using h assms(3) by (simp only: pipewrite_resume_def sleep_resume_eq bindK.simps)
  qed
  have l: "length (pipe_items (pipes s p)) + length (take n (drop i bs)) \<le> 512"
    using pq.within [OF assms(2)] by (simp add: n_def)
  show "pipe_ok (fold pipe_put (take n (drop i bs)) (pipes s p))"
    "pipe_items (fold pipe_put (take n (drop i bs)) (pipes s p)) = pipe_items (pipes s p) @ take n (drop i bs)"
    using pq.put_all [OF assms(2) l] by auto
qed

text \<open>
  C29: a reader takes the bytes in the order in which they were written, at most as many as it asks for, copies
  them to its buffer, and leaves the rest. It sleeps only while the pipe is empty and has a writer; an
  empty pipe without writer is the end of the file, with the result 0.
\<close>

theorem piperead_correct:
  assumes "buffer_at a n ka s" and "pipe_ok (pipes s p)" and "cpu_proc s = Some c"
  defines "bs \<equiv> take n (pipe_items (pipes s p))"
  shows "(held s = [] \<longrightarrow> piperead p (Some a) (int n) s = pipe_read_spec p c ka n s)
    \<and> (held s = [PtableLk] \<longrightarrow> piperead_resume p (Some a) (int n) s =
         pipe_read_spec p c ka n (upd_proc c (\<lambda>q. q\<lparr>p_chan := None\<rparr>) (s\<lparr>held := []\<rparr>)))
    \<and> pipe_ok ((pipe_pop ^^ length bs) (pipes s p))
    \<and> pipe_items (pipes s p) = bs @ pipe_items ((pipe_pop ^^ length bs) (pipes s p))
    \<and> (\<forall>k<length bs. put_mem ka bs (mem s) (ka k) = bs ! k)"
proof (intro conjI impI allI)
  show "piperead p (Some a) (int n) s = pipe_read_spec p c ka n s" if h: "held s = []"
  proof -
    let ?t = "s\<lparr>held := [PipeLk p]\<rparr>"
    have "buffer_at a n ka ?t" by (rule buffer_at_cong [THEN iffD2, OF _ _ assms(1)]) simp_all
    then have "piperead_body p (Some a) (int n) ?t = pipe_read_spec p c ka n (?t\<lparr>held := []\<rparr>)"
      using assms by (intro piperead_body_run) auto
    moreover have "s\<lparr>held := []\<rparr> = s" using h by simp
    ultimately show ?thesis using h by (simp add: piperead_def)
  qed
  show "piperead_resume p (Some a) (int n) s =
      pipe_read_spec p c ka n (upd_proc c (\<lambda>q. q\<lparr>p_chan := None\<rparr>) (s\<lparr>held := []\<rparr>))" if h: "held s = [PtableLk]"
  proof -
    let ?t = "upd_proc c (\<lambda>q. q\<lparr>p_chan := None\<rparr>) (s\<lparr>held := [PipeLk p]\<rparr>)"
    have "buffer_at a n ka ?t" by (rule buffer_at_cong [THEN iffD2, OF _ _ assms(1)]) simp_all
    then have "piperead_body p (Some a) (int n) ?t = pipe_read_spec p c ka n (?t\<lparr>held := []\<rparr>)"
      using assms by (intro piperead_body_run) auto
    moreover have "?t\<lparr>held := []\<rparr> = upd_proc c (\<lambda>q. q\<lparr>p_chan := None\<rparr>) (s\<lparr>held := []\<rparr>)" by simp
    ultimately show ?thesis using h assms(3) by (simp only: piperead_resume_def sleep_resume_eq bindK.simps)
  qed
  have P: "pipe_ok ((pipe_pop ^^ length bs) (pipes s p))"
      "pipe_items ((pipe_pop ^^ length bs) (pipes s p)) = drop (length bs) (pipe_items (pipes s p))"
    using pq.pop_many [OF assms(2), of "length bs"] by (auto simp: bs_def)
  show "pipe_ok ((pipe_pop ^^ length bs) (pipes s p))" by (rule P(1))
  show "pipe_items (pipes s p) = bs @ pipe_items ((pipe_pop ^^ length bs) (pipes s p))"
    unfolding P(2) by (cases "n \<le> length (pipe_items (pipes s p))") (simp_all add: bs_def)
  show "put_mem ka bs (mem s) (ka k) = bs ! k" if "k < length bs" for k
    using that assms(1) by (intro put_mem_inside [where n = n]) (auto simp: buffer_at_def bs_def)
qed

text \<open>
  A process with two bytes of data in its memory and a pipe at address 0 whose counters are about to wrap
  around.
\<close>

definition pipe0 :: pipe where
  "pipe0 = \<lparr>pi_data = (\<lambda>_. 1), nread = 0xFFFFFFFF, nwrite = 0xFFFFFFFF, readopen = True, writeopen = True\<rparr>"

definition kfile0 :: kfile where
  "kfile0 = kproc.extend kuser0 (ksleep_ext (\<lambda>_. unowned) (kbio_ext 1000 disk0 [] clean_bufs (\<lambda>_. 0) (\<lambda>_. 0)
     (klog_ext 2 30 0 False 1 0 (\<lambda>_. 0) (kinode_ext (get_superblock (\<lambda>_. 0)) (\<lambda>_. \<lparr>i_dev = 0, i_inum = 0, i_ref = 0, i_valid = False,
       i_type = 0, i_major = 0, i_minor = 0, i_nlink = 0, i_size = 0, i_addrs = (\<lambda>_. 0)\<rparr>)
     (kinput_ext (\<lambda>_. 0) 0 0 0 (kdev_ext (\<lambda>_. None) (\<lambda>_. None)
     (kfile_ext (\<lambda>_. \<lparr>f_type = FD_NONE, f_ref = 0, f_readable = False, f_writable = False, f_pipe = 0, f_ip = None, f_off = 0\<rparr>)
       (\<lambda>_. pipe0) ())))))))"

lemma kfile0_fields [simp]:
  "held kfile0 = []" "mem kfile0 = mem kuser0" "cr3 kfile0 = cr3 kuser0" "cpu_proc kfile0 = Some 0" "pipes kfile0 = (\<lambda>_. pipe0)"
  by (simp_all add: kfile0_def kproc.extend_def kuser0_def kproc0_def)

lemma pipe0_ok: "pipe_ok pipe0" "pipe_items pipe0 = []"
  by (simp_all add: pipe_ok_def pipe_items_def pipe0_def)

lemma mmu_kfile0: "mmu False 0x1800 kfile0 = Some 0x87070800" "mmu False 0x1801 kfile0 = Some 0x87070801"
  using mmu_kuser0(5,6) mmu_cong [of kfile0 kuser0] by simp_all

theorem pipewrite_correct_witness:
  "pipewrite 0 (Mem 0x1800) 2 kfile0 = pipe_write_spec 0 0 [7, 7] 2 kfile0 \<and> pipe_items (fold pipe_put [7, 7] pipe0) = [7, 7]"
proof -
  have "load_bytes 0x1800 (length [7, 7 :: byte]) kfile0 = Ret [7, 7] kfile0"
    by (simp add: mmu_kfile0) (simp add: kuser0_def)
  from pipewrite_correct [OF this, of 0 0 0] show ?thesis by (simp add: pipe0_ok)
qed

lemma buffer_kfile0: "buffer_at 0x1800 2 (\<lambda>k. 0x87070800 + of_nat k) kfile0"
proof -
  have k: "k = 0 \<or> k = 1" if "k < 2" for k :: nat using that by linarith
  have m: "mmu True (0x1800 + of_nat k) (kfile0\<lparr>mem := m\<rparr>) = Some (0x87070800 + of_nat k)"
    if o: "\<And>x. x \<notin> (\<lambda>k. 0x87070800 + of_nat k) ` {..<2 :: nat} \<Longrightarrow> m x = mem kuser0 x" and "k < 2" for m k
  proof -
    have "m x = 7" if "x < 0x87070800" for x
    proof -
      have "x \<noteq> 0x87070800" "x \<noteq> 0x87070801" "x \<noteq> 0x87070803" using that by auto
      moreover from this have "x \<notin> (\<lambda>k. 0x87070800 + of_nat k) ` {..<2 :: nat}" by (auto dest!: k)
      ultimately show ?thesis using o [of x] by (simp add: kuser0_def)
    qed
    then show ?thesis using k [OF \<open>k < 2\<close>] by (auto simp: mmu_eval)
  qed
  have "inj_on (\<lambda>k. 0x87070800 + of_nat k :: addr) {..<2}" by (auto simp: inj_on_def dest!: k)
  then show ?thesis using m by (auto simp: buffer_at_def)
qed

theorem piperead_correct_witness:
  "piperead 0 (Some 0x1800) 2 kfile0 = pipe_read_spec 0 0 (\<lambda>k. 0x87070800 + of_nat k) 2 kfile0"
  using piperead_correct [OF buffer_kfile0, of 0 0] by (simp add: pipe0_ok)

end
