(* ===== verification/Exec.thy ===== *)
theory Exec
  imports File
begin

text \<open>
  Running a program: \<open>loaduvm\<close> of vm.c and exec.c. The arguments are the strings the system call has
  fetched from user memory. \<open>copyout_bytes\<close> is \<open>copyout\<close> of vm.c for source bytes that the caller has
  at hand, where theory Vm copies from an address of the kernel.
\<close>

section \<open>Loading a segment\<close>

fun loaduvm_loop :: "addr \<Rightarrow> addr \<Rightarrow> nat \<Rightarrow> uint \<Rightarrow> uint \<Rightarrow> uint list \<Rightarrow> 'a kdev_scheme \<Rightarrow> (int, 'a kdev_scheme) outcome" where
  "loaduvm_loop pgdir a ip offset sz [] s = Ret 0 s"
| "loaduvm_loop pgdir a ip offset sz (i # is) s =
     bindK (walkpgdir pgdir (a + i) False s) (\<lambda>pte s.
     if pte = 0 then Panic ''loaduvm: address should exist''
     else
       let pa = PTE_ADDR (load32 (mem s) pte);
           n = (if sz - i < PGSIZE then sz - i else PGSIZE)
       in bindK (readi ip (Some (P2V pa)) (unat (offset + i)) (unat n) s) (\<lambda>(r, bs) s.
          if r \<noteq> int (unat n) then Ret (-1) s
          else loaduvm_loop pgdir a ip offset sz is s))"

text \<open>\<open>for (i = 0; i < sz; i += PGSIZE)\<close>; the caller has checked that \<open>addr + sz\<close> does not wrap around.\<close>

definition loaduvm :: "addr \<Rightarrow> addr \<Rightarrow> nat \<Rightarrow> uint \<Rightarrow> uint \<Rightarrow> 'a kdev_scheme \<Rightarrow> (int, 'a kdev_scheme) outcome" where
  "loaduvm pgdir a ip offset sz s =
     (if a mod PGSIZE \<noteq> 0 then Panic ''loaduvm: addr must be page aligned''
      else loaduvm_loop pgdir a ip offset sz (page_steps 0 sz) s)"

section \<open>Copying to the new image\<close>

fun copyout_bytes_loop :: "nat \<Rightarrow> addr \<Rightarrow> addr \<Rightarrow> byte list \<Rightarrow> 'a kmem_scheme \<Rightarrow> (int, 'a kmem_scheme) outcome" where
  "copyout_bytes_loop 0 pgdir va bs s = Fault ''copyout: no pages left''"
| "copyout_bytes_loop (Suc k) pgdir va bs s =
     (if bs \<noteq> [] then
        let va0 = PGROUNDDOWN va
        in bindK (uva2ka pgdir va0 s) (\<lambda>pa0 s.
           if pa0 = 0 then Ret (-1) s
           else
             let n = min (unat (PGSIZE - (va - va0))) (length bs);
                 dst = pa0 + (va - va0)
             in copyout_bytes_loop k pgdir (va0 + PGSIZE) (drop n bs)
                  (s\<lparr>mem := (\<lambda>x. if unat (x - dst) < n then bs ! unat (x - dst) else mem s x)\<rparr>))
      else Ret 0 s)"

text \<open>Every turn copies at least one byte, so \<open>length bs + 1\<close> turns are enough.\<close>

definition copyout_bytes :: "addr \<Rightarrow> addr \<Rightarrow> byte list \<Rightarrow> 'a kmem_scheme \<Rightarrow> (int, 'a kmem_scheme) outcome" where
  "copyout_bytes pgdir va bs s = copyout_bytes_loop (length bs + 1) pgdir va bs s"

section \<open>The executable\<close>

definition ELF_MAGIC :: uint where "ELF_MAGIC = 0x464C457F"

definition MAXARG :: nat where "MAXARG = 32"

record elfhdr =
  e_magic :: uint
  e_entry :: uint
  e_phoff :: uint
  e_phnum :: nat

record proghdr =
  ph_type :: uint
  ph_off :: uint
  ph_vaddr :: uint
  ph_filesz :: uint
  ph_memsz :: uint

definition word_at :: "byte list \<Rightarrow> nat \<Rightarrow> uint" where
  "word_at bs k = word_of_bytes (take 4 (drop k bs))"

definition get_elfhdr :: "byte list \<Rightarrow> elfhdr" where
  "get_elfhdr bs = \<lparr>e_magic = word_at bs 0, e_entry = word_at bs 24, e_phoff = word_at bs 28,
     e_phnum = unat (word_of_bytes (take 2 (drop 44 bs)))\<rparr>"

definition get_proghdr :: "byte list \<Rightarrow> proghdr" where
  "get_proghdr bs = \<lparr>ph_type = word_at bs 0, ph_off = word_at bs 4, ph_vaddr = word_at bs 8,
     ph_filesz = word_at bs 16, ph_memsz = word_at bs 20\<rparr>"

text \<open>
  The loop that loads the segments, with \<open>n\<close> program headers left and the next at \<open>off\<close>. The result
  is the size of the image, or \<^term>\<open>None\<close> where the code goes to \<open>bad\<close>.
\<close>

fun exec_load :: "nat \<Rightarrow> addr \<Rightarrow> nat \<Rightarrow> uint \<Rightarrow> uint \<Rightarrow> 'a kdev_scheme \<Rightarrow> (uint option, 'a kdev_scheme) outcome" where
  "exec_load ip pgdir 0 off sz s = Ret (Some sz) s"
| "exec_load ip pgdir (Suc n) off sz s =
     bindK (readi ip None (unat off) 32 s) (\<lambda>(r, bs) s.
     let ph = get_proghdr bs
     in if r \<noteq> 32 then Ret None s
        else if ph_type ph \<noteq> 1 then exec_load ip pgdir n (off + 32) sz s
        else if ph_memsz ph < ph_filesz ph then Ret None s
        else if ph_vaddr ph + ph_memsz ph < ph_vaddr ph then Ret None s
        else
          bindK (allocuvm pgdir sz (ph_vaddr ph + ph_memsz ph) s) (\<lambda>sz s.
          if sz = 0 then Ret None s
          else if ph_vaddr ph mod PGSIZE \<noteq> 0 then Ret None s
          else
            bindK (loaduvm pgdir (ph_vaddr ph) ip (ph_off ph) (ph_filesz ph) s) (\<lambda>r s.
            if r < 0 then Ret None s
            else exec_load ip pgdir n (off + 32) sz s)))"

text \<open>The argument strings are pushed; the result is the stack pointer and their addresses.\<close>

fun exec_push :: "addr \<Rightarrow> uint \<Rightarrow> nat \<Rightarrow> uint list \<Rightarrow> string list \<Rightarrow> 'a kdev_scheme \<Rightarrow> ((uint \<times> uint list) option, 'a kdev_scheme) outcome" where
  "exec_push pgdir sp argc us [] s = Ret (Some (sp, us)) s"
| "exec_push pgdir sp argc us (arg # argv) s =
     (if argc \<ge> MAXARG then Ret None s
      else
        let sp = (sp - (of_nat (length arg) + 1)) AND NOT 3
        in bindK (copyout_bytes pgdir sp (map ord arg @ [0]) s) (\<lambda>r s.
           if r < 0 then Ret None s
           else exec_push pgdir sp (argc + 1) (us @ [sp]) argv s))"

definition exec_ustack :: "uint \<Rightarrow> uint list \<Rightarrow> uint list" where
  "exec_ustack sp us = [0xFFFFFFFF, of_nat (length us), sp - of_nat (length us + 1) * 4] @ us @ [0]"

text \<open>The part of a path behind the last slash.\<close>

definition last_elem :: "string \<Rightarrow> string" where
  "last_elem path = rev (takeWhile (\<lambda>c. c \<noteq> CHR ''/'') (rev path))"

definition exec_bad :: "addr \<Rightarrow> nat option \<Rightarrow> 'a kdev_scheme \<Rightarrow> (int, 'a kdev_scheme) outcome" where
  "exec_bad pgdir ipp s =
     bindK (if pgdir \<noteq> 0 then freevm pgdir s else Ret () s) (\<lambda>_ s.
     bindK (case ipp of None \<Rightarrow> Ret () s | Some ip \<Rightarrow> bindK (iunlockput ip s) (\<lambda>_ s. end_op s)) (\<lambda>_ s.
     Ret (-1) s))"

text \<open>The rest of \<open>exec\<close>, when the segments are loaded.\<close>

definition exec_image :: "addr \<Rightarrow> uint \<Rightarrow> uint \<Rightarrow> string \<Rightarrow> string list \<Rightarrow> 'a kdev_scheme \<Rightarrow> (int, 'a kdev_scheme) outcome" where
  "exec_image pgdir entry sz path argv s =
     (let sz = PGROUNDUP sz
      in bindK (allocuvm pgdir sz (sz + 2 * PGSIZE) s) (\<lambda>sz s.
         if sz = 0 then exec_bad pgdir None s
         else
           bindK (clearpteu pgdir (sz - 2 * PGSIZE) s) (\<lambda>_ s.
           bindK (exec_push pgdir sz 0 [] argv s) (\<lambda>r s.
           case r of
             None \<Rightarrow> exec_bad pgdir None s
           | Some (sp, us) \<Rightarrow>
               let sp' = sp - of_nat (length us + 4) * 4
               in bindK (copyout_bytes pgdir sp' (concat (map bytes32 (exec_ustack sp us))) s) (\<lambda>r s.
                  if r < 0 then exec_bad pgdir None s
                  else
                    bindK (myproc s) (\<lambda>c s.
                    let s = upd_proc c (\<lambda>q. q\<lparr>p_name := take 15 (last_elem path)\<rparr>) s;
                        oldpgdir = p_pgdir (procs s c);
                        s = upd_proc c (\<lambda>q. q\<lparr>p_pgdir := pgdir, p_sz := sz\<rparr>) s;
                        s = s\<lparr>mem := store32 (p_tf (procs s c) + tf_eip) entry (mem s)\<rparr>;
                        s = s\<lparr>mem := store32 (p_tf (procs s c) + tf_esp) sp' (mem s)\<rparr>;
                        s = upd_proc c (\<lambda>q. q\<lparr>p_priority := 10\<rparr>) s
                    in bindK (switchuvm c s) (\<lambda>_ s.
                       bindK (freevm oldpgdir s) (\<lambda>_ s.
                       Ret 0 s))))))))"

definition exec :: "string \<Rightarrow> string list \<Rightarrow> 'a kdev_scheme \<Rightarrow> (int, 'a kdev_scheme) outcome" where
  "exec path argv s =
     bindK (begin_op s) (\<lambda>_ s.
     bindK (namei path s) (\<lambda>r s.
     case r of
       None \<Rightarrow>
         bindK (end_op s) (\<lambda>_ s.
         bindK (cprintf (''exec: fail'' @ [CHR 0x0A]) [] s) (\<lambda>_ s. Ret (-1) s))
     | Some ip \<Rightarrow>
         bindK (ilock (Some ip) s) (\<lambda>_ s.
         bindK (readi ip None 0 52 s) (\<lambda>(r, bs) s.
         let elf = get_elfhdr bs
         in if r \<noteq> 52 \<or> e_magic elf \<noteq> ELF_MAGIC then exec_bad 0 (Some ip) s
            else
              bindK (setupkvm s) (\<lambda>pgdir s.
              if pgdir = 0 then exec_bad 0 (Some ip) s
              else
                bindK (exec_load ip pgdir (e_phnum elf) (e_phoff elf) 0 s) (\<lambda>r s.
                case r of
                  None \<Rightarrow> exec_bad pgdir (Some ip) s
                | Some sz \<Rightarrow>
                    bindK (iunlockput ip s) (\<lambda>_ s.
                    bindK (end_op s) (\<lambda>_ s.
                    exec_image pgdir (e_entry elf) sz path argv s))))))))"

end
