(* ===== verification/Procops.thy ===== *)
theory Procops
  imports Exec
begin

text \<open>
  The operations of proc.c that use files and inodes: the first process, \<open>fork\<close>, \<open>exit\<close> and
  \<open>forkret\<close>. The addresses of \<open>trapret\<close> and \<open>forkret\<close> and the image of initcode.S, which the linker
  provides, are parameters.
\<close>

section \<open>The first process\<close>

definition FL_IF :: uint where "FL_IF = 0x200"

definition user_cs :: uint where "user_cs = push_bit 3 3 OR 3"

definition user_ds :: uint where "user_ds = push_bit 3 4 OR 3"

text \<open>The trap frame of the first process; the segment registers are the low halves of their words.\<close>

definition init_tf :: "addr \<Rightarrow> memory \<Rightarrow> memory" where
  "init_tf tf m =
     (let m = memset tf 0 sizeof_trapframe m;
          m = store32 (tf + tf_cs) user_cs m;
          m = store32 (tf + tf_ds) user_ds m;
          m = store32 (tf + tf_es) user_ds m;
          m = store32 (tf + tf_ss) user_ds m;
          m = store32 (tf + tf_eflags) FL_IF m;
          m = store32 (tf + tf_esp) PGSIZE m
      in store32 (tf + tf_eip) 0 m)"

definition userinit :: "addr \<Rightarrow> addr \<Rightarrow> addr \<Rightarrow> uint \<Rightarrow> 'a kdev_scheme \<Rightarrow> (unit, 'a kdev_scheme) outcome" where
  "userinit trapret forkret initcode initcode_size s =
     bindK (allocproc trapret forkret s) (\<lambda>r s.
     let s = s\<lparr>initproc := r\<rparr>
     in case r of
          None \<Rightarrow> Fault ''null process''
        | Some p \<Rightarrow>
            bindK (setupkvm s) (\<lambda>pgdir s.
            let s = upd_proc p (\<lambda>q. q\<lparr>p_pgdir := pgdir\<rparr>) s
            in if pgdir = 0 then Panic ''userinit: out of memory?''
               else
                 bindK (inituvm pgdir initcode initcode_size s) (\<lambda>_ s.
                 let s = upd_proc p (\<lambda>q. q\<lparr>p_sz := PGSIZE, p_ctime := ticks s\<rparr>) s;
                     s = s\<lparr>mem := init_tf (p_tf (procs s p)) (mem s)\<rparr>;
                     s = upd_proc p (\<lambda>q. q\<lparr>p_name := ''initcode''\<rparr>) s
                 in bindK (namei ''/'' s) (\<lambda>cwd s.
                    let s = upd_proc p (\<lambda>q. q\<lparr>p_cwd := cwd\<rparr>) s
                    in bindK (acquire PtableLk s) (\<lambda>_ s.
                       release PtableLk (upd_proc p (\<lambda>q. q\<lparr>p_state := RUNNABLE\<rparr>) s))))))"

section \<open>fork\<close>

fun fork_files :: "nat \<Rightarrow> nat \<Rightarrow> nat list \<Rightarrow> 'a kfile_scheme \<Rightarrow> (unit, 'a kfile_scheme) outcome" where
  "fork_files c np [] s = Ret () s"
| "fork_files c np (i # is) s =
     (case p_ofile (procs s c) i of
        None \<Rightarrow> fork_files c np is s
      | Some f \<Rightarrow>
          bindK (filedup f s) (\<lambda>f s.
          fork_files c np is (upd_proc np (\<lambda>q. q\<lparr>p_ofile := (p_ofile q)(i := Some f)\<rparr>) s)))"

definition fork :: "addr \<Rightarrow> addr \<Rightarrow> 'a kfile_scheme \<Rightarrow> (int, 'a kfile_scheme) outcome" where
  "fork trapret forkret s =
     bindK (myproc s) (\<lambda>c s.
     bindK (allocproc trapret forkret s) (\<lambda>r s.
     case r of
       None \<Rightarrow> Ret (-1) s
     | Some np \<Rightarrow>
         bindK (copyuvm (p_pgdir (procs s c)) (p_sz (procs s c)) s) (\<lambda>pgdir s.
         let s = upd_proc np (\<lambda>q. q\<lparr>p_pgdir := pgdir\<rparr>) s
         in if pgdir = 0 then
              bindK (kfree (p_kstack (procs s np)) s) (\<lambda>_ s.
              Ret (-1) (upd_proc np (\<lambda>q. q\<lparr>p_kstack := 0, p_state := UNUSED\<rparr>) s))
            else
              let s = upd_proc np (\<lambda>q. q\<lparr>p_sz := p_sz (procs s c), p_parent := Some c\<rparr>) s;
                  s = s\<lparr>mem := memmove (p_tf (procs s np)) (p_tf (procs s c)) sizeof_trapframe (mem s)\<rparr>;
                  s = s\<lparr>mem := store32 (p_tf (procs s np) + tf_eax) 0 (mem s)\<rparr>
              in bindK (fork_files c np [0..<NOFILE] s) (\<lambda>_ s.
                 case p_cwd (procs s c) of
                   None \<Rightarrow> Fault ''null inode''
                 | Some cwd \<Rightarrow>
                     bindK (idup cwd s) (\<lambda>d s.
                     let s = upd_proc np (\<lambda>q. q\<lparr>p_cwd := Some d, p_name := p_name (procs s c)\<rparr>) s;
                         pid = p_pid (procs s np)
                     in bindK (acquire PtableLk s) (\<lambda>_ s.
                        bindK (release PtableLk (upd_proc np (\<lambda>q. q\<lparr>p_state := RUNNABLE\<rparr>) s)) (\<lambda>_ s.
                        Ret pid s)))))))"

section \<open>exit\<close>

fun exit_files :: "nat \<Rightarrow> nat list \<Rightarrow> 'a kfile_scheme \<Rightarrow> (unit, 'a kfile_scheme) outcome" where
  "exit_files c [] s = Ret () s"
| "exit_files c (fd # fds) s =
     (case p_ofile (procs s c) fd of
        None \<Rightarrow> exit_files c fds s
      | Some f \<Rightarrow>
          bindK (fileclose f s) (\<lambda>_ s.
          exit_files c fds (upd_proc c (\<lambda>q. q\<lparr>p_ofile := (p_ofile q)(fd := None)\<rparr>) s)))"

definition exit :: "'a kfile_scheme \<Rightarrow> (unit, 'a kfile_scheme) outcome" where
  "exit s =
     bindK (myproc s) (\<lambda>c s.
     if initproc s = Some c then Panic ''init exiting''
     else
       bindK (exit_files c [0..<NOFILE] s) (\<lambda>_ s.
       bindK (begin_op s) (\<lambda>_ s.
       case p_cwd (procs s c) of
         None \<Rightarrow> Fault ''null inode''
       | Some cwd \<Rightarrow>
           bindK (iput cwd s) (\<lambda>_ s.
           bindK (end_op s) (\<lambda>_ s. exit_tail c s)))))"

section \<open>The first return to user space\<close>

text \<open>The static variable \<open>first\<close> is an argument and part of the result.\<close>

definition forkret :: "bool \<Rightarrow> 'a kinode_scheme \<Rightarrow> (bool, 'a kinode_scheme) outcome" where
  "forkret first s =
     bindK (release PtableLk s) (\<lambda>_ s.
     if first then
       bindK (iinit ROOTDEV s) (\<lambda>_ s.
       bindK (initlog ROOTDEV s) (\<lambda>_ s. Ret False s))
     else Ret False s)"

end
