(* ===== verification/Sysfile.thy ===== *)
theory Sysfile
  imports Procops
begin

text \<open>
  The system calls of sysfile.c. They run with the current process on the CPU and take their
  arguments from its user stack; \<open>orfail\<close> is the test \<open>if(... < 0) return -1\<close> around a helper whose
  failure the model renders as \<^term>\<open>None\<close>.
\<close>

section \<open>File descriptors\<close>

definition orfail :: "('a option, 's) outcome \<Rightarrow> ('a \<Rightarrow> 's \<Rightarrow> (int, 's) outcome) \<Rightarrow> (int, 's) outcome" where
  "orfail m f = bindK m (\<lambda>r s. case r of None \<Rightarrow> Ret (-1) s | Some x \<Rightarrow> f x s)"

text \<open>The descriptor and the index of the open file.\<close>

definition argfd :: "nat \<Rightarrow> 'a kproc_scheme \<Rightarrow> ((nat \<times> nat) option, 'a kproc_scheme) outcome" where
  "argfd n s =
     bindK (argint n s) (\<lambda>r s.
     case r of
       None \<Rightarrow> Ret None s
     | Some w \<Rightarrow>
         if sint w < 0 \<or> sint w \<ge> int NOFILE then Ret None s
         else
           bindK (myproc s) (\<lambda>p s.
           case p_ofile (procs s p) (nat (sint w)) of
             None \<Rightarrow> Ret None s
           | Some f \<Rightarrow> Ret (Some (nat (sint w), f)) s))"

definition fdalloc :: "nat \<Rightarrow> 'a kproc_scheme \<Rightarrow> (nat option, 'a kproc_scheme) outcome" where
  "fdalloc f s =
     bindK (myproc s) (\<lambda>p s.
     case scan (\<lambda>fd. p_ofile (procs s p) fd = None) NOFILE of
       None \<Rightarrow> Ret None s
     | Some fd \<Rightarrow> Ret (Some fd) (upd_proc p (\<lambda>q. q\<lparr>p_ofile := (p_ofile q)(fd := Some f)\<rparr>) s))"

definition sys_dup :: "'a kfile_scheme \<Rightarrow> (int, 'a kfile_scheme) outcome" where
  "sys_dup s =
     orfail (argfd 0 s) (\<lambda>(_, f) s.
     orfail (fdalloc f s) (\<lambda>fd s.
     bindK (filedup f s) (\<lambda>_ s. Ret (int fd) s)))"

definition sys_read :: "'a kfile_scheme \<Rightarrow> (int, 'a kfile_scheme) outcome" where
  "sys_read s =
     orfail (argfd 0 s) (\<lambda>(_, f) s.
     orfail (argint 2 s) (\<lambda>n s.
     orfail (argptr 1 n s) (\<lambda>p s. fileread f p (sint n) s)))"

definition sys_write :: "'a kfile_scheme \<Rightarrow> (int, 'a kfile_scheme) outcome" where
  "sys_write s =
     orfail (argfd 0 s) (\<lambda>(_, f) s.
     orfail (argint 2 s) (\<lambda>n s.
     orfail (argptr 1 n s) (\<lambda>p s. filewrite f p (sint n) s)))"

definition sys_close :: "'a kfile_scheme \<Rightarrow> (int, 'a kfile_scheme) outcome" where
  "sys_close s =
     orfail (argfd 0 s) (\<lambda>(fd, f) s.
     bindK (myproc s) (\<lambda>p s.
     bindK (fileclose f (upd_proc p (\<lambda>q. q\<lparr>p_ofile := (p_ofile q)(fd := None)\<rparr>) s)) (\<lambda>_ s.
     Ret 0 s)))"

definition sys_fstat :: "'a kfile_scheme \<Rightarrow> (int, 'a kfile_scheme) outcome" where
  "sys_fstat s =
     orfail (argfd 0 s) (\<lambda>(_, f) s.
     orfail (argptr 1 20 s) (\<lambda>st s. filestat f st s))"

section \<open>Links\<close>

abbreviation add_nlink :: "nat \<Rightarrow> int \<Rightarrow> 'a kinode_scheme \<Rightarrow> 'a kinode_scheme" where
  "add_nlink ip d s \<equiv> upd_inode ip (\<lambda>i. i\<lparr>i_nlink := short (i_nlink i + d)\<rparr>) s"

text \<open>Give up an inode and the transaction, with the result -1.\<close>

definition give_up :: "nat \<Rightarrow> 'a kinode_scheme \<Rightarrow> (int, 'a kinode_scheme) outcome" where
  "give_up ip s = bindK (iunlockput ip s) (\<lambda>_ s. bindK (end_op s) (\<lambda>_ s. Ret (-1) s))"

definition sys_link_bad :: "nat \<Rightarrow> 'a kfile_scheme \<Rightarrow> (int, 'a kfile_scheme) outcome" where
  "sys_link_bad ip s =
     bindK (ilock (Some ip) s) (\<lambda>_ s.
     bindK (iupdate ip (add_nlink ip (-1) s)) (\<lambda>_ s. give_up ip s))"

definition sys_link :: "'a kfile_scheme \<Rightarrow> (int, 'a kfile_scheme) outcome" where
  "sys_link s =
     orfail (argstr 0 s) (\<lambda>old s.
     orfail (argstr 1 s) (\<lambda>new s.
     bindK (begin_op s) (\<lambda>_ s.
     bindK (namei old s) (\<lambda>r s.
     case r of
       None \<Rightarrow> bindK (end_op s) (\<lambda>_ s. Ret (-1) s)
     | Some ip \<Rightarrow>
         bindK (ilock (Some ip) s) (\<lambda>_ s.
         if i_type (inodes s ip) = T_DIR then give_up ip s
         else
           bindK (iupdate ip (add_nlink ip 1 s)) (\<lambda>_ s.
           bindK (iunlock (Some ip) s) (\<lambda>_ s.
           bindK (nameiparent new s) (\<lambda>(d, name) s.
           case d of
             None \<Rightarrow> sys_link_bad ip s
           | Some dp \<Rightarrow>
               bindK (ilock (Some dp) s) (\<lambda>_ s.
               bindK (if i_dev (inodes s dp) \<noteq> i_dev (inodes s ip) then Ret (-1) s
                      else dirlink dp name (i_inum (inodes s ip)) s) (\<lambda>r s.
               bindK (iunlockput dp s) (\<lambda>_ s.
               if r < 0 then sys_link_bad ip s
               else
                 bindK (iput ip s) (\<lambda>_ s.
                 bindK (end_op s) (\<lambda>_ s. Ret 0 s)))))))))))))"

fun isdirempty_loop :: "nat \<Rightarrow> nat list \<Rightarrow> 'a kdev_scheme \<Rightarrow> (bool, 'a kdev_scheme) outcome" where
  "isdirempty_loop dp [] s = Ret True s"
| "isdirempty_loop dp (off # offs) s =
     bindK (readi dp None off 16 s) (\<lambda>(r, bs) s.
     if r \<noteq> 16 then Panic ''isdirempty: readi''
     else if fst (get_dirent bs) \<noteq> 0 then Ret False s
     else isdirempty_loop dp offs s)"

definition isdirempty :: "nat \<Rightarrow> 'a kdev_scheme \<Rightarrow> (bool, 'a kdev_scheme) outcome" where
  "isdirempty dp s = isdirempty_loop dp (dirent_offs 2 (i_size (inodes s dp))) s"

text \<open>The end of \<open>sys_unlink\<close>, when the entry at \<open>off\<close> of \<open>dp\<close> may go.\<close>

definition unlink_entry :: "nat \<Rightarrow> nat \<Rightarrow> nat \<Rightarrow> 'a kdev_scheme \<Rightarrow> (int, 'a kdev_scheme) outcome" where
  "unlink_entry dp ip off s =
     bindK (writei dp (Bytes (replicate 16 0)) off 16 s) (\<lambda>r s.
     if r \<noteq> 16 then Panic ''unlink: writei''
     else
       bindK (if i_type (inodes s ip) = T_DIR then iupdate dp (add_nlink dp (-1) s) else Ret () s) (\<lambda>_ s.
       bindK (iunlockput dp s) (\<lambda>_ s.
       bindK (iupdate ip (add_nlink ip (-1) s)) (\<lambda>_ s.
       bindK (iunlockput ip s) (\<lambda>_ s.
       bindK (end_op s) (\<lambda>_ s. Ret 0 s))))))"

definition sys_unlink :: "'a kfile_scheme \<Rightarrow> (int, 'a kfile_scheme) outcome" where
  "sys_unlink s =
     orfail (argstr 0 s) (\<lambda>path s.
     bindK (begin_op s) (\<lambda>_ s.
     bindK (nameiparent path s) (\<lambda>(d, name) s.
     case d of
       None \<Rightarrow> bindK (end_op s) (\<lambda>_ s. Ret (-1) s)
     | Some dp \<Rightarrow>
         bindK (ilock (Some dp) s) (\<lambda>_ s.
         if namecmp name ''.'' = 0 \<or> namecmp name ''..'' = 0 then give_up dp s
         else
           bindK (dirlookup dp name s) (\<lambda>r s.
           case r of
             None \<Rightarrow> give_up dp s
           | Some (ip, off) \<Rightarrow>
               bindK (ilock (Some ip) s) (\<lambda>_ s.
               if i_nlink (inodes s ip) < 1 then Panic ''unlink: nlink < 1''
               else
                 bindK (if i_type (inodes s ip) = T_DIR then isdirempty ip s else Ret True s) (\<lambda>e s.
                 if \<not> e then bindK (iunlockput ip s) (\<lambda>_ s. give_up dp s)
                 else unlink_entry dp ip off s)))))))"

section \<open>Creating and opening\<close>

definition create_dots :: "nat \<Rightarrow> nat \<Rightarrow> 'a kdev_scheme \<Rightarrow> (unit, 'a kdev_scheme) outcome" where
  "create_dots dp ip s =
     bindK (iupdate dp (add_nlink dp 1 s)) (\<lambda>_ s.
     bindK (dirlink ip ''.'' (i_inum (inodes s ip)) s) (\<lambda>r s.
     if r < 0 then Panic ''create dots''
     else
       bindK (dirlink ip ''..'' (i_inum (inodes s dp)) s) (\<lambda>r s.
       if r < 0 then Panic ''create dots'' else Ret () s)))"

definition create :: "string \<Rightarrow> int \<Rightarrow> int \<Rightarrow> int \<Rightarrow> 'a kdev_scheme \<Rightarrow> (nat option, 'a kdev_scheme) outcome" where
  "create path typ major minor s =
     bindK (nameiparent path s) (\<lambda>(d, name) s.
     case d of
       None \<Rightarrow> Ret None s
     | Some dp \<Rightarrow>
         bindK (ilock (Some dp) s) (\<lambda>_ s.
         bindK (dirlookup dp name s) (\<lambda>r s.
         case r of
           Some (ip, _) \<Rightarrow>
             bindK (iunlockput dp s) (\<lambda>_ s.
             bindK (ilock (Some ip) s) (\<lambda>_ s.
             if typ = T_FILE \<and> i_type (inodes s ip) = T_FILE then Ret (Some ip) s
             else bindK (iunlockput ip s) (\<lambda>_ s. Ret None s)))
         | None \<Rightarrow>
             bindK (ialloc (i_dev (inodes s dp)) typ s) (\<lambda>ip s.
             bindK (ilock (Some ip) s) (\<lambda>_ s.
             let s = upd_inode ip (\<lambda>i. i\<lparr>i_major := major, i_minor := minor, i_nlink := 1\<rparr>) s
             in bindK (iupdate ip s) (\<lambda>_ s.
                bindK (if typ = T_DIR then create_dots dp ip s else Ret () s) (\<lambda>_ s.
                bindK (dirlink dp name (i_inum (inodes s ip)) s) (\<lambda>r s.
                if r < 0 then Panic ''create: dirlink''
                else bindK (iunlockput dp s) (\<lambda>_ s. Ret (Some ip) s)))))))))"

definition O_RDONLY :: uint where "O_RDONLY = 0x000"

definition O_WRONLY :: uint where "O_WRONLY = 0x001"

definition O_RDWR :: uint where "O_RDWR = 0x002"

definition O_CREATE :: uint where "O_CREATE = 0x200"

text \<open>The end of \<open>sys_open\<close>, with the inode \<open>ip\<close> locked.\<close>

definition open_inode :: "nat \<Rightarrow> uint \<Rightarrow> 'a kfile_scheme \<Rightarrow> (int, 'a kfile_scheme) outcome" where
  "open_inode ip omode s =
     bindK (filealloc s) (\<lambda>r s.
     case r of
       None \<Rightarrow> give_up ip s
     | Some f \<Rightarrow>
         bindK (fdalloc f s) (\<lambda>r s.
         case r of
           None \<Rightarrow> bindK (fileclose f s) (\<lambda>_ s. give_up ip s)
         | Some fd \<Rightarrow>
             bindK (iunlock (Some ip) s) (\<lambda>_ s.
             bindK (end_op s) (\<lambda>_ s.
             Ret (int fd) (upd_file f (\<lambda>q. q\<lparr>f_type := FD_INODE, f_ip := Some ip, f_off := 0,
               f_readable := (omode AND O_WRONLY = 0),
               f_writable := (omode AND O_WRONLY \<noteq> 0 \<or> omode AND O_RDWR \<noteq> 0)\<rparr>) s)))))"

definition sys_open :: "'a kfile_scheme \<Rightarrow> (int, 'a kfile_scheme) outcome" where
  "sys_open s =
     orfail (argstr 0 s) (\<lambda>path s.
     orfail (argint 1 s) (\<lambda>omode s.
     bindK (begin_op s) (\<lambda>_ s.
     if omode AND O_CREATE \<noteq> 0 then
       bindK (create path T_FILE 0 0 s) (\<lambda>r s.
       case r of
         None \<Rightarrow> bindK (end_op s) (\<lambda>_ s. Ret (-1) s)
       | Some ip \<Rightarrow> open_inode ip omode s)
     else
       bindK (namei path s) (\<lambda>r s.
       case r of
         None \<Rightarrow> bindK (end_op s) (\<lambda>_ s. Ret (-1) s)
       | Some ip \<Rightarrow>
           bindK (ilock (Some ip) s) (\<lambda>_ s.
           if i_type (inodes s ip) = T_DIR \<and> omode \<noteq> O_RDONLY then give_up ip s
           else open_inode ip omode s)))))"

text \<open>The end of \<open>sys_mkdir\<close> and \<open>sys_mknod\<close>: \<open>m\<close> is the test that creates the inode.\<close>

definition finish_create :: "(nat option, 'a kinode_scheme) outcome \<Rightarrow> (int, 'a kinode_scheme) outcome" where
  "finish_create m =
     bindK m (\<lambda>r s.
     case r of
       None \<Rightarrow> bindK (end_op s) (\<lambda>_ s. Ret (-1) s)
     | Some ip \<Rightarrow>
         bindK (iunlockput ip s) (\<lambda>_ s.
         bindK (end_op s) (\<lambda>_ s. Ret 0 s)))"

definition sys_mkdir :: "'a kfile_scheme \<Rightarrow> (int, 'a kfile_scheme) outcome" where
  "sys_mkdir s =
     bindK (begin_op s) (\<lambda>_ s.
     finish_create (bindK (argstr 0 s) (\<lambda>r s.
       case r of None \<Rightarrow> Ret None s | Some path \<Rightarrow> create path T_DIR 0 0 s)))"

definition sys_mknod :: "'a kfile_scheme \<Rightarrow> (int, 'a kfile_scheme) outcome" where
  "sys_mknod s =
     bindK (begin_op s) (\<lambda>_ s.
     finish_create (bindK (argstr 0 s) (\<lambda>r s.
       case r of
         None \<Rightarrow> Ret None s
       | Some path \<Rightarrow>
           bindK (argint 1 s) (\<lambda>r s.
           case r of
             None \<Rightarrow> Ret None s
           | Some major \<Rightarrow>
               bindK (argint 2 s) (\<lambda>r s.
               case r of
                 None \<Rightarrow> Ret None s
               | Some minor \<Rightarrow> create path T_DEV (short (sint major)) (short (sint minor)) s)))))"

definition sys_chdir :: "'a kfile_scheme \<Rightarrow> (int, 'a kfile_scheme) outcome" where
  "sys_chdir s =
     bindK (myproc s) (\<lambda>c s.
     bindK (begin_op s) (\<lambda>_ s.
     bindK (bindK (argstr 0 s) (\<lambda>r s. case r of None \<Rightarrow> Ret None s | Some path \<Rightarrow> namei path s)) (\<lambda>r s.
     case r of
       None \<Rightarrow> bindK (end_op s) (\<lambda>_ s. Ret (-1) s)
     | Some ip \<Rightarrow>
         bindK (ilock (Some ip) s) (\<lambda>_ s.
         if i_type (inodes s ip) \<noteq> T_DIR then give_up ip s
         else
           bindK (iunlock (Some ip) s) (\<lambda>_ s.
           case p_cwd (procs s c) of
             None \<Rightarrow> Fault ''null inode''
           | Some cwd \<Rightarrow>
               bindK (iput cwd s) (\<lambda>_ s.
               bindK (end_op s) (\<lambda>_ s.
               Ret 0 (upd_proc c (\<lambda>q. q\<lparr>p_cwd := Some ip\<rparr>) s))))))))"

section \<open>Programs and pipes\<close>

text \<open>The argument strings, from the \<open>i\<close>-th on; \<open>n\<close> entries of the array \<open>argv\<close> are left.\<close>

fun sys_exec_args :: "nat \<Rightarrow> uint \<Rightarrow> nat \<Rightarrow> 'a kproc_scheme \<Rightarrow> (string list option, 'a kproc_scheme) outcome" where
  "sys_exec_args 0 uargv i s = Ret None s"
| "sys_exec_args (Suc n) uargv i s =
     bindK (fetchint (uargv + 4 * of_nat i) s) (\<lambda>r s.
     case r of
       None \<Rightarrow> Ret None s
     | Some u \<Rightarrow>
         if u = 0 then Ret (Some []) s
         else
           bindK (fetchstr u s) (\<lambda>r s.
           case r of
             None \<Rightarrow> Ret None s
           | Some arg \<Rightarrow>
               bindK (sys_exec_args n uargv (i + 1) s) (\<lambda>r s.
               Ret (map_option (\<lambda>args. arg # args) r) s)))"

definition sys_exec :: "'a kfile_scheme \<Rightarrow> (int, 'a kfile_scheme) outcome" where
  "sys_exec s =
     orfail (argstr 0 s) (\<lambda>path s.
     orfail (argint 1 s) (\<lambda>uargv s.
     orfail (sys_exec_args MAXARG uargv 0 s) (\<lambda>argv s. exec path argv s)))"

definition sys_pipe :: "'a kfile_scheme \<Rightarrow> (int, 'a kfile_scheme) outcome" where
  "sys_pipe s =
     orfail (argptr 0 8 s) (\<lambda>a s.
     orfail (pipealloc s) (\<lambda>(rf, wf) s.
     bindK (fdalloc rf s) (\<lambda>r0 s.
     bindK (case r0 of None \<Rightarrow> Ret None s | Some fd0 \<Rightarrow> fdalloc wf s) (\<lambda>r1 s.
     case (r0, r1) of
       (Some fd0, Some fd1) \<Rightarrow>
         bindK (store_bytes a (bytes32 (of_nat fd0)) s) (\<lambda>_ s.
         bindK (store_bytes (a + 4) (bytes32 (of_nat fd1)) s) (\<lambda>_ s. Ret 0 s))
     | _ \<Rightarrow>
         bindK (myproc s) (\<lambda>p s.
         let s = (case r0 of
                    None \<Rightarrow> s
                  | Some fd0 \<Rightarrow> upd_proc p (\<lambda>q. q\<lparr>p_ofile := (p_ofile q)(fd0 := None)\<rparr>) s)
         in bindK (fileclose rf s) (\<lambda>_ s.
            bindK (fileclose wf s) (\<lambda>_ s. Ret (-1) s)))))))"

end
