(* ===== verification/Syscall.thy ===== *)
theory Syscall
  imports Sysfile
begin

text \<open>
  The system calls of sysproc.c and the dispatcher of syscall.c. A call that switches to the
  scheduler leaves the result register alone; it is written when the call returns. \<open>tret\<close> and
  \<open>fret\<close> are the addresses of \<open>trapret\<close> and \<open>forkret\<close>.
\<close>

section \<open>System calls for processes\<close>

definition sys_fork :: "addr \<Rightarrow> addr \<Rightarrow> 'a kfile_scheme \<Rightarrow> (int, 'a kfile_scheme) outcome" where
  "sys_fork tret fret s = fork tret fret s"

definition sys_exit :: "'a kfile_scheme \<Rightarrow> (int, 'a kfile_scheme) outcome" where
  "sys_exit s = bindK (exit s) (\<lambda>_ s. Ret 0 s)"

definition sys_wait :: "'a kproc_scheme \<Rightarrow> (int, 'a kproc_scheme) outcome" where
  "sys_wait s = wait s"

text \<open>The two times are stored when \<open>waitx\<close> has them, at the addresses the caller passed.\<close>

definition sys_waitx :: "'a kproc_scheme \<Rightarrow> (int, 'a kproc_scheme) outcome" where
  "sys_waitx s =
     bindK (argptr 0 4 s) (\<lambda>r s.
     case r of
       None \<Rightarrow> Ret (-2) s
     | Some wtime \<Rightarrow>
         bindK (argptr 1 4 s) (\<lambda>r s.
         case r of
           None \<Rightarrow> Ret (-2) s
         | Some rtime \<Rightarrow>
             bindK (waitx s) (\<lambda>(pid, t) s.
             case t of
               None \<Rightarrow> Ret pid s
             | Some (w, rt) \<Rightarrow>
                 bindK (store_word wtime w s) (\<lambda>_ s.
                 bindK (store_word rtime rt s) (\<lambda>_ s. Ret pid s)))))"

definition sys_kill :: "'a kproc_scheme \<Rightarrow> (int, 'a kproc_scheme) outcome" where
  "sys_kill s = orfail (argint 0 s) (\<lambda>pid s. kill (sint pid) s)"

definition sys_getpid :: "'a kproc_scheme \<Rightarrow> (int, 'a kproc_scheme) outcome" where
  "sys_getpid s = bindK (myproc s) (\<lambda>p s. Ret (p_pid (procs s p)) s)"

definition sys_sbrk :: "'a kproc_scheme \<Rightarrow> (int, 'a kproc_scheme) outcome" where
  "sys_sbrk s =
     orfail (argint 0 s) (\<lambda>n s.
     bindK (myproc s) (\<lambda>p s.
     let a = sint (p_sz (procs s p))
     in bindK (growproc (sint n) s) (\<lambda>r s. if r < 0 then Ret (-1) s else Ret a s)))"

text \<open>The loop of \<open>sys_sleep\<close>: \<open>n\<close> is compared as an unsigned number.\<close>

definition sys_sleep_loop :: "uint \<Rightarrow> uint \<Rightarrow> 'a kproc_scheme \<Rightarrow> (int, 'a kproc_scheme) outcome" where
  "sys_sleep_loop ticks0 n s =
     (if ticks s - ticks0 < n then
        bindK (myproc s) (\<lambda>p s.
        if p_killed (procs s p) then bindK (release TicksLk s) (\<lambda>_ s. Ret (-1) s)
        else bindK (sleep CTicks TicksLk s) (\<lambda>_ s. Ret 0 s))
      else bindK (release TicksLk s) (\<lambda>_ s. Ret 0 s))"

definition sys_sleep :: "'a kproc_scheme \<Rightarrow> (int, 'a kproc_scheme) outcome" where
  "sys_sleep s =
     orfail (argint 0 s) (\<lambda>n s.
     bindK (acquire TicksLk s) (\<lambda>_ s. sys_sleep_loop (ticks s) n s))"

definition sys_sleep_resume :: "uint \<Rightarrow> uint \<Rightarrow> 'a kproc_scheme \<Rightarrow> (int, 'a kproc_scheme) outcome" where
  "sys_sleep_resume ticks0 n s = bindK (sleep_resume TicksLk s) (\<lambda>_ s. sys_sleep_loop ticks0 n s)"

definition sys_chprty :: "'a kproc_scheme \<Rightarrow> (int, 'a kproc_scheme) outcome" where
  "sys_chprty s =
     orfail (argint 0 s) (\<lambda>pid s.
     orfail (argint 1 s) (\<lambda>pr s. chprty (sint pid) (sint pr) s))"

definition sys_uptime :: "'a kproc_scheme \<Rightarrow> (int, 'a kproc_scheme) outcome" where
  "sys_uptime s =
     bindK (acquire TicksLk s) (\<lambda>_ s.
     let xticks = ticks s
     in bindK (release TicksLk s) (\<lambda>_ s. Ret (sint xticks) s))"

definition sys_cps :: "'a kproc_scheme \<Rightarrow> (int, 'a kproc_scheme) outcome" where
  "sys_cps s = cps s"

definition sys_getpinfo :: "'a kproc_scheme \<Rightarrow> (int, 'a kproc_scheme) outcome" where
  "sys_getpinfo s = bindK (getpinfo s) (\<lambda>_ s. Ret 0 s)"

section \<open>The dispatcher\<close>

definition syscalls :: "addr \<Rightarrow> addr \<Rightarrow> (int \<times> ('a kfile_scheme \<Rightarrow> (int, 'a kfile_scheme) outcome)) list" where
  "syscalls tret fret =
     [(1, sys_fork tret fret), (2, sys_exit), (22, sys_chprty), (25, sys_waitx), (3, sys_wait),
      (4, sys_pipe), (5, sys_read), (6, sys_kill), (7, sys_exec), (8, sys_fstat), (9, sys_chdir),
      (10, sys_dup), (11, sys_getpid), (12, sys_sbrk), (13, sys_sleep), (24, sys_getpinfo),
      (14, sys_uptime), (15, sys_open), (16, sys_write), (17, sys_mknod), (18, sys_unlink),
      (19, sys_link), (20, sys_mkdir), (21, sys_close), (23, sys_cps)]"

definition syscall :: "addr \<Rightarrow> addr \<Rightarrow> 'a kfile_scheme \<Rightarrow> (unit, 'a kfile_scheme) outcome" where
  "syscall tret fret s =
     bindK (myproc s) (\<lambda>c s.
     let num = sint (load32 (mem s) (p_tf (procs s c) + tf_eax))
     in bindK (case map_of (syscalls tret fret) num of
                 Some f \<Rightarrow> f s
               | None \<Rightarrow>
                   bindK (cprintf (''%d %s: unknown sys call %d'' @ [CHR 0x0A])
                     [PInt (word_of_int (p_pid (procs s c))), PStr (Some (p_name (procs s c))), PInt (word_of_int num)] s) (\<lambda>_ s.
                   Ret (-1) s)) (\<lambda>r s.
        Ret () (s\<lparr>mem := store32 (p_tf (procs s c) + tf_eax) (word_of_int r) (mem s)\<rparr>)))"

end
