(* ===== verification/Trap.thy ===== *)
theory Trap
  imports Syscall
begin

text \<open>
  Traps: \<open>trap\<close> of trap.c, which every entry into the kernel goes through, and the interrupt entry
  of the memory disk. What the hardware delivers is an argument: the number of the CPU, the
  address register of page faults, and the characters \<open>kbdgetc\<close> or \<open>uartgetc\<close> answer while the
  interrupt is handled (theory Kbd models \<open>kbdgetc\<close>). The acknowledgement \<open>lapiceoi\<close> writes a
  register of the interrupt controller only.
\<close>

section \<open>Trap numbers\<close>

definition T_SYSCALL :: uint where "T_SYSCALL = 64"

definition T_IRQ0 :: uint where "T_IRQ0 = 32"

definition IRQ_TIMER :: uint where "IRQ_TIMER = 0"

definition IRQ_KBD :: uint where "IRQ_KBD = 1"

definition IRQ_COM1 :: uint where "IRQ_COM1 = 4"

definition IRQ_IDE :: uint where "IRQ_IDE = 14"

definition IRQ_SPURIOUS :: uint where "IRQ_SPURIOUS = 31"

definition DPL_USER :: uint where "DPL_USER = 3"

definition tf_err :: uint where "tf_err = 52"

lemmas trap_consts = T_SYSCALL_def T_IRQ0_def IRQ_TIMER_def IRQ_KBD_def IRQ_COM1_def IRQ_IDE_def
  IRQ_SPURIOUS_def DPL_USER_def

text \<open>Fields of the trap frame at \<open>tf\<close>; \<open>cs\<close> is the low half of its word.\<close>

definition trapno :: "addr \<Rightarrow> 'a kmem_scheme \<Rightarrow> uint" where
  "trapno tf s = load32 (mem s) (tf + tf_trapno)"

definition trap_cs :: "addr \<Rightarrow> 'a kmem_scheme \<Rightarrow> uint" where
  "trap_cs tf s = load32 (mem s) (tf + tf_cs) AND 0xFFFF"

definition trap_eip :: "addr \<Rightarrow> 'a kmem_scheme \<Rightarrow> uint" where
  "trap_eip tf s = load32 (mem s) (tf + tf_eip)"

section \<open>Interrupt handlers\<close>

definition ideintr :: "'a kbio_scheme \<Rightarrow> (unit, 'a kbio_scheme) outcome" where
  "ideintr s = Ret () s"

text \<open>Only the first CPU keeps the time.\<close>

definition timer :: "nat \<Rightarrow> 'a kproc_scheme \<Rightarrow> (unit, 'a kproc_scheme) outcome" where
  "timer cpu s =
     (if cpu = 0 then
        bindK (acquire TicksLk s) (\<lambda>_ s.
        bindK (updatestatistics (s\<lparr>ticks := ticks s + 1\<rparr>)) (\<lambda>_ s.
        bindK (wakeup CTicks s) (\<lambda>_ s.
        release TicksLk s)))
      else Ret () s)"

definition kbdintr :: "int list \<Rightarrow> 'a kinput_scheme \<Rightarrow> (unit, 'a kinput_scheme) outcome" where
  "kbdintr cs s = consoleintr cs s"

definition uartintr :: "int list \<Rightarrow> 'a kinput_scheme \<Rightarrow> (unit, 'a kinput_scheme) outcome" where
  "uartintr cs s = consoleintr cs s"

definition trap_spurious :: "nat \<Rightarrow> addr \<Rightarrow> 'a kfile_scheme \<Rightarrow> (unit, 'a kfile_scheme) outcome" where
  "trap_spurious cpu tf s =
     cprintf (''cpu%d: spurious interrupt at %x:%x'' @ [CHR 0x0A])
       [PInt (of_nat cpu), PInt (trap_cs tf s), PInt (trap_eip tf s)] s"

text \<open>The default case: a fault of the kernel is a panic, a fault of a process kills it.\<close>

definition trap_default :: "nat \<Rightarrow> uint \<Rightarrow> addr \<Rightarrow> 'a kfile_scheme \<Rightarrow> (unit, 'a kfile_scheme) outcome" where
  "trap_default cpu cr2 tf s =
     (if cpu_proc s = None \<or> trap_cs tf s AND 3 = 0 then
        bindK (cprintf (''unexpected trap %d from cpu %d eip %x (cr2=0x%x)'' @ [CHR 0x0A])
          [PInt (trapno tf s), PInt (of_nat cpu), PInt (trap_eip tf s), PInt cr2] s) (\<lambda>_ s.
        Panic ''trap'')
      else
        bindK (myproc s) (\<lambda>p s.
        bindK (cprintf (''pid %d %s: trap %d err %d on cpu %d eip 0x%x addr 0x%x--kill proc'' @ [CHR 0x0A])
          [PInt (word_of_int (p_pid (procs s p))), PStr (Some (p_name (procs s p))), PInt (trapno tf s),
           PInt (load32 (mem s) (tf + tf_err)), PInt (of_nat cpu), PInt (trap_eip tf s), PInt cr2] s) (\<lambda>_ s.
        Ret () (upd_proc p (\<lambda>q. q\<lparr>p_killed := True\<rparr>) s))))"

definition trap_irq :: "nat \<Rightarrow> uint \<Rightarrow> int list \<Rightarrow> addr \<Rightarrow> 'a kfile_scheme \<Rightarrow> (unit, 'a kfile_scheme) outcome" where
  "trap_irq cpu cr2 cs tf s =
     (let n = trapno tf s
      in if n = T_IRQ0 + IRQ_TIMER then timer cpu s
         else if n = T_IRQ0 + IRQ_IDE then ideintr s
         else if n = T_IRQ0 + IRQ_IDE + 1 then Ret () s
         else if n = T_IRQ0 + IRQ_KBD then kbdintr cs s
         else if n = T_IRQ0 + IRQ_COM1 then uartintr cs s
         else if n = T_IRQ0 + 7 \<or> n = T_IRQ0 + IRQ_SPURIOUS then trap_spurious cpu tf s
         else trap_default cpu cr2 tf s)"

section \<open>The trap handler\<close>

text \<open>\<open>if(myproc() && myproc()->killed && (tf->cs&3) == DPL_USER) exit();\<close>\<close>

definition exit_if_killed :: "addr \<Rightarrow> 'a kfile_scheme \<Rightarrow> (unit, 'a kfile_scheme) outcome" where
  "exit_if_killed tf s =
     (case cpu_proc s of
        None \<Rightarrow> Ret () s
      | Some p \<Rightarrow> if p_killed (procs s p) \<and> trap_cs tf s AND 3 = DPL_USER then exit s else Ret () s)"

text \<open>\<open>if(myproc()->killed) exit();\<close> around a system call.\<close>

definition exit_now_if_killed :: "'a kfile_scheme \<Rightarrow> (unit, 'a kfile_scheme) outcome" where
  "exit_now_if_killed s = bindK (myproc s) (\<lambda>p s. if p_killed (procs s p) then exit s else Ret () s)"

definition trap :: "addr \<Rightarrow> addr \<Rightarrow> nat \<Rightarrow> uint \<Rightarrow> int list \<Rightarrow> addr \<Rightarrow> 'a kfile_scheme \<Rightarrow> (unit, 'a kfile_scheme) outcome" where
  "trap tret fret cpu cr2 cs tf s =
     (if trapno tf s = T_SYSCALL then
        bindK (exit_now_if_killed s) (\<lambda>_ s.
        bindK (myproc s) (\<lambda>p s.
        bindK (syscall tret fret (upd_proc p (\<lambda>q. q\<lparr>p_tf := tf\<rparr>) s)) (\<lambda>_ s.
        exit_now_if_killed s)))
      else
        bindK (trap_irq cpu cr2 cs tf s) (\<lambda>_ s.
        bindK (exit_if_killed tf s) (\<lambda>_ s.
        bindK (case cpu_proc s of
                 None \<Rightarrow> Ret () s
               | Some p \<Rightarrow> if pst s p = RUNNING \<and> trapno tf s = T_IRQ0 + IRQ_TIMER then yield s else Ret () s) (\<lambda>_ s.
        exit_if_killed tf s))))"

text \<open>The rest of the handler, when the process runs again after \<open>yield\<close>.\<close>

definition trap_resume :: "addr \<Rightarrow> 'a kfile_scheme \<Rightarrow> (unit, 'a kfile_scheme) outcome" where
  "trap_resume tf s = bindK (yield_resume s) (\<lambda>_ s. exit_if_killed tf s)"

section \<open>The clock\<close>

text \<open>What a clock tick does to an entry of the process table.\<close>

definition tick_proc :: "proc \<Rightarrow> proc" where
  "tick_proc q =
     (if p_state q = RUNNING then q\<lparr>p_rtime := p_rtime q + 1\<rparr>
      else if p_state q = SLEEPING \<and> p_chan q = Some CTicks then q\<lparr>p_state := RUNNABLE\<rparr>
      else q)"

lemma tick_tab:
  "wake_tab (Some CTicks) (for_each NPROC (\<lambda>q. if p_state q = RUNNING then q\<lparr>p_rtime := p_rtime q + 1\<rparr> else q) tab)
     = for_each NPROC tick_proc tab"
  by (auto simp: wake_tab_def tick_proc_def fun_eq_iff)

lemma timer_eq:
  assumes "held s = []"
  shows "timer 0 s = Ret () (s\<lparr>ticks := ticks s + 1, procs := for_each NPROC tick_proc (procs s)\<rparr>)"
  using assms
  by (simp add: timer_def updatestatistics_eq wakeup_eq wakeup1_def tick_tab [simplified] release_def)

text \<open>
  C39: the clock interrupt of the first CPU, when it interrupts a process that has not been killed
  and no lock is held. The time advances by one; every running process is charged one tick; the
  processes that sleep on the clock become runnable; the interrupted process becomes runnable and
  the CPU goes to the scheduler with only the table lock held. Nothing else changes.
\<close>

theorem timer_interrupt_correct:
  assumes "trapno tf s = T_IRQ0 + IRQ_TIMER" and "held s = []" and "cpu_proc s = Some p"
    and "p < NPROC" and "p_state (procs s p) = RUNNING" and "\<not> p_killed (procs s p)"
  shows "trap tret fret 0 cr2 cs tf s =
    Swtch (s\<lparr>ticks := ticks s + 1, held := [PtableLk],
              procs := (for_each NPROC tick_proc (procs s))
                (p := (procs s p)\<lparr>p_rtime := p_rtime (procs s p) + 1, p_state := RUNNABLE\<rparr>)\<rparr>)"
proof -
  let ?t = "s\<lparr>ticks := ticks s + 1, procs := for_each NPROC tick_proc (procs s)\<rparr>"
  have tick: "tick_proc (procs s p) = (procs s p)\<lparr>p_rtime := p_rtime (procs s p) + 1\<rparr>"
    using assms by (simp add: tick_proc_def)
  then have p: "procs ?t p = (procs s p)\<lparr>p_rtime := p_rtime (procs s p) + 1\<rparr>"
    using assms by simp
  have "trap_irq 0 cr2 cs tf s = Ret () ?t"
    using assms by (simp add: trap_irq_def timer_eq)
  moreover have "trapno tf ?t = trapno tf s" by (simp add: trapno_def)
  moreover have "exit_if_killed tf ?t = Ret () ?t"
    using assms p by (simp add: exit_if_killed_def)
  moreover have "T_IRQ0 + IRQ_TIMER \<noteq> T_SYSCALL" by (simp add: trap_consts)
  ultimately have "trap tret fret 0 cr2 cs tf s = bindK (yield ?t) (\<lambda>_ s. exit_if_killed tf s)"
    using assms p by (simp add: trap_def)
  also have "yield ?t = Swtch (upd_proc p (\<lambda>q. q\<lparr>p_state := RUNNABLE\<rparr>) (?t\<lparr>held := [PtableLk]\<rparr>))"
    using assms by (intro yield_eq) simp_all
  finally show ?thesis using assms(4) by (simp add: tick)
qed

text \<open>A state of process 0 interrupted by the clock; its trap frame is at 0x1000.\<close>

definition kclock0 :: kfile where
  "kclock0 = kfile0\<lparr>mem := store32 (0x1000 + tf_trapno) 32 (mem kfile0),
     procs := (procs kfile0)(0 := (procs kfile0 0)\<lparr>p_state := RUNNING, p_killed := False, p_rtime := 7\<rparr>)\<rparr>"

theorem timer_interrupt_correct_witness:
  "trap 0 0 0 0 [] 0x1000 kclock0 =
    Swtch (kclock0\<lparr>ticks := ticks kclock0 + 1, held := [PtableLk],
              procs := (for_each NPROC tick_proc (procs kclock0))
                (0 := (procs kclock0 0)\<lparr>p_rtime := p_rtime (procs kclock0 0) + 1, p_state := RUNNABLE\<rparr>)\<rparr>)"
  by (rule timer_interrupt_correct)
    (simp_all add: kclock0_def trapno_def trap_consts NPROC_def)

end
