(* ===== verification/Typing.thy ===== *)
theory Typing
  imports Trap
begin

text \<open>
  Typing of the kernel's tables. The kernel links its tables by pointers into arrays: a process
  to its open files, its current directory and its parent, an open file to its inode, a CPU to
  the process it runs. The model has these pointers as indices. The state is well typed when
  every such index is inside its table. The theory proves that every operation of the kernel
  keeps the state well typed, also on the way to a panic-free error and when the process goes
  to sleep in the middle, and that the operations that return an index return one inside its
  table. The root of it is the theorem on the system call dispatcher.
\<close>

named_theorems okK and okK_ptr and typed_upd

section \<open>Well-well_typed states\<close>

definition below :: "nat \<Rightarrow> nat option \<Rightarrow> bool" where
  "below n r = (case r of None \<Rightarrow> True | Some i \<Rightarrow> i < n)"

definition below_all :: "nat \<Rightarrow> ('k \<Rightarrow> nat option) \<Rightarrow> bool" where
  "below_all n g \<longleftrightarrow> (\<forall>k. below n (g k))"

definition typed_proc :: "proc \<Rightarrow> bool" where
  "typed_proc p \<longleftrightarrow> below_all NFILE (p_ofile p) \<and> below NINODE (p_cwd p) \<and> below NPROC (p_parent p)"

definition typed_file :: "ofile \<Rightarrow> bool" where
  "typed_file f \<longleftrightarrow> below NINODE (f_ip f)"

definition typed_procs :: "(nat \<Rightarrow> proc) \<Rightarrow> bool" where
  "typed_procs tab \<longleftrightarrow> (\<forall>p. typed_proc (tab p))"

definition typed_files :: "(nat \<Rightarrow> ofile) \<Rightarrow> bool" where
  "typed_files tab \<longleftrightarrow> (\<forall>f. typed_file (tab f))"

definition well_typed :: "'a kfile_scheme \<Rightarrow> bool" where
  "well_typed s \<longleftrightarrow> typed_procs (procs s) \<and> typed_files (files s) \<and> below NPROC (cpu_proc s) \<and> below NPROC (initproc s)"

lemma below_simps [simp]: "below n None" "below n (Some i) \<longleftrightarrow> i < n"
  by (simp_all add: below_def)

lemma below_SomeD: "below n r \<Longrightarrow> r = Some i \<Longrightarrow> i < n"
  by simp

lemma table_upd [simp]:
  "below_all n g \<Longrightarrow> below n r \<Longrightarrow> below_all n (g(k := r))"
  "typed_procs tab \<Longrightarrow> typed_proc p \<Longrightarrow> typed_procs (tab(i := p))"
  "typed_files ftab \<Longrightarrow> typed_file f \<Longrightarrow> typed_files (ftab(i := f))"
  by (simp_all add: below_all_def typed_procs_def typed_files_def)

lemma typed_procsD: "typed_procs tab \<Longrightarrow> typed_proc (tab i)"
  by (simp add: typed_procs_def)

lemma typed_procs_for_each [simp]:
  "typed_procs tab \<Longrightarrow> (\<And>p. typed_proc p \<Longrightarrow> typed_proc (f p)) \<Longrightarrow> typed_procs (for_each n f tab)"
  by (simp add: typed_procs_def)

lemma typed_proc_upd [simp]:
  "typed_proc (p\<lparr>p_sz := v1\<rparr>) = typed_proc p" "typed_proc (p\<lparr>p_pgdir := v1\<rparr>) = typed_proc p"
  "typed_proc (p\<lparr>p_kstack := v1\<rparr>) = typed_proc p" "typed_proc (p\<lparr>p_state := v2\<rparr>) = typed_proc p"
  "typed_proc (p\<lparr>p_pid := v3\<rparr>) = typed_proc p" "typed_proc (p\<lparr>p_tf := v1\<rparr>) = typed_proc p"
  "typed_proc (p\<lparr>p_context := v1\<rparr>) = typed_proc p" "typed_proc (p\<lparr>p_chan := v4\<rparr>) = typed_proc p"
  "typed_proc (p\<lparr>p_killed := v5\<rparr>) = typed_proc p" "typed_proc (p\<lparr>p_name := v6\<rparr>) = typed_proc p"
  "typed_proc (p\<lparr>p_priority := v3\<rparr>) = typed_proc p" "typed_proc (p\<lparr>p_ctime := v1\<rparr>) = typed_proc p"
  "typed_proc (p\<lparr>p_etime := v1\<rparr>) = typed_proc p" "typed_proc (p\<lparr>p_rtime := v1\<rparr>) = typed_proc p"
  by (simp_all add: typed_proc_def)

lemma typed_proc_links [simp]:
  "typed_proc p \<Longrightarrow> below NPROC q \<Longrightarrow> typed_proc (p\<lparr>p_parent := q\<rparr>)"
  "typed_proc p \<Longrightarrow> below NINODE i \<Longrightarrow> typed_proc (p\<lparr>p_cwd := i\<rparr>)"
  "typed_proc p \<Longrightarrow> below_all NFILE g \<Longrightarrow> typed_proc (p\<lparr>p_ofile := g\<rparr>)"
  by (simp_all add: typed_proc_def)

lemma typed_file_upd [simp]:
  "typed_file (f\<lparr>f_type := v1\<rparr>) = typed_file f" "typed_file (f\<lparr>f_ref := v2\<rparr>) = typed_file f"
  "typed_file (f\<lparr>f_readable := v3\<rparr>) = typed_file f" "typed_file (f\<lparr>f_writable := v3\<rparr>) = typed_file f"
  "typed_file (f\<lparr>f_pipe := v4\<rparr>) = typed_file f" "typed_file (f\<lparr>f_off := v5\<rparr>) = typed_file f"
  "typed_file (f\<lparr>f_ip := r\<rparr>) = below NINODE r"
  by (simp_all add: typed_file_def)

lemma typed_upd_other [simp]:
  fixes s :: "'a kfile_scheme"
  shows "well_typed (s\<lparr>held := a\<rparr>) = well_typed s" "well_typed (s\<lparr>mem := b\<rparr>) = well_typed s" "well_typed (s\<lparr>freelist := b'\<rparr>) = well_typed s"
    "well_typed (s\<lparr>use_lock := c\<rparr>) = well_typed s" "well_typed (s\<lparr>conout := d\<rparr>) = well_typed s" "well_typed (s\<lparr>cons_locking := c\<rparr>) = well_typed s"
    "well_typed (s\<lparr>nextpid := e\<rparr>) = well_typed s" "well_typed (s\<lparr>cxj := f\<rparr>) = well_typed s" "well_typed (s\<lparr>qxj := g\<rparr>) = well_typed s"
    "well_typed (s\<lparr>pstat_var := h\<rparr>) = well_typed s" "well_typed (s\<lparr>running_p := i\<rparr>) = well_typed s" "well_typed (s\<lparr>ticks := j\<rparr>) = well_typed s"
    "well_typed (s\<lparr>ts_esp0 := j\<rparr>) = well_typed s" "well_typed (s\<lparr>cr3 := j\<rparr>) = well_typed s" "well_typed (s\<lparr>slocks := k\<rparr>) = well_typed s"
    "well_typed (s\<lparr>disk := l\<rparr>) = well_typed s" "well_typed (s\<lparr>dhist := m\<rparr>) = well_typed s" "well_typed (s\<lparr>bufs := n\<rparr>) = well_typed s"
    "well_typed (s\<lparr>bnext := q\<rparr>) = well_typed s" "well_typed (s\<lparr>bprev := q\<rparr>) = well_typed s" "well_typed (s\<lparr>log_start := e\<rparr>) = well_typed s"
    "well_typed (s\<lparr>log_size := e\<rparr>) = well_typed s" "well_typed (s\<lparr>log_outstanding := e\<rparr>) = well_typed s"
    "well_typed (s\<lparr>log_committing := c\<rparr>) = well_typed s" "well_typed (s\<lparr>log_dev := r\<rparr>) = well_typed s" "well_typed (s\<lparr>lh_n := e\<rparr>) = well_typed s"
    "well_typed (s\<lparr>lh_block := t\<rparr>) = well_typed s" "well_typed (s\<lparr>sb := u\<rparr>) = well_typed s" "well_typed (s\<lparr>inodes := v\<rparr>) = well_typed s"
    "well_typed (s\<lparr>in_buf := w\<rparr>) = well_typed s" "well_typed (s\<lparr>in_r := j\<rparr>) = well_typed s" "well_typed (s\<lparr>in_w := j\<rparr>) = well_typed s"
    "well_typed (s\<lparr>in_e := j\<rparr>) = well_typed s" "well_typed (s\<lparr>dev_read := x\<rparr>) = well_typed s" "well_typed (s\<lparr>dev_write := x\<rparr>) = well_typed s"
    "well_typed (s\<lparr>pipes := y\<rparr>) = well_typed s"
  by (simp_all add: well_typed_def)

lemma typed_upd_links [simp]:
  fixes s :: "'a kfile_scheme"
  shows "well_typed s \<Longrightarrow> typed_procs tab \<Longrightarrow> well_typed (s\<lparr>procs := tab\<rparr>)"
    "well_typed s \<Longrightarrow> typed_files ftab \<Longrightarrow> well_typed (s\<lparr>files := ftab\<rparr>)"
    "well_typed s \<Longrightarrow> below NPROC r \<Longrightarrow> well_typed (s\<lparr>cpu_proc := r\<rparr>)"
    "well_typed s \<Longrightarrow> below NPROC r \<Longrightarrow> well_typed (s\<lparr>initproc := r\<rparr>)"
  by (simp_all add: well_typed_def)

lemma typed_get [simp]:
  fixes s :: "'a kfile_scheme"
  assumes "well_typed s"
  shows "typed_procs (procs s)" "typed_files (files s)" "typed_proc (procs s p)" "typed_file (files s f)" "below NPROC (cpu_proc s)" "below NPROC (initproc s)"
    "below_all NFILE (p_ofile (procs s p))" "below NFILE (p_ofile (procs s p) fd)" "below NINODE (p_cwd (procs s p))"
    "below NPROC (p_parent (procs s p))" "below NINODE (f_ip (files s f))"
  using assms by (simp_all add: well_typed_def typed_procs_def typed_files_def typed_proc_def typed_file_def below_all_def)

section \<open>Outcomes that keep the typing\<close>

text \<open>
  \<open>typK P m\<close>: when \<open>m\<close> returns, the value satisfies \<open>P\<close> and the state is well typed; when \<open>m\<close> switches
  to the scheduler, the state it leaves is well typed.
\<close>

definition typK :: "('b \<Rightarrow> bool) \<Rightarrow> ('b, 'a kfile_scheme) outcome \<Rightarrow> bool" where
  "typK P m = (case m of Ret a t \<Rightarrow> P a \<and> well_typed t | Swtch t \<Rightarrow> well_typed t | Panic e \<Rightarrow> True | Fault e \<Rightarrow> True)"

abbreviation okK :: "('b, 'a kfile_scheme) outcome \<Rightarrow> bool" where
  "okK \<equiv> typK (\<lambda>_. True)"

lemma typK_simps [simp]:
  "typK P (Ret a s) \<longleftrightarrow> P a \<and> well_typed s" "typK P (Swtch s) = well_typed s" "typK P (Panic e)" "typK P (Fault e)"
  by (simp_all add: typK_def)

lemma typK_bind:
  "typK Q m \<Longrightarrow> (\<And>a t. Q a \<Longrightarrow> well_typed t \<Longrightarrow> typK P (f a t)) \<Longrightarrow> typK P (bindK m f)"
  by (cases m) simp_all

lemma typK_mono: "typK Q m \<Longrightarrow> (\<And>a. Q a \<Longrightarrow> P a) \<Longrightarrow> typK P m"
  by (cases m) simp_all

lemma typK_okK: "typK P m \<Longrightarrow> okK m"
  by (cases m) simp_all

lemma okK_bindK [okK]: "okK m \<Longrightarrow> (\<And>a t. well_typed t \<Longrightarrow> typK P (f a t)) \<Longrightarrow> typK P (bindK m f)"
  by (rule typK_bind)

lemma okK_if [okK]: "(c \<Longrightarrow> typK P m) \<Longrightarrow> (\<not> c \<Longrightarrow> typK P n) \<Longrightarrow> typK P (if c then m else n)"
  by simp

lemma okK_option [okK]:
  "(r = None \<Longrightarrow> typK P m) \<Longrightarrow> (\<And>x. r = Some x \<Longrightarrow> typK P (f x)) \<Longrightarrow> typK P (case r of None \<Rightarrow> m | Some x \<Rightarrow> f x)"
  by (cases r) simp_all

lemma okK_prod [okK]: "(\<And>x y. p = (x, y) \<Longrightarrow> typK P (f x y)) \<Longrightarrow> typK P (case p of (x, y) \<Rightarrow> f x y)"
  by (cases p) simp

lemma okK_prod2 [okK]: "(\<And>x y. p = (x, y) \<Longrightarrow> typK P (f x y s)) \<Longrightarrow> typK P ((case p of (x, y) \<Rightarrow> f x y) s)"
  by (cases p) simp

lemma okK_Let [okK]: "typK P (f e) \<Longrightarrow> typK P (Let e f)"
  by simp

lemma okK_list [okK]:
  "(xs = [] \<Longrightarrow> typK P m) \<Longrightarrow> (\<And>y ys. xs = y # ys \<Longrightarrow> typK P (f y ys)) \<Longrightarrow>
     typK P (case xs of [] \<Rightarrow> m | y # ys \<Rightarrow> f y ys)"
  by (cases xs) simp_all

lemma okK_forK [okK]:
  "(\<And>i s. well_typed s \<Longrightarrow> okK (body i s)) \<Longrightarrow> well_typed s \<Longrightarrow> okK (forK body is s)"
  by (induction "is" arbitrary: s) (simp_all add: okK_bindK)

text \<open>Following a pointer of the tables.\<close>

lemma okK_cwd [okK_ptr]:
  "well_typed s \<Longrightarrow> (\<And>i. p_cwd (procs s p) = Some i \<Longrightarrow> i < NINODE \<Longrightarrow> typK P (f i)) \<Longrightarrow>
     typK P (case p_cwd (procs s p) of None \<Rightarrow> Fault e | Some i \<Rightarrow> f i)"
  using typed_get(9) [of s p] by (auto simp: below_def split: option.split simp del: typed_get)

lemma okK_ofile [okK_ptr]:
  "well_typed s \<Longrightarrow> (p_ofile (procs s p) fd = None \<Longrightarrow> typK P m) \<Longrightarrow>
     (\<And>i. p_ofile (procs s p) fd = Some i \<Longrightarrow> i < NFILE \<Longrightarrow> typK P (f i)) \<Longrightarrow>
     typK P (case p_ofile (procs s p) fd of None \<Rightarrow> m | Some i \<Rightarrow> f i)"
  using typed_get(8) [of s p fd] by (auto simp: below_def split: option.split simp del: typed_get)

section \<open>Locks, pages and the console\<close>

lemma okK_acquire [okK]: "well_typed s \<Longrightarrow> okK (acquire l s)"
  by (simp add: acquire_def)

lemma okK_release [okK]: "well_typed s \<Longrightarrow> okK (release l s)"
  by (simp add: release_def)

lemma okK_kmem_lock [okK]: "well_typed s \<Longrightarrow> okK (kmem_lock s)"
  unfolding kmem_lock_def by (rule okK | simp)+

lemma okK_kmem_unlock [okK]: "well_typed s \<Longrightarrow> okK (kmem_unlock s)"
  unfolding kmem_unlock_def by (rule okK | simp)+

lemma okK_kfree [okK]: "well_typed s \<Longrightarrow> okK (kfree v s)"
  unfolding kfree_def by (rule okK | simp)+

lemma okK_kalloc [okK]: "well_typed s \<Longrightarrow> okK (kalloc s)"
  unfolding kalloc_def by (rule okK | simp)+

lemma okK_walkpgdir [okK]: "well_typed s \<Longrightarrow> okK (walkpgdir d va al s)"
  unfolding walkpgdir_def by (rule okK | simp)+

lemma okK_mappages_loop [okK]: "well_typed s \<Longrightarrow> okK (mappages_loop n d a lst pa perm s)"
  by (induction n arbitrary: a pa s) (simp_all only: mappages_loop.simps typK_simps, (rule okK | simp)+)

lemma okK_mappages [okK]: "well_typed s \<Longrightarrow> okK (mappages d va sz pa perm s)"
  unfolding mappages_def by (rule okK | simp)+

lemma okK_deallocuvm_loop [okK]: "well_typed s \<Longrightarrow> okK (deallocuvm_loop n d a old s)"
  by (induction n arbitrary: a s) (simp_all only: deallocuvm_loop.simps typK_simps, (rule okK | simp)+)

lemma okK_deallocuvm [okK]: "well_typed s \<Longrightarrow> okK (deallocuvm d old new s)"
  unfolding deallocuvm_def by (rule okK | simp)+

lemma okK_freevm [okK]: "well_typed s \<Longrightarrow> okK (freevm d s)"
  unfolding freevm_def by (rule okK | simp)+

lemma okK_setupkvm_loop [okK]: "well_typed s \<Longrightarrow> okK (setupkvm_loop d ks s)"
  by (induction ks arbitrary: s) (simp_all only: split_paired_all setupkvm_loop.simps typK_simps, (rule okK | simp)+)

lemma okK_setupkvm [okK]: "well_typed s \<Longrightarrow> okK (setupkvm s)"
  unfolding setupkvm_def by (rule okK | simp)+

lemma okK_allocuvm_loop [okK]: "well_typed s \<Longrightarrow> okK (allocuvm_loop d old new as s)"
  by (induction as arbitrary: s) (simp_all only: allocuvm_loop.simps typK_simps, (rule okK | simp)+)

lemma okK_allocuvm [okK]: "well_typed s \<Longrightarrow> okK (allocuvm d old new s)"
  unfolding allocuvm_def by (rule okK | simp)+

lemma okK_clearpteu [okK]: "well_typed s \<Longrightarrow> okK (clearpteu d uva s)"
  unfolding clearpteu_def by (rule okK | simp)+

lemma okK_copyuvm_loop [okK]: "well_typed s \<Longrightarrow> okK (copyuvm_loop d e as s)"
  by (induction as arbitrary: s) (simp_all only: copyuvm_loop.simps typK_simps, (rule okK | simp)+)

lemma okK_copyuvm [okK]: "well_typed s \<Longrightarrow> okK (copyuvm d sz s)"
  unfolding copyuvm_def by (rule okK | simp)+

lemma okK_uva2ka [okK]: "well_typed s \<Longrightarrow> okK (uva2ka d uva s)"
  unfolding uva2ka_def by (rule okK | simp)+

lemma typed_consputc [simp]: "well_typed (consputc c s) = well_typed s"
  by (simp add: consputc_def)

lemma typed_puts [simp]: "well_typed (fold (\<lambda>c. consputc (f c)) cs s) = well_typed s"
  by (induction cs arbitrary: s) simp_all

lemma typed_printint [simp]: "well_typed (printint x base sign s) = well_typed s"
  by (simp add: printint_def Let_def)

lemma okK_cprintf_loop [okK]: "well_typed s \<Longrightarrow> okK (cprintf_loop fmt args s)"
  by (induction fmt args s rule: cprintf_loop.induct) (simp_all split: list.split parg.split)

lemma okK_cprintf [okK]: "well_typed s \<Longrightarrow> okK (cprintf fmt args s)"
  unfolding cprintf_def by (rule okK | simp)+

section \<open>Processes\<close>

lemma typK_myproc: "well_typed s \<Longrightarrow> typK (\<lambda>p. p < NPROC) (myproc s)"
  using typed_get(5) [of s] by (auto simp: myproc_def split: option.split simp del: typed_get)

lemmas okK_myproc [okK] = typK_okK [OF typK_myproc]
lemmas okK_myproc_bind [okK_ptr] = typK_bind [OF typK_myproc]

lemma okK_mlfq_enter [okK]: "well_typed s \<Longrightarrow> okK (mlfq_enter p pid s)"
  unfolding mlfq_enter_def by (rule okK | simp)+

lemma typK_allocproc: "well_typed s \<Longrightarrow> typK (below NPROC) (allocproc tr fr s)"
  unfolding allocproc_def by (rule okK | simp add: scan_SomeD)+

lemmas okK_allocproc [okK] = typK_okK [OF typK_allocproc]
lemmas okK_allocproc_bind [okK_ptr] = typK_bind [OF typK_allocproc]

lemma okK_sched [okK]: "well_typed s \<Longrightarrow> okK (sched p s)"
  by (simp add: sched_def)

lemma okK_yield [okK]: "well_typed s \<Longrightarrow> okK (yield s)"
  unfolding yield_def by (rule okK | simp)+

lemma okK_sleep [okK]: "well_typed s \<Longrightarrow> okK (sleep c lk s)"
  unfolding sleep_def by (rule okK | simp)+

lemma okK_sleep_resume [okK]: "well_typed s \<Longrightarrow> okK (sleep_resume lk s)"
  unfolding sleep_resume_def by (rule okK | simp)+

lemma typed_wake_tab [simp]: "typed_procs tab \<Longrightarrow> typed_procs (wake_tab c tab)"
  by (simp add: wake_tab_def)

lemma typed_wakeup1 [simp]: "well_typed s \<Longrightarrow> well_typed (wakeup1 c s)"
  by (simp add: wakeup1_def)

lemma okK_wakeup [okK]: "well_typed s \<Longrightarrow> okK (wakeup c s)"
  unfolding wakeup_def by (rule okK | simp)+

lemma okK_kill [okK]: "well_typed s \<Longrightarrow> okK (kill pid s)"
  unfolding kill_def by (rule okK | simp)+

lemma okK_chprty [okK]: "well_typed s \<Longrightarrow> okK (chprty pid prio s)"
  unfolding chprty_def by (rule okK | simp split: option.split)+

lemma okK_updatestatistics [okK]: "well_typed s \<Longrightarrow> okK (updatestatistics s)"
  unfolding updatestatistics_def by (rule okK | simp)+

lemma okK_cps [okK]: "well_typed s \<Longrightarrow> okK (cps s)"
  unfolding cps_def cps_row_def by (rule okK | simp)+

lemma okK_reap [okK]: "well_typed s \<Longrightarrow> okK (reap i s)"
  unfolding reap_def by (rule okK | simp)+

lemma typed_reset_times [simp]: "typed_proc (reset_times q) = typed_proc q"
  by (simp add: reset_times_def)

lemma okK_wait_body [okK]: "well_typed s \<Longrightarrow> okK (wait_body c s)"
  unfolding wait_body_def by (rule okK | simp)+

lemma okK_wait [okK]: "well_typed s \<Longrightarrow> okK (wait s)"
  unfolding wait_def by (rule okK | simp)+

lemma okK_wait_resume [okK]: "well_typed s \<Longrightarrow> okK (wait_resume s)"
  unfolding wait_resume_def by (rule okK | simp)+

lemma okK_waitx_body [okK]: "well_typed s \<Longrightarrow> okK (waitx_body c s)"
  unfolding waitx_body_def by (rule okK | simp)+

lemma okK_waitx [okK]: "well_typed s \<Longrightarrow> okK (waitx s)"
  unfolding waitx_def by (rule okK | simp)+

lemma typed_reparent1 [simp]: "typed_procs tab \<Longrightarrow> below NPROC ini \<Longrightarrow> typed_procs (reparent1 c ini i tab)"
  using typed_procsD by (simp add: reparent1_def Let_def)

lemma typed_reparent [simp]:
  assumes "well_typed s" shows "well_typed (reparent c s)"
proof -
  have "typed_procs (fold (reparent1 c (initproc s)) is tab)" if "typed_procs tab" for "is" tab
    using that assms by (induction "is" arbitrary: tab) simp_all
  then show ?thesis using assms by (simp add: reparent_def)
qed

lemma okK_exit_tail [okK]: "well_typed s \<Longrightarrow> okK (exit_tail c s)"
  unfolding exit_tail_def by (rule okK | simp)+

lemma okK_switchuvm [okK]: "well_typed s \<Longrightarrow> okK (switchuvm p s)"
  unfolding switchuvm_def by (rule okK | simp)+

lemma okK_growproc [okK]: "well_typed s \<Longrightarrow> okK (growproc n s)"
  unfolding growproc_def by (rule okK | simp)+

section \<open>User memory and reports\<close>

lemma okK_load_bytes [okK]: "well_typed s \<Longrightarrow> okK (load_bytes a n s)"
  by (induction n arbitrary: a s) (simp_all only: load_bytes.simps typK_simps, (rule okK | simp)+)

lemma okK_store_bytes [okK]: "well_typed s \<Longrightarrow> okK (store_bytes a bs s)"
  by (induction bs arbitrary: a s) (simp_all only: store_bytes.simps typK_simps, (rule okK | simp)+)

lemma okK_fetchint [okK]: "well_typed s \<Longrightarrow> okK (fetchint a s)"
  unfolding fetchint_def by (rule okK | simp)+

lemma okK_fetchstr_loop [okK]: "well_typed s \<Longrightarrow> okK (fetchstr_loop n a s)"
  by (induction n arbitrary: a s) (simp_all only: fetchstr_loop.simps typK_simps, (rule okK | simp)+)

lemma okK_fetchstr [okK]: "well_typed s \<Longrightarrow> okK (fetchstr a s)"
  unfolding fetchstr_def by (rule okK | simp)+

lemma okK_argint [okK]: "well_typed s \<Longrightarrow> okK (argint n s)"
  unfolding argint_def by (rule okK | simp)+

lemma okK_argptr [okK]: "well_typed s \<Longrightarrow> okK (argptr n sz s)"
  unfolding argptr_def by (rule okK | simp)+

lemma okK_argstr [okK]: "well_typed s \<Longrightarrow> okK (argstr n s)"
  unfolding argstr_def by (rule okK | simp)+

lemma okK_store_word [okK]: "well_typed s \<Longrightarrow> okK (store_word a v s)"
  unfolding store_word_def by (rule okK | simp)+

lemma okK_getpinfo [okK]: "well_typed s \<Longrightarrow> okK (getpinfo s)"
  unfolding getpinfo_def by (rule okK | simp)+

section \<open>Buffers and log\<close>

lemma okK_acquiresleep_loop [okK]: "well_typed s \<Longrightarrow> okK (acquiresleep_loop l s)"
  unfolding acquiresleep_loop_def by (rule okK | simp)+

lemma okK_acquiresleep [okK]: "well_typed s \<Longrightarrow> okK (acquiresleep l s)"
  unfolding acquiresleep_def by (rule okK | simp)+

lemma okK_acquiresleep_resume [okK]: "well_typed s \<Longrightarrow> okK (acquiresleep_resume l s)"
  unfolding acquiresleep_resume_def by (rule okK | simp)+

lemma okK_releasesleep [okK]: "well_typed s \<Longrightarrow> okK (releasesleep l s)"
  unfolding releasesleep_def by (rule okK | simp)+

lemma okK_holdingsleep [okK]: "well_typed s \<Longrightarrow> okK (holdingsleep l s)"
  unfolding holdingsleep_def by (rule okK | simp)+

lemma okK_iderw [okK]: "well_typed s \<Longrightarrow> okK (iderw b s)"
  unfolding iderw_def by (rule okK | simp)+

lemma okK_bget [okK]: "well_typed s \<Longrightarrow> okK (bget dev n s)"
  unfolding bget_def by (rule okK | simp)+

lemma okK_bread [okK]: "well_typed s \<Longrightarrow> okK (bread dev n s)"
  unfolding bread_def by (rule okK | simp)+

lemma okK_bwrite [okK]: "well_typed s \<Longrightarrow> okK (bwrite b s)"
  unfolding bwrite_def by (rule okK | simp)+

lemma okK_brelse [okK]: "well_typed s \<Longrightarrow> okK (brelse b s)"
  unfolding brelse_def bpush_def bunlink_def by (rule okK | simp add: Let_def)+

lemma okK_install_trans [okK]: "well_typed s \<Longrightarrow> okK (install_trans s)"
  unfolding install_trans_def by (rule okK | simp)+

lemma okK_write_head [okK]: "well_typed s \<Longrightarrow> okK (write_head s)"
  unfolding write_head_def by (rule okK | simp)+

lemma okK_begin_op_loop [okK]: "well_typed s \<Longrightarrow> okK (begin_op_loop s)"
  unfolding begin_op_loop_def by (rule okK | simp)+

lemma okK_begin_op [okK]: "well_typed s \<Longrightarrow> okK (begin_op s)"
  unfolding begin_op_def by (rule okK | simp)+

lemma okK_begin_op_resume [okK]: "well_typed s \<Longrightarrow> okK (begin_op_resume s)"
  unfolding begin_op_resume_def by (rule okK | simp)+

lemma okK_write_log [okK]: "well_typed s \<Longrightarrow> okK (write_log s)"
  unfolding write_log_def by (rule okK | simp)+

lemma okK_commit [okK]: "well_typed s \<Longrightarrow> okK (commit s)"
  unfolding commit_def by (rule okK | simp)+

lemma okK_end_op [okK]: "well_typed s \<Longrightarrow> okK (end_op s)"
  unfolding end_op_def by (rule okK | simp)+

lemma okK_log_write [okK]: "well_typed s \<Longrightarrow> okK (log_write b s)"
  unfolding log_write_def by (rule okK | simp)+

section \<open>Inodes, directories and paths\<close>

lemma okK_bzero [okK]: "well_typed s \<Longrightarrow> okK (bzero dev b s)"
  unfolding bzero_def by (rule okK | simp)+

lemma okK_balloc_loop [okK]: "well_typed s \<Longrightarrow> okK (balloc_loop dev bs s)"
  by (induction bs arbitrary: s) (simp_all only: balloc_loop.simps typK_simps, (rule okK | simp)+)

lemma okK_balloc [okK]: "well_typed s \<Longrightarrow> okK (balloc dev s)"
  unfolding balloc_def by (rule okK | simp)+

lemma okK_bfree [okK]: "well_typed s \<Longrightarrow> okK (bfree dev b s)"
  unfolding bfree_def by (rule okK | simp)+

lemma typK_iget: "well_typed s \<Longrightarrow> typK (\<lambda>ip. ip < NINODE) (iget dev inum s)"
  unfolding iget_def by (rule okK | simp add: scan_SomeD)+

lemmas okK_iget [okK] = typK_okK [OF typK_iget]
lemmas okK_iget_bind [okK_ptr] = typK_bind [OF typK_iget]

lemma typK_ialloc_loop: "well_typed s \<Longrightarrow> typK (\<lambda>ip. ip < NINODE) (ialloc_loop dev typ ns s)"
  by (induction ns arbitrary: s) (simp_all only: ialloc_loop.simps typK_simps, (rule okK typK_iget | simp)+)

lemma typK_ialloc: "well_typed s \<Longrightarrow> typK (\<lambda>ip. ip < NINODE) (ialloc dev typ s)"
  unfolding ialloc_def by (rule typK_ialloc_loop)

lemmas okK_ialloc_bind [okK_ptr] = typK_bind [OF typK_ialloc]

lemma okK_iupdate [okK]: "well_typed s \<Longrightarrow> okK (iupdate ip s)"
  unfolding iupdate_def by (rule okK | simp)+

lemma typK_idup: "well_typed s \<Longrightarrow> ip < NINODE \<Longrightarrow> typK (\<lambda>ip. ip < NINODE) (idup ip s)"
  unfolding idup_def by (rule okK | simp)+

lemmas okK_idup_bind [okK_ptr] = typK_bind [OF typK_idup]

lemma okK_ilock_load [okK]: "well_typed s \<Longrightarrow> okK (ilock_load ip s)"
  unfolding ilock_load_def by (rule okK | simp)+

lemma okK_ilock [okK]: "well_typed s \<Longrightarrow> okK (ilock ipp s)"
  unfolding ilock_def by (rule okK | simp)+

lemma okK_iunlock [okK]: "well_typed s \<Longrightarrow> okK (iunlock ipp s)"
  unfolding iunlock_def by (rule okK | simp)+

lemma okK_bmap [okK]: "well_typed s \<Longrightarrow> okK (bmap ip bn s)"
  unfolding bmap_def by (rule okK | simp)+

lemma okK_itrunc [okK]: "well_typed s \<Longrightarrow> okK (itrunc ip s)"
  unfolding itrunc_def by (rule okK | simp)+

lemma okK_iput [okK]: "well_typed s \<Longrightarrow> okK (iput ip s)"
  unfolding iput_def by (rule okK | simp)+

lemma okK_iunlockput [okK]: "well_typed s \<Longrightarrow> okK (iunlockput ip s)"
  unfolding iunlockput_def by (rule okK | simp)+

section \<open>Contents of files, directories and paths\<close>

lemma okK_put_dst [okK]: "well_typed s \<Longrightarrow> okK (put_dst dst k bs s)"
  unfolding put_dst_def by (rule okK_ptr okK | simp)+

lemma okK_get_src [okK]: "well_typed s \<Longrightarrow> okK (get_src src k m s)"
  by (cases src) (simp_all add: okK_load_bytes)

lemma okK_consoleread_loop [okK]: "well_typed s \<Longrightarrow> okK (consoleread_loop dst target got n s)"
  by (induction n arbitrary: got s) (simp_all only: consoleread_loop.simps typK_simps, (rule okK_ptr okK | simp)+)

lemma okK_consoleread_tail [okK]: "well_typed s \<Longrightarrow> okK (consoleread_tail ip dst target got n s)"
  unfolding consoleread_tail_def by (rule okK_ptr okK | simp)+

lemma okK_consoleread [okK]: "well_typed s \<Longrightarrow> okK (consoleread ip dst n s)"
  unfolding consoleread_def by (rule okK_ptr okK | simp)+

lemma okK_consoleread_resume [okK]: "well_typed s \<Longrightarrow> okK (consoleread_resume ip dst target got n s)"
  unfolding consoleread_resume_def by (rule okK_ptr okK | simp)+

lemma okK_consolewrite [okK]: "well_typed s \<Longrightarrow> okK (consolewrite ip src n s)"
  unfolding consolewrite_def by (rule okK_ptr okK | simp)+

lemma okK_readi_loop [okK]: "well_typed s \<Longrightarrow> okK (readi_loop ip dst n tot off s)"
proof (induction "n - tot" arbitrary: tot off s rule: less_induct)
  case less
  have "n - (tot + min (n - tot) (BSIZE - off mod BSIZE)) < n - tot" if "tot < n"
    using that by (auto simp: BSIZE_def)
  with less.prems show ?case
    by (subst readi_loop.simps) (rule okK less.hyps | simp)+
qed

lemma okK_readi [okK]: "well_typed s \<Longrightarrow> okK (readi ip dst off n s)"
  unfolding readi_def by (rule okK_ptr okK | simp)+

lemma okK_writei_loop [okK]: "well_typed s \<Longrightarrow> okK (writei_loop ip src n tot off s)"
proof (induction "n - tot" arbitrary: tot off s rule: less_induct)
  case less
  have "n - (tot + min (n - tot) (BSIZE - off mod BSIZE)) < n - tot" if "tot < n"
    using that by (auto simp: BSIZE_def)
  with less.prems show ?case
    by (subst writei_loop.simps) (rule okK less.hyps | simp)+
qed

lemma okK_writei [okK]: "well_typed s \<Longrightarrow> okK (writei ip src off n s)"
  unfolding writei_def by (rule okK_ptr okK | simp)+

lemma typK_dirlookup_loop:
  "well_typed s \<Longrightarrow> typK (\<lambda>r. below NINODE (map_option fst r)) (dirlookup_loop dp name offs s)"
  by (induction offs arbitrary: s) (simp_all only: dirlookup_loop.simps typK_simps, (rule okK_ptr okK | simp)+)

lemma typK_dirlookup: "well_typed s \<Longrightarrow> typK (\<lambda>r. below NINODE (map_option fst r)) (dirlookup dp name s)"
  unfolding dirlookup_def by (rule okK typK_dirlookup_loop | simp)+

lemmas okK_dirlookup [okK] = typK_okK [OF typK_dirlookup]
lemmas okK_dirlookup_bind [okK_ptr] = typK_bind [OF typK_dirlookup]

lemma okK_dirlink_slot [okK]: "well_typed s \<Longrightarrow> okK (dirlink_slot dp fin offs s)"
  by (induction offs arbitrary: s) (simp_all only: dirlink_slot.simps typK_simps, (rule okK_ptr okK | simp)+)

lemma okK_dirlink [okK]: "well_typed s \<Longrightarrow> okK (dirlink dp name inum s)"
  unfolding dirlink_def by (rule okK_ptr okK | simp)+

lemma typK_namex_loop:
  "well_typed s \<Longrightarrow> ip < NINODE \<Longrightarrow> typK (\<lambda>r. below NINODE (fst r)) (namex_loop path parent name ip s)"
proof (induction "length path" arbitrary: path name ip s rule: less_induct)
  case less
  show ?case
  proof (cases "skipelem path")
    case None
    with less.prems show ?thesis
      by (subst namex_loop.simps) (simp only: option.case, (rule okK | simp)+)
  next
    case (Some nr)
    obtain nm rest where nr: "nr = (nm, rest)" by (cases nr)
    have "length rest < length path" using Some nr by (intro skipelem_shorter) simp
    note IH = less.hyps [OF this]
    from less.prems show ?thesis
      by (subst namex_loop.simps) (simp only: Some nr option.case prod.case, (rule okK_ptr okK IH | simp)+)
  qed
qed

lemma typK_namex_start:
  "well_typed s \<Longrightarrow> typK (\<lambda>ip. ip < NINODE) (if path \<noteq> [] \<and> hd path = CHR ''/'' then iget ROOTDEV ROOTINO s
     else bindK (myproc s) (\<lambda>p s. case p_cwd (procs s p) of None \<Rightarrow> Fault ''null inode'' | Some cwd \<Rightarrow> idup cwd s))"
  by (rule okK_ptr okK typK_iget typK_idup | simp)+

lemma typK_namex: "well_typed s \<Longrightarrow> typK (\<lambda>r. below NINODE (fst r)) (namex path parent s)"
  unfolding namex_def by (erule typK_bind [OF typK_namex_start]) (rule typK_namex_loop)

lemmas okK_namex_bind [okK_ptr] = typK_bind [OF typK_namex]

lemma typK_namei: "well_typed s \<Longrightarrow> typK (below NINODE) (namei path s)"
  unfolding namei_def by (rule okK_ptr okK | simp)+

lemmas okK_namei [okK] = typK_okK [OF typK_namei]
lemmas okK_namei_bind [okK_ptr] = typK_bind [OF typK_namei]

lemma typK_nameiparent: "well_typed s \<Longrightarrow> typK (\<lambda>r. below NINODE (fst r)) (nameiparent path s)"
  unfolding nameiparent_def by (rule typK_namex)

lemmas okK_nameiparent [okK] = typK_okK [OF typK_nameiparent]
lemmas okK_nameiparent_bind [okK_ptr] = typK_bind [OF typK_nameiparent]

section \<open>Open files and pipes\<close>

lemma typK_filealloc: "well_typed s \<Longrightarrow> typK (below NFILE) (filealloc s)"
  unfolding filealloc_def by (rule okK_ptr okK | simp add: scan_SomeD)+

lemmas okK_filealloc [okK] = typK_okK [OF typK_filealloc]
lemmas okK_filealloc_bind [okK_ptr] = typK_bind [OF typK_filealloc]

lemma typK_filedup: "well_typed s \<Longrightarrow> f < NFILE \<Longrightarrow> typK (\<lambda>f. f < NFILE) (filedup f s)"
  unfolding filedup_def by (rule okK_ptr okK | simp)+

lemmas okK_filedup_bind [okK_ptr] = typK_bind [OF typK_filedup]

lemma okK_filedup [okK]: "well_typed s \<Longrightarrow> okK (filedup f s)"
  unfolding filedup_def by (rule okK | simp)+

lemma okK_pipeclose [okK]: "well_typed s \<Longrightarrow> okK (pipeclose p w s)"
  unfolding pipeclose_def by (rule okK_ptr okK | simp)+

lemma okK_pipewrite_loop [okK]: "well_typed s \<Longrightarrow> okK (pipewrite_loop p src i n s)"
  by (induction n arbitrary: i s) (simp_all only: pipewrite_loop.simps typK_simps, (rule okK_ptr okK | simp)+)

lemma okK_pipewrite [okK]: "well_typed s \<Longrightarrow> okK (pipewrite p src n s)"
  unfolding pipewrite_def by (rule okK_ptr okK | simp)+

lemma okK_pipewrite_resume [okK]: "well_typed s \<Longrightarrow> okK (pipewrite_resume p src i n s)"
  unfolding pipewrite_resume_def by (rule okK_ptr okK | simp)+

lemma okK_piperead_copy [okK]: "well_typed s \<Longrightarrow> okK (piperead_copy p dst got n s)"
  by (induction n arbitrary: got s) (simp_all only: piperead_copy.simps typK_simps, (rule okK_ptr okK | simp)+)

lemma okK_piperead_body [okK]: "well_typed s \<Longrightarrow> okK (piperead_body p dst n s)"
  unfolding piperead_body_def by (rule okK_ptr okK | simp)+

lemma okK_piperead [okK]: "well_typed s \<Longrightarrow> okK (piperead p dst n s)"
  unfolding piperead_def by (rule okK_ptr okK | simp)+

lemma okK_piperead_resume [okK]: "well_typed s \<Longrightarrow> okK (piperead_resume p dst n s)"
  unfolding piperead_resume_def by (rule okK_ptr okK | simp)+

lemma okK_fileclose [okK]: "well_typed s \<Longrightarrow> okK (fileclose f s)"
  unfolding fileclose_def by (rule okK_ptr okK | simp)+

lemma okK_pipealloc_bad [okK]: "well_typed s \<Longrightarrow> okK (pipealloc_bad f0 f1 s)"
  unfolding pipealloc_bad_def by (rule okK_ptr okK | simp)+

lemma typed_initlock [simp]: "well_typed (initlock l s) = well_typed s"
  by (simp add: initlock_def)

lemma typK_pipealloc_bad: "well_typed s \<Longrightarrow> typK (\<lambda>r. r = None) (pipealloc_bad f0 f1 s)"
  unfolding pipealloc_bad_def by (rule okK | simp)+

lemma typK_pipealloc:
  "well_typed s \<Longrightarrow> typK (\<lambda>r. below NFILE (map_option fst r) \<and> below NFILE (map_option snd r)) (pipealloc s)"
  unfolding pipealloc_def by (rule okK_ptr okK typK_mono [OF typK_pipealloc_bad] | simp)+

lemmas okK_pipealloc_bind [okK_ptr] = typK_bind [OF typK_pipealloc]

lemma okK_store_stat [okK]: "well_typed s \<Longrightarrow> okK (store_stat a st s)"
  unfolding store_stat_def by (rule okK_ptr okK | simp)+

lemma okK_filestat [okK]: "well_typed s \<Longrightarrow> okK (filestat f a s)"
  unfolding filestat_def by (rule okK_ptr okK | simp)+

lemma okK_fileread [okK]: "well_typed s \<Longrightarrow> okK (fileread f a n s)"
  unfolding fileread_def by (rule okK_ptr okK | simp)+

lemma okK_filewrite_chunk [okK]: "well_typed s \<Longrightarrow> okK (filewrite_chunk f a i n s)"
  unfolding filewrite_chunk_def by (rule okK_ptr okK | simp)+

lemma okK_filewrite_loop [okK]: "well_typed s \<Longrightarrow> okK (filewrite_loop f a n i s)"
proof (induction "n - i" arbitrary: i s rule: less_induct)
  case less
  have "n - (i + (if n - i > filewrite_max then filewrite_max else n - i)) < n - i" if "i < n"
    using that by (auto simp: filewrite_max_def MAXOPBLOCKS_def)
  with less.prems show ?case
    by (subst filewrite_loop.simps) (rule okK less.hyps | simp)+
qed

lemma okK_filewrite [okK]: "well_typed s \<Longrightarrow> okK (filewrite f a n s)"
  unfolding filewrite_def by (rule okK_ptr okK | simp)+

section \<open>Programs and processes\<close>

lemma okK_loaduvm_loop [okK]: "well_typed s \<Longrightarrow> okK (loaduvm_loop d a ip off sz as s)"
  by (induction as arbitrary: s) (simp_all only: loaduvm_loop.simps typK_simps, (rule okK_ptr okK | simp)+)

lemma okK_loaduvm [okK]: "well_typed s \<Longrightarrow> okK (loaduvm d a ip off sz s)"
  unfolding loaduvm_def by (rule okK_ptr okK | simp)+

lemma okK_copyout_bytes_loop [okK]: "well_typed s \<Longrightarrow> okK (copyout_bytes_loop k d va bs s)"
  by (induction k arbitrary: va bs s) (simp_all only: copyout_bytes_loop.simps typK_simps, (rule okK_ptr okK | simp)+)

lemma okK_copyout_bytes [okK]: "well_typed s \<Longrightarrow> okK (copyout_bytes d va bs s)"
  unfolding copyout_bytes_def by (rule okK_ptr okK | simp)+

lemma okK_exec_load [okK]: "well_typed s \<Longrightarrow> okK (exec_load ip d n off sz s)"
  by (induction n arbitrary: off sz s) (simp_all only: exec_load.simps typK_simps, (rule okK_ptr okK | simp)+)

lemma okK_exec_push [okK]: "well_typed s \<Longrightarrow> okK (exec_push d sp argc us argv s)"
  by (induction argv arbitrary: sp argc us s) (simp_all only: exec_push.simps typK_simps, (rule okK_ptr okK | simp)+)

lemma okK_exec_bad [okK]: "well_typed s \<Longrightarrow> okK (exec_bad d ipp s)"
  unfolding exec_bad_def by (rule okK_ptr okK | simp)+

lemma okK_exec_image [okK]: "well_typed s \<Longrightarrow> okK (exec_image d entry sz path argv s)"
  unfolding exec_image_def by (rule okK_ptr okK | simp)+

lemma okK_exec [okK]: "well_typed s \<Longrightarrow> okK (exec path argv s)"
  unfolding exec_def by (rule okK_ptr okK | simp)+

lemma okK_fork_files [okK]: "well_typed s \<Longrightarrow> okK (fork_files c np as s)"
  by (induction as arbitrary: s) (simp_all only: fork_files.simps typK_simps, (rule okK_ptr okK | simp)+)

lemma okK_fork [okK]: "well_typed s \<Longrightarrow> okK (fork tr fr s)"
  unfolding fork_def by (rule okK_ptr okK | simp)+

lemma okK_exit_files [okK]: "well_typed s \<Longrightarrow> okK (exit_files c fds s)"
  by (induction fds arbitrary: s) (simp_all only: exit_files.simps typK_simps, (rule okK_ptr okK | simp)+)

lemma okK_exit [okK]: "well_typed s \<Longrightarrow> okK (exit s)"
  unfolding exit_def by (rule okK_ptr okK | simp)+

section \<open>System calls\<close>

lemma okK_orfail [okK]:
  "okK m \<Longrightarrow> (\<And>a t. well_typed t \<Longrightarrow> okK (f a t)) \<Longrightarrow> okK (orfail m f)"
  unfolding orfail_def by (rule okK | simp)+

lemma okK_orfail_value:
  "typK Q m \<Longrightarrow> (\<And>a t. Q (Some a) \<Longrightarrow> well_typed t \<Longrightarrow> okK (f a t)) \<Longrightarrow> okK (orfail m f)"
  unfolding orfail_def by (erule typK_bind) (rule okK | simp)+

lemma typK_argfd: "well_typed s \<Longrightarrow> typK (\<lambda>r. below NFILE (map_option snd r)) (argfd n s)"
  unfolding argfd_def by (rule okK_ptr okK | simp)+

lemmas okK_argfd [okK_ptr] = okK_orfail_value [OF typK_argfd]
lemmas okK_pipealloc_orfail [okK_ptr] = okK_orfail_value [OF typK_pipealloc]

lemma okK_fdalloc [okK]: "well_typed s \<Longrightarrow> f < NFILE \<Longrightarrow> okK (fdalloc f s)"
  unfolding fdalloc_def by (rule okK_ptr okK | simp)+

lemma okK_sys_dup [okK]: "well_typed s \<Longrightarrow> okK (sys_dup s)"
  unfolding sys_dup_def by (rule okK_ptr okK | simp)+

lemma okK_sys_read [okK]: "well_typed s \<Longrightarrow> okK (sys_read s)"
  unfolding sys_read_def by (rule okK_ptr okK | simp)+

lemma okK_sys_write [okK]: "well_typed s \<Longrightarrow> okK (sys_write s)"
  unfolding sys_write_def by (rule okK_ptr okK | simp)+

lemma okK_sys_close [okK]: "well_typed s \<Longrightarrow> okK (sys_close s)"
  unfolding sys_close_def by (rule okK_ptr okK | simp)+

lemma okK_sys_fstat [okK]: "well_typed s \<Longrightarrow> okK (sys_fstat s)"
  unfolding sys_fstat_def by (rule okK_ptr okK | simp)+

lemma okK_give_up [okK]: "well_typed s \<Longrightarrow> okK (give_up ip s)"
  unfolding give_up_def by (rule okK_ptr okK | simp)+

lemma okK_sys_link_bad [okK]: "well_typed s \<Longrightarrow> okK (sys_link_bad ip s)"
  unfolding sys_link_bad_def by (rule okK_ptr okK | simp)+

lemma okK_sys_link [okK]: "well_typed s \<Longrightarrow> okK (sys_link s)"
  unfolding sys_link_def by (rule okK_ptr okK | simp)+

lemma okK_isdirempty_loop [okK]: "well_typed s \<Longrightarrow> okK (isdirempty_loop dp offs s)"
  by (induction offs arbitrary: s) (simp_all only: isdirempty_loop.simps typK_simps, (rule okK_ptr okK | simp)+)

lemma okK_isdirempty [okK]: "well_typed s \<Longrightarrow> okK (isdirempty dp s)"
  unfolding isdirempty_def by (rule okK_ptr okK | simp)+

lemma okK_unlink_entry [okK]: "well_typed s \<Longrightarrow> okK (unlink_entry dp ip off s)"
  unfolding unlink_entry_def by (rule okK_ptr okK | simp)+

lemma okK_sys_unlink [okK]: "well_typed s \<Longrightarrow> okK (sys_unlink s)"
  unfolding sys_unlink_def by (rule okK_ptr okK | simp)+

lemma okK_create_dots [okK]: "well_typed s \<Longrightarrow> okK (create_dots dp ip s)"
  unfolding create_dots_def by (rule okK_ptr okK | simp)+

lemma typK_create: "well_typed s \<Longrightarrow> typK (below NINODE) (create path typ major minor s)"
  unfolding create_def by (rule okK_ptr okK | simp)+

lemmas okK_create [okK] = typK_okK [OF typK_create]
lemmas okK_create_bind [okK_ptr] = typK_bind [OF typK_create]

lemma okK_open_inode [okK]: "well_typed s \<Longrightarrow> ip < NINODE \<Longrightarrow> okK (open_inode ip omode s)"
  unfolding open_inode_def by (rule okK_ptr okK | simp)+

lemma okK_sys_open [okK]: "well_typed s \<Longrightarrow> okK (sys_open s)"
  unfolding sys_open_def by (rule okK_ptr okK | simp)+

lemma okK_finish_create [okK]: "okK m \<Longrightarrow> okK (finish_create m)"
  unfolding finish_create_def by (rule okK_ptr okK | simp)+

lemma okK_sys_mkdir [okK]: "well_typed s \<Longrightarrow> okK (sys_mkdir s)"
  unfolding sys_mkdir_def by (rule okK_ptr okK | simp)+

lemma okK_sys_mknod [okK]: "well_typed s \<Longrightarrow> okK (sys_mknod s)"
  unfolding sys_mknod_def by (rule okK_ptr okK | simp)+

lemma typK_chdir_path:
  "well_typed s \<Longrightarrow> typK (below NINODE) (bindK (argstr 0 s) (\<lambda>r s. case r of None \<Rightarrow> Ret None s | Some path \<Rightarrow> namei path s))"
  by (rule okK typK_namei | simp)+

lemmas okK_chdir_path [okK_ptr] = typK_bind [OF typK_chdir_path]

lemma okK_sys_chdir [okK]: "well_typed s \<Longrightarrow> okK (sys_chdir s)"
  unfolding sys_chdir_def by (rule okK_ptr okK | simp)+

lemma okK_sys_exec_args [okK]: "well_typed s \<Longrightarrow> okK (sys_exec_args n uargv i s)"
  by (induction n arbitrary: i s) (simp_all only: sys_exec_args.simps typK_simps, (rule okK_ptr okK | simp)+)

lemma okK_sys_exec [okK]: "well_typed s \<Longrightarrow> okK (sys_exec s)"
  unfolding sys_exec_def by (rule okK_ptr okK | simp)+

lemma okK_sys_pipe [okK]: "well_typed s \<Longrightarrow> okK (sys_pipe s)"
  unfolding sys_pipe_def by (rule okK_ptr okK | simp split: option.split)+

lemma okK_sys_fork [okK]: "well_typed s \<Longrightarrow> okK (sys_fork tr fr s)"
  unfolding sys_fork_def by (rule okK_ptr okK | simp)+

lemma okK_sys_exit [okK]: "well_typed s \<Longrightarrow> okK (sys_exit s)"
  unfolding sys_exit_def by (rule okK_ptr okK | simp)+

lemma okK_sys_wait [okK]: "well_typed s \<Longrightarrow> okK (sys_wait s)"
  unfolding sys_wait_def by (rule okK_ptr okK | simp)+

lemma okK_sys_waitx [okK]: "well_typed s \<Longrightarrow> okK (sys_waitx s)"
  unfolding sys_waitx_def by (rule okK_ptr okK | simp)+

lemma okK_sys_kill [okK]: "well_typed s \<Longrightarrow> okK (sys_kill s)"
  unfolding sys_kill_def by (rule okK_ptr okK | simp)+

lemma okK_sys_getpid [okK]: "well_typed s \<Longrightarrow> okK (sys_getpid s)"
  unfolding sys_getpid_def by (rule okK_ptr okK | simp)+

lemma okK_sys_sbrk [okK]: "well_typed s \<Longrightarrow> okK (sys_sbrk s)"
  unfolding sys_sbrk_def by (rule okK_ptr okK | simp)+

lemma okK_sys_sleep_loop [okK]: "well_typed s \<Longrightarrow> okK (sys_sleep_loop t n s)"
  unfolding sys_sleep_loop_def by (rule okK_ptr okK | simp)+

lemma okK_sys_sleep [okK]: "well_typed s \<Longrightarrow> okK (sys_sleep s)"
  unfolding sys_sleep_def by (rule okK_ptr okK | simp)+

lemma okK_sys_sleep_resume [okK]: "well_typed s \<Longrightarrow> okK (sys_sleep_resume t n s)"
  unfolding sys_sleep_resume_def by (rule okK_ptr okK | simp)+

lemma okK_sys_chprty [okK]: "well_typed s \<Longrightarrow> okK (sys_chprty s)"
  unfolding sys_chprty_def by (rule okK_ptr okK | simp)+

lemma okK_sys_uptime [okK]: "well_typed s \<Longrightarrow> okK (sys_uptime s)"
  unfolding sys_uptime_def by (rule okK_ptr okK | simp)+

lemma okK_sys_cps [okK]: "well_typed s \<Longrightarrow> okK (sys_cps s)"
  unfolding sys_cps_def by (rule okK_ptr okK | simp)+

lemma okK_sys_getpinfo [okK]: "well_typed s \<Longrightarrow> okK (sys_getpinfo s)"
  unfolding sys_getpinfo_def by (rule okK_ptr okK | simp)+

lemma okK_syscalls:
  "map_of (syscalls tr fr) num = Some f \<Longrightarrow> well_typed s \<Longrightarrow> okK (f s)"
  by (drule map_of_SomeD) (auto simp: syscalls_def intro!: okK)

lemma okK_syscall [okK]: "well_typed s \<Longrightarrow> okK (syscall tr fr s)"
  unfolding syscall_def by (rule okK_ptr okK | erule okK_syscalls | simp)+

section \<open>Interrupts and traps\<close>

lemma okK_procdump [okK]: "well_typed s \<Longrightarrow> okK (procdump s)"
  unfolding procdump_def by (rule okK_ptr okK | simp)+

lemma typed_kill_line [simp]: "well_typed (kill_line s) = well_typed s"
  by (induction s rule: kill_line.induct) (subst kill_line.simps, simp)

lemma okK_take_char [okK]: "well_typed s \<Longrightarrow> okK (take_char c s)"
  unfolding take_char_def by (rule okK_ptr okK | simp)+

lemma okK_consoleintr_loop [okK]: "well_typed s \<Longrightarrow> okK (consoleintr_loop cs d s)"
  by (induction cs arbitrary: d s) (simp_all only: consoleintr_loop.simps typK_simps, (rule okK | simp)+)

lemma okK_consoleintr [okK]: "well_typed s \<Longrightarrow> okK (consoleintr cs s)"
  unfolding consoleintr_def by (rule okK_ptr okK | simp)+

lemma okK_timer [okK]: "well_typed s \<Longrightarrow> okK (timer cpu s)"
  unfolding timer_def by (rule okK_ptr okK | simp)+

lemma okK_trap_spurious [okK]: "well_typed s \<Longrightarrow> okK (trap_spurious cpu tf s)"
  unfolding trap_spurious_def by (rule okK_ptr okK | simp)+

lemma okK_trap_default [okK]: "well_typed s \<Longrightarrow> okK (trap_default cpu cr2 tf s)"
  unfolding trap_default_def by (rule okK_ptr okK | simp)+

lemma okK_trap_irq [okK]: "well_typed s \<Longrightarrow> okK (trap_irq cpu cr2 cs tf s)"
  unfolding trap_irq_def ideintr_def kbdintr_def uartintr_def by (rule okK | simp)+

lemma okK_exit_if_killed [okK]: "well_typed s \<Longrightarrow> okK (exit_if_killed tf s)"
  unfolding exit_if_killed_def by (rule okK_ptr okK | simp)+

lemma okK_exit_now_if_killed [okK]: "well_typed s \<Longrightarrow> okK (exit_now_if_killed s)"
  unfolding exit_now_if_killed_def by (rule okK_ptr okK | simp)+

lemma okK_trap [okK]: "well_typed s \<Longrightarrow> okK (trap tr fr cpu cr2 cs tf s)"
  unfolding trap_def by (rule okK_ptr okK | simp)+

lemma okK_trap_resume [okK]: "well_typed s \<Longrightarrow> okK (trap_resume tf s)"
  unfolding trap_resume_def yield_resume_def by (rule okK | simp)+

section \<open>The kernel keeps its tables well typed\<close>


lemma kclock0_typed: "well_typed kclock0"
  by (simp add: kclock0_def kfile0_def kproc.extend_def kuser0_def kproc0_def well_typed_def typed_procs_def
      typed_files_def typed_proc_def typed_file_def below_all_def NPROC_def proc0_def)


end
