(* ===== verification/Kbd.thy ===== *)
theory Kbd
  imports Console
begin

unbundle bit_operations_syntax

text \<open>
  The keyboard: the key tables of kbd.h and \<open>kbdgetc\<close> of kbd.c, which turns scan codes into
  characters. The status and the data byte the controller delivers are arguments; the static
  variable \<open>shift\<close> is an argument and part of the result. \<open>kbd_poll\<close> are the characters a handler
  that calls \<open>kbdgetc\<close> until it answers -1 sees.
\<close>

section \<open>Tables\<close>

definition KBS_DIB :: uint where "KBS_DIB = 0x01"

definition SHIFT :: uint where "SHIFT = push_bit 0 1"

definition CTL :: uint where "CTL = push_bit 1 1"

definition ALT :: uint where "ALT = push_bit 2 1"

definition CAPSLOCK :: uint where "CAPSLOCK = push_bit 3 1"

definition NUMLOCK :: uint where "NUMLOCK = push_bit 4 1"

definition SCROLLLOCK :: uint where "SCROLLLOCK = push_bit 5 1"

definition E0ESC :: uint where "E0ESC = push_bit 6 1"

lemmas kbd_consts = KBS_DIB_def SHIFT_def CTL_def ALT_def CAPSLOCK_def NUMLOCK_def SCROLLLOCK_def E0ESC_def

definition shiftcode :: "uint \<Rightarrow> uint" where
  "shiftcode d =
     (if d = 0x1D \<or> d = 0x9D then CTL
      else if d = 0x2A \<or> d = 0x36 then SHIFT
      else if d = 0x38 \<or> d = 0xB8 then ALT
      else 0)"

definition togglecode :: "uint \<Rightarrow> uint" where
  "togglecode d = (if d = 0x3A then CAPSLOCK else if d = 0x45 then NUMLOCK else if d = 0x46 then SCROLLLOCK else 0)"

text \<open>
  A table with an initial segment and some designated entries; the others are 0. The three maps
  share the designated entries of the special keys.
\<close>

definition keytab :: "uint list \<Rightarrow> (uint \<times> uint) list \<Rightarrow> uint \<Rightarrow> uint" where
  "keytab xs ds d =
     (if unat d < length xs then xs ! unat d else case map_of ds d of Some c \<Rightarrow> c | None \<Rightarrow> 0)"

definition codes :: "string \<Rightarrow> uint list" where
  "codes cs = map of_char cs"

definition special_keys :: "(uint \<times> uint) list" where
  "special_keys =
     [(0xC8, 0xE2), (0xD0, 0xE3), (0xC9, 0xE6), (0xD1, 0xE7), (0xCB, 0xE4), (0xCD, 0xE5),
      (0x97, 0xE0), (0xCF, 0xE1), (0xD2, 0xE8), (0xD3, 0xE9)]"

definition keypad :: "uint list" where
  "keypad = [0] @ codes '' '' @ replicate 13 0 @ codes ''789-456+1230.'' @ replicate 4 0"

definition normalmap :: "uint \<Rightarrow> uint" where
  "normalmap = keytab
     ([0, 0x1B] @ codes ''1234567890-='' @ [8, 9] @
      codes ''qwertyuiop[]'' @ [0x0A, 0] @ codes ''asdfghjkl;'' @
      [0x27, 0x60, 0, 0x5C] @ codes ''zxcvbnm,./'' @ [0] @ codes ''*'' @ keypad)
     ((0x9C, 0x0A) # (0xB5, of_char CHR ''/'') # special_keys)"

definition shiftmap :: "uint \<Rightarrow> uint" where
  "shiftmap = keytab
     ([0, 0x1B] @ codes ''!@#$%^&*()_+'' @ [8, 9] @
      codes ''QWERTYUIOP{}'' @ [0x0A, 0] @ codes ''ASDFGHJKL:'' @
      [0x22, 0x7E, 0, 0x7C] @ codes ''ZXCVBNM<>?'' @ [0] @ codes ''*'' @ keypad)
     ((0x9C, 0x0A) # (0xB5, of_char CHR ''/'') # special_keys)"

text \<open>\<open>C(x)\<close>, cut to a byte.\<close>

definition ctl :: "char \<Rightarrow> uint" where
  "ctl x = (of_char x - 0x40) AND 0xFF"

definition ctlmap :: "uint \<Rightarrow> uint" where
  "ctlmap = keytab
     (replicate 16 0 @ map ctl ''QWERTYUIOP'' @ [0, 0, 0x0D, 0] @ map ctl ''ASDFGHJKL'' @
      [0, 0, 0, 0] @ [ctl (CHR 0x5C)] @ map ctl ''ZXCVBNM'' @ [0, 0] @ map ctl ''/'' @ [0, 0])
     ((0x9C, 0x0D) # (0xB5, ctl CHR ''/'') # special_keys)"

definition charcode :: "uint \<Rightarrow> uint \<Rightarrow> uint" where
  "charcode k = (if k = 0 then normalmap else if k = 1 then shiftmap else ctlmap)"

section \<open>Reading a character\<close>

definition kbdgetc :: "uint \<Rightarrow> uint \<Rightarrow> uint \<Rightarrow> int \<times> uint" where
  "kbdgetc st data shift =
     (if st AND KBS_DIB = 0 then (-1, shift)
      else if data = 0xE0 then (0, shift OR E0ESC)
      else if data AND 0x80 \<noteq> 0 then
        let data = (if shift AND E0ESC \<noteq> 0 then data else data AND 0x7F)
        in (0, shift AND NOT (shiftcode data OR E0ESC))
      else
        let (data, shift) = (if shift AND E0ESC \<noteq> 0 then (data OR 0x80, shift AND NOT E0ESC) else (data, shift));
            shift = shift OR shiftcode data;
            shift = shift XOR togglecode data;
            c = charcode (shift AND (CTL OR SHIFT)) data;
            c = (if shift AND CAPSLOCK \<noteq> 0 then
                   if of_char CHR ''a'' \<le> c \<and> c \<le> of_char CHR ''z'' then c + (of_char CHR ''A'' - of_char CHR ''a'')
                   else if of_char CHR ''A'' \<le> c \<and> c \<le> of_char CHR ''Z'' then c + (of_char CHR ''a'' - of_char CHR ''A'')
                   else c
                 else c)
        in (sint c, shift))"

fun kbd_poll :: "uint \<Rightarrow> (uint \<times> uint) list \<Rightarrow> int list \<times> uint" where
  "kbd_poll shift [] = ([], shift)"
| "kbd_poll shift ((st, data) # rest) =
     (let (c, shift) = kbdgetc st data shift
      in if c < 0 then ([c], shift) else let (cs, shift) = kbd_poll shift rest in (c # cs, shift))"

section \<open>Letters and modifier keys\<close>

text \<open>The keys of the letters.\<close>

definition letter_keys :: "(uint \<times> char) list" where
  "letter_keys =
     zip [0x10, 0x11, 0x12, 0x13, 0x14, 0x15, 0x16, 0x17, 0x18, 0x19] ''qwertyuiop'' @
     zip [0x1E, 0x1F, 0x20, 0x21, 0x22, 0x23, 0x24, 0x25, 0x26] ''asdfghjkl'' @
     zip [0x2C, 0x2D, 0x2E, 0x2F, 0x30, 0x31, 0x32] ''zxcvbnm''"

text \<open>What a letter key types: a control character, a capital or a small letter.\<close>

definition letter_code :: "bool \<Rightarrow> bool \<Rightarrow> char \<Rightarrow> uint" where
  "letter_code control capital ch = (if control then of_char ch - 96 else if capital then of_char ch - 32 else of_char ch)"

definition letter_ok :: "uint \<times> char \<Rightarrow> bool" where
  "letter_ok = (\<lambda>(k, ch). normalmap k = of_char ch \<and> shiftmap k = of_char ch - 32 \<and> ctlmap k = of_char ch - 96 \<and>
     shiftcode k = 0 \<and> togglecode k = 0 \<and> k AND 0x80 = 0 \<and> k \<noteq> 0xE0 \<and> 97 \<le> (of_char ch :: uint) \<and> (of_char ch :: uint) \<le> 122)"

lemma letter_keys_ok: "list_all letter_ok letter_keys"
  by code_simp

lemma letter_key:
  assumes "(k, ch) \<in> set letter_keys"
  shows "normalmap k = of_char ch" "shiftmap k = of_char ch - 32" "ctlmap k = of_char ch - 96"
    "shiftcode k = 0" "togglecode k = 0" "k AND 0x80 = 0" "k \<noteq> 0xE0" "97 \<le> (of_char ch :: uint)" "(of_char ch :: uint) \<le> 122"
  using letter_keys_ok assms by (force simp: list_all_iff letter_ok_def)+

lemma modifier_index:
  "(sh :: uint) AND 3 = (if sh AND 2 \<noteq> 0 then if sh AND 1 \<noteq> 0 then 3 else 2 else if sh AND 1 \<noteq> 0 then 1 else 0)"
proof -
  have "(3 :: uint) = 2 OR 1" by simp
  then have "sh AND 3 = (sh AND 2) OR (sh AND 1)"
    by (simp only: bit.conj_disj_distrib)
  moreover have "sh AND 1 = (if bit sh 0 then 1 else 0)" "sh AND 2 = (if bit sh 1 then 2 else 0)"
    by (rule bit_eqI; auto simp: bit_and_iff bit_1_iff bit_2_iff intro: gr0I)+
  ultimately show ?thesis by auto
qed

text \<open>
  C40: a letter key types its letter. When the Control key is down it is the control character of
  the letter; otherwise it is a capital exactly when one of Shift and Caps Lock is on but not the
  other. The state of the modifier keys does not change.
\<close>

theorem kbd_letter_correct:
  assumes "(k, ch) \<in> set letter_keys" and "st AND KBS_DIB \<noteq> 0" and "sh AND E0ESC = 0"
  shows "kbdgetc st k sh =
    (sint (letter_code (sh AND CTL \<noteq> 0) ((sh AND SHIFT \<noteq> 0) \<noteq> (sh AND CAPSLOCK \<noteq> 0)) ch), sh)"
proof -
  note k = letter_key [OF assms(1)]
  define c :: uint where "c = of_char ch"
  have c: "97 \<le> c" "c \<le> 122" using k by (simp_all add: c_def)
  have small: "\<not> (97 \<le> c - 96)" "\<not> (65 \<le> c - 96)" "\<not> (97 \<le> c - 32)" "65 \<le> c - 32" "c - 32 \<le> 90"
    using c by (simp_all add: word_le_nat_alt unat_sub)
  have lits: "of_char CHR ''a'' = (97 :: uint)" "of_char CHR ''z'' = (122 :: uint)" "of_char CHR ''A'' = (65 :: uint)"
    "of_char CHR ''Z'' = (90 :: uint)" by simp_all
  have "kbdgetc st k sh = (sint (let c = charcode (sh AND (CTL OR SHIFT)) k in
      if sh AND CAPSLOCK \<noteq> 0 then if 97 \<le> c \<and> c \<le> 122 then c - 32 else if 65 \<le> c \<and> c \<le> 90 then c + 32 else c else c), sh)"
    using assms k by (simp add: kbdgetc_def Let_def lits)
  also have "charcode (sh AND (CTL OR SHIFT)) k = (if sh AND CTL \<noteq> 0 then c - 96 else if sh AND SHIFT \<noteq> 0 then c - 32 else c)"
    using k modifier_index [of sh] by (simp add: charcode_def kbd_consts c_def)
  finally show ?thesis
    using c small by (simp add: letter_code_def Let_def c_def [symmetric])
qed

theorem kbd_letter_correct_witness:
  "kbdgetc 1 0x1E (CAPSLOCK OR CTL) = (1, CAPSLOCK OR CTL) \<and> kbdgetc 1 0x1E (CAPSLOCK OR SHIFT) = (97, CAPSLOCK OR SHIFT)"
  using kbd_letter_correct [of "0x1E" "CHR ''a''" 1 "CAPSLOCK OR CTL"] kbd_letter_correct [of "0x1E" "CHR ''a''" 1 "CAPSLOCK OR SHIFT"]
  by (simp add: letter_keys_def kbd_consts letter_code_def)

end
