(* ===== verification/Spinlock.thy ===== *)
theory Spinlock
  imports Prelude
begin

text \<open>
  spinlock.c on all CPUs at once. A CPU is either in code that uses locks (\<open>Run\<close>) or at one of the
  points of \<open>acquire\<close> and \<open>release\<close> between two accesses to shared memory; a step is one such access,
  and the steps of different CPUs interleave freely. The locks a CPU has acquired, \<open>holds\<close>, are what the
  other theories see of it: the steps change them exactly as \<open>acquire\<close> and \<open>release\<close> of theory Prelude do.
\<close>

section \<open>Interrupts\<close>

record cpu =
  ncli :: int
  intena :: bool
  if_flag :: bool

definition pushcli :: "cpu \<Rightarrow> cpu" where
  "pushcli c =
     (let eflags = if_flag c;
          c = c\<lparr>if_flag := False\<rparr>;
          c = (if ncli c = 0 then c\<lparr>intena := eflags\<rparr> else c)
      in c\<lparr>ncli := ncli c + 1\<rparr>)"

definition popcli :: "cpu \<Rightarrow> string + cpu" where
  "popcli c =
     (if if_flag c then Inl ''popcli - interruptible''
      else
        let c = c\<lparr>ncli := ncli c - 1\<rparr>
        in if ncli c < 0 then Inl ''popcli''
           else Inr (if ncli c = 0 \<and> intena c then c\<lparr>if_flag := True\<rparr> else c))"

section \<open>Locks\<close>

record spinlock =
  locked :: bool
  lk_cpu :: "nat option"

text \<open>
  The points where a CPU can be: in \<open>acquire\<close> before the two reads of \<open>holding\<close>, before the exchange
  and before the lock is marked; in \<open>release\<close> before the two reads, before the mark is cleared, before
  the lock is, and before \<open>popcli\<close>. \<open>Halt\<close> is a panic.
\<close>

datatype pc =
    Run | AcqLocked lockid | AcqCpu lockid | AcqXchg lockid | AcqMark lockid
  | RelLocked lockid | RelCpu lockid | RelUnmark lockid | RelStore lockid | RelPop | Halt string

record machine =
  locks :: "lockid \<Rightarrow> spinlock"
  cpus :: "nat \<Rightarrow> cpu"
  at :: "nat \<Rightarrow> pc"
  holds :: "nat \<Rightarrow> lockid list"

abbreviation go :: "nat \<Rightarrow> pc \<Rightarrow> machine \<Rightarrow> machine" where
  "go c p m \<equiv> m\<lparr>at := (at m)(c := p)\<rparr>"

definition cpu_push :: "nat \<Rightarrow> machine \<Rightarrow> machine" where
  "cpu_push c m = m\<lparr>cpus := (cpus m)(c := pushcli (cpus m c))\<rparr>"

text \<open>\<open>popcli\<close>, and then on to \<open>p\<close> unless it panics.\<close>

definition cpu_pop :: "nat \<Rightarrow> pc \<Rightarrow> machine \<Rightarrow> machine" where
  "cpu_pop c p m =
     (case popcli (cpus m c) of
        Inl msg \<Rightarrow> go c (Halt msg) m
      | Inr k \<Rightarrow> go c p (m\<lparr>cpus := (cpus m)(c := k)\<rparr>))"

text \<open>One access of CPU \<open>c\<close>, when it is inside \<open>acquire\<close> or \<open>release\<close>.\<close>

fun access :: "pc \<Rightarrow> nat \<Rightarrow> machine \<Rightarrow> machine" where
  "access (AcqLocked l) c m = (if locked (locks m l) then go c (AcqCpu l) m else cpu_pop c (AcqXchg l) m)"
| "access (AcqCpu l) c m = cpu_pop c (if lk_cpu (locks m l) = Some c then Halt ''acquire'' else AcqXchg l) m"
| "access (AcqXchg l) c m =
     (let old = locked (locks m l);
          m = m\<lparr>locks := (locks m)(l := (locks m l)\<lparr>locked := True\<rparr>)\<rparr>
      in if old then m else go c (AcqMark l) m)"
| "access (AcqMark l) c m =
     go c Run (m\<lparr>locks := (locks m)(l := (locks m l)\<lparr>lk_cpu := Some c\<rparr>), holds := (holds m)(c := l # holds m c)\<rparr>)"
| "access (RelLocked l) c m = (if locked (locks m l) then go c (RelCpu l) m else cpu_pop c (Halt ''release'') m)"
| "access (RelCpu l) c m = cpu_pop c (if lk_cpu (locks m l) = Some c then RelUnmark l else Halt ''release'') m"
| "access (RelUnmark l) c m =
     go c (RelStore l) (m\<lparr>locks := (locks m)(l := (locks m l)\<lparr>lk_cpu := None\<rparr>), holds := (holds m)(c := remove1 l (holds m c))\<rparr>)"
| "access (RelStore l) c m = go c RelPop (m\<lparr>locks := (locks m)(l := (locks m l)\<lparr>locked := False\<rparr>)\<rparr>)"
| "access RelPop c m = cpu_pop c Run m"
| "access Run c m = m"
| "access (Halt msg) c m = m"

inductive spin_step :: "machine \<Rightarrow> machine \<Rightarrow> bool" where
  call_acquire: "at m c = Run \<Longrightarrow> spin_step m (go c (AcqLocked l) (cpu_push c (cpu_push c m)))"
| call_release: "at m c = Run \<Longrightarrow> spin_step m (go c (RelLocked l) (cpu_push c m))"
| interrupts: "at m c = Run \<Longrightarrow> ncli (cpus m c) = 0 \<Longrightarrow> spin_step m (m\<lparr>cpus := (cpus m)(c := (cpus m c)\<lparr>if_flag := f\<rparr>)\<rparr>)"
| inside: "at m c \<noteq> Run \<Longrightarrow> spin_step m (access (at m c) c m)"

definition spin_init :: "machine \<Rightarrow> bool" where
  "spin_init m \<longleftrightarrow> (\<forall>l. locks m l = \<lparr>locked = False, lk_cpu = None\<rparr>) \<and> (\<forall>c. ncli (cpus m c) = 0 \<and> at m c = Run \<and> holds m c = [])"

inductive spin_reach :: "machine \<Rightarrow> bool" where
  start: "spin_init m \<Longrightarrow> spin_reach m"
| more: "spin_reach m \<Longrightarrow> spin_step m m' \<Longrightarrow> spin_reach m'"

section \<open>Invariant\<close>

text \<open>CPU \<open>c\<close> has the lock in the sense that its exchange has found it free and it has not stored 0 yet.\<close>

definition owns :: "machine \<Rightarrow> lockid \<Rightarrow> nat \<Rightarrow> bool" where
  "owns m l c \<longleftrightarrow> l \<in> set (holds m c) \<or> at m c = AcqMark l \<or> at m c = RelStore l"

text \<open>The depth of \<open>pushcli\<close> that belongs to a point of the code, besides one for every lock held.\<close>

fun depth :: "pc \<Rightarrow> int option" where
  "depth (AcqLocked l) = Some 2" | "depth (AcqCpu l) = Some 2" | "depth (AcqXchg l) = Some 1" | "depth (AcqMark l) = Some 1"
| "depth (RelLocked l) = Some 1" | "depth (RelCpu l) = Some 1" | "depth (RelUnmark l) = Some 0" | "depth (RelStore l) = Some 1"
| "depth RelPop = Some 1" | "depth Run = Some 0" | "depth (Halt msg) = None"

definition locks_ok :: "machine \<Rightarrow> bool" where
  "locks_ok m \<longleftrightarrow>
     (\<forall>l c. owns m l c \<longrightarrow> locked (locks m l)) \<and>
     (\<forall>l c d. owns m l c \<longrightarrow> owns m l d \<longrightarrow> c = d) \<and>
     (\<forall>l c. lk_cpu (locks m l) = Some c \<longleftrightarrow> l \<in> set (holds m c)) \<and>
     (\<forall>l c. at m c = RelUnmark l \<longrightarrow> l \<in> set (holds m c)) \<and>
     (\<forall>l c. at m c = AcqMark l \<or> at m c = RelStore l \<longrightarrow> l \<notin> set (holds m c)) \<and>
     (\<forall>c. distinct (holds m c))"

definition cpus_ok :: "machine \<Rightarrow> bool" where
  "cpus_ok m \<longleftrightarrow>
     (\<forall>c k. depth (at m c) = Some k \<longrightarrow> ncli (cpus m c) = int (length (holds m c)) + k) \<and>
     (\<forall>c. (\<forall>msg. at m c \<noteq> Halt msg) \<longrightarrow> 0 < ncli (cpus m c) \<longrightarrow> \<not> if_flag (cpus m c)) \<and>
     (\<forall>c msg. at m c = Halt msg \<longrightarrow> msg = ''acquire'' \<or> msg = ''release'')"

text \<open>Moving CPU \<open>c\<close> between points that say nothing about the locks.\<close>

definition neutral :: "pc \<Rightarrow> bool" where
  "neutral p \<longleftrightarrow> (\<forall>l. p \<noteq> AcqMark l \<and> p \<noteq> RelStore l \<and> p \<noteq> RelUnmark l)"

lemma locks_ok_move:
  assumes "locks_ok m" and "locks m' = locks m" and "holds m' = holds m" and "at m' = (at m)(c := p)"
    and "\<And>l. at m c \<noteq> AcqMark l \<and> at m c \<noteq> RelStore l"
    and "neutral p \<or> (\<exists>l. p = RelUnmark l \<and> l \<in> set (holds m c))"
  shows "locks_ok m'"
proof -
  have o: "owns m' l d \<longleftrightarrow> owns m l d" for l d
    using assms(3-6) by (auto simp: owns_def neutral_def)
  show ?thesis using assms(1) assms(2-6) unfolding locks_ok_def o by (auto simp: neutral_def)
qed

lemma popcli_ok:
  assumes "0 < ncli k" and "\<not> if_flag k"
  obtains k' where "popcli k = Inr k'" and "ncli k' = ncli k - 1" and "0 < ncli k' \<Longrightarrow> \<not> if_flag k'"
  using assms that by (auto simp: popcli_def Let_def split: if_splits)

lemma pushcli_ok:
  assumes "0 \<le> ncli k"
  shows "ncli (pushcli k) = ncli k + 1" "\<not> if_flag (pushcli k)"
  by (simp_all add: pushcli_def Let_def)

lemma cpus_ok_upd:
  assumes "cpus_ok m" and "at m' = (at m)(c := p)" and "cpus m' = (cpus m)(c := k)" and "\<And>d. d \<noteq> c \<Longrightarrow> holds m' d = holds m d"
    and "\<And>n. depth p = Some n \<Longrightarrow> ncli k = int (length (holds m' c)) + n"
    and "(\<forall>msg. p \<noteq> Halt msg) \<Longrightarrow> 0 < ncli k \<Longrightarrow> \<not> if_flag k" and "\<And>msg. p = Halt msg \<Longrightarrow> msg = ''acquire'' \<or> msg = ''release''"
  shows "cpus_ok m'"
  unfolding cpus_ok_def
proof (intro conjI allI impI)
  fix d n
  show "ncli (cpus m' d) = int (length (holds m' d)) + n" if "depth (at m' d) = Some n"
    using that assms(1-5) by (cases "d = c") (auto simp: cpus_ok_def)
next
  fix d
  show "\<not> if_flag (cpus m' d)" if "\<forall>msg. at m' d \<noteq> Halt msg" "0 < ncli (cpus m' d)"
    using that assms(1-3,6) by (cases "d = c") (auto simp: cpus_ok_def)
next
  fix d msg
  show "msg = ''acquire'' \<or> msg = ''release''" if "at m' d = Halt msg"
    using that assms(1,2,7) by (cases "d = c") (auto simp: cpus_ok_def)
qed

lemma cpu_pop_ok:
  assumes "cpus_ok m" and "locks_ok m" and "depth (at m c) = Some n" and "0 < n" and "\<And>l. at m c \<noteq> AcqMark l \<and> at m c \<noteq> RelStore l"
    and "neutral p \<or> (\<exists>l. p = RelUnmark l \<and> l \<in> set (holds m c))"
    and "depth p = Some (n - 1) \<or> (\<exists>msg. p = Halt msg \<and> (msg = ''acquire'' \<or> msg = ''release''))"
  shows "cpus_ok (cpu_pop c p m)" and "locks_ok (cpu_pop c p m)" and "holds (cpu_pop c p m) = holds m"
proof -
  have n: "ncli (cpus m c) = int (length (holds m c)) + n" using assms(1,3) by (simp add: cpus_ok_def)
  have "\<forall>msg. at m c \<noteq> Halt msg" using assms(3) by auto
  then have f: "\<not> if_flag (cpus m c)" using assms(1,4) n by (simp add: cpus_ok_def)
  obtain k where k: "popcli (cpus m c) = Inr k" "ncli k = ncli (cpus m c) - 1" "0 < ncli k \<Longrightarrow> \<not> if_flag k"
    using popcli_ok [of "cpus m c"] n assms(4) f by auto
  have e: "cpu_pop c p m = go c p (m\<lparr>cpus := (cpus m)(c := k)\<rparr>)" by (simp add: cpu_pop_def k(1))
  show "holds (cpu_pop c p m) = holds m" by (simp add: e)
  show "locks_ok (cpu_pop c p m)" unfolding e by (rule locks_ok_move [OF assms(2)]) (use assms(5,6) in auto)
  show "cpus_ok (cpu_pop c p m)" unfolding e
    by (rule cpus_ok_upd [OF assms(1)]) (use k n assms(7) in auto)
qed

lemma locks_okD:
  assumes "locks_ok m"
  shows "owns m l c \<Longrightarrow> locked (locks m l)" and "owns m l c \<Longrightarrow> owns m l d \<Longrightarrow> c = d"
    and "lk_cpu (locks m l) = Some c \<longleftrightarrow> l \<in> set (holds m c)" and "at m c = RelUnmark l \<Longrightarrow> l \<in> set (holds m c)"
    and "at m c = AcqMark l \<or> at m c = RelStore l \<Longrightarrow> l \<notin> set (holds m c)" and "distinct (holds m c)"
  using assms unfolding locks_ok_def by blast+

lemma xchg_ok:
  assumes "locks_ok m" and "at m c = AcqXchg l" and "\<not> locked (locks m l)"
  shows "locks_ok (go c (AcqMark l) (m\<lparr>locks := (locks m)(l := (locks m l)\<lparr>locked := True\<rparr>)\<rparr>))" (is "locks_ok ?m")
proof -
  note I = locks_okD [OF assms(1)]
  have no: "\<not> owns m l d" for d using I(1) assms(3) by blast
  have o: "owns ?m l' d \<longleftrightarrow> owns m l' d \<or> l' = l \<and> d = c" for l' d
    using assms(2) by (auto simp: owns_def)
  have nh: "l \<notin> set (holds m d)" for d using no [of d] by (simp add: owns_def)
  show ?thesis
    unfolding locks_ok_def o using I no nh by (auto split: if_splits)
qed

lemma mark_ok:
  assumes "locks_ok m" and "at m c = AcqMark l"
  shows "locks_ok (go c Run (m\<lparr>locks := (locks m)(l := (locks m l)\<lparr>lk_cpu := Some c\<rparr>), holds := (holds m)(c := l # holds m c)\<rparr>))" (is "locks_ok ?m")
proof -
  note I = locks_okD [OF assms(1)]
  have c: "owns m l c" using assms(2) by (simp add: owns_def)
  have o: "owns ?m l' d \<longleftrightarrow> owns m l' d" for l' d using assms(2) by (auto simp: owns_def)
  have nh: "l \<notin> set (holds m d)" for d using I(2) [OF c, of d] I(5) [of c l] assms(2) by (auto simp: owns_def)
  show ?thesis
    unfolding locks_ok_def o using I nh I(2) [OF c] by (auto simp: owns_def split: if_splits)
qed

lemma unmark_ok:
  assumes "locks_ok m" and "at m c = RelUnmark l"
  shows "locks_ok (go c (RelStore l) (m\<lparr>locks := (locks m)(l := (locks m l)\<lparr>lk_cpu := None\<rparr>), holds := (holds m)(c := remove1 l (holds m c))\<rparr>))"
    (is "locks_ok ?m")
proof -
  note I = locks_okD [OF assms(1)]
  have h: "l \<in> set (holds m c)" using I(4) assms(2) by blast
  then have c: "owns m l c" by (simp add: owns_def)
  have o: "owns ?m l' d \<longleftrightarrow> owns m l' d" for l' d using assms(2) h I(6) [of c] by (auto simp: owns_def set_remove1_eq)
  have nh: "l \<notin> set (holds m d)" if "d \<noteq> c" for d using that I(2) [OF c, of d] by (auto simp: owns_def)
  have oth: "at m d \<noteq> RelUnmark l" if "d \<noteq> c" for d using nh [OF that] I(4) by blast
  show ?thesis
    unfolding locks_ok_def o using I nh oth I(6) [of c] by (auto simp: set_remove1_eq split: if_splits)
qed

lemma store_ok:
  assumes "locks_ok m" and "at m c = RelStore l"
  shows "locks_ok (go c RelPop (m\<lparr>locks := (locks m)(l := (locks m l)\<lparr>locked := False\<rparr>)\<rparr>))" (is "locks_ok ?m")
proof -
  note I = locks_okD [OF assms(1)]
  have c: "owns m l c" using assms(2) by (simp add: owns_def)
  have nh: "l \<notin> set (holds m c)" using I(5) assms(2) by blast
  have o: "owns ?m l' d \<longleftrightarrow> owns m l' d \<and> (l' \<noteq> l \<or> d \<noteq> c)" for l' d using assms(2) nh by (auto simp: owns_def)
  show ?thesis
    unfolding locks_ok_def o using I I(2) [OF c] by (auto split: if_splits)
qed

text \<open>Every access keeps the invariant.\<close>

lemma access_ok:
  assumes "locks_ok m" and "cpus_ok m" and "at m c \<noteq> Run"
  shows "locks_ok (access (at m c) c m) \<and> cpus_ok (access (at m c) c m)"
proof -
  note I = locks_okD [OF assms(1)]
  have n: "ncli (cpus m c) = int (length (holds m c)) + k" if "depth (at m c) = Some k" for k
    using that assms(2) by (simp add: cpus_ok_def)
  have f: "\<not> if_flag (cpus m c)" if "\<forall>msg. at m c \<noteq> Halt msg" "0 < ncli (cpus m c)"
    using that assms(2) by (simp add: cpus_ok_def)
  have same: "(cpus m)(c := cpus m c) = cpus m" by simp
  have go: "cpus_ok m'" if "at m' = (at m)(c := p)" "cpus m' = cpus m" "\<And>d. d \<noteq> c \<Longrightarrow> holds m' d = holds m d"
    "\<forall>msg. at m c \<noteq> Halt msg" "\<forall>msg. p \<noteq> Halt msg"
    "\<And>k. depth p = Some k \<Longrightarrow> ncli (cpus m c) = int (length (holds m' c)) + k" for p m'
    by (rule cpus_ok_upd [OF assms(2) that(1), of "cpus m c"]) (use that f in \<open>auto simp: same\<close>)
  show ?thesis
  proof (cases "at m c")
    case (AcqLocked l)
    then show ?thesis
      using cpu_pop_ok [OF assms(2,1), of c 2 "AcqXchg l"] n
      by (auto simp: neutral_def intro!: locks_ok_move [OF assms(1), of _ c "AcqCpu l"] go [of _ "AcqCpu l"])
  next
    case (AcqCpu l)
    then show ?thesis
      using cpu_pop_ok [OF assms(2,1), of c 2] by (auto simp: neutral_def)
  next
    case (AcqXchg l)
    have "m\<lparr>locks := (locks m)(l := (locks m l)\<lparr>locked := True\<rparr>)\<rparr> = m" if "locked (locks m l)"
    proof -
      have "(locks m l)\<lparr>locked := True\<rparr> = locks m l" using that by simp
      then show ?thesis by simp
    qed
    then show ?thesis
      using AcqXchg assms xchg_ok [OF assms(1) AcqXchg] n by (auto simp: Let_def intro!: go [of _ "AcqMark l"])
  next
    case (AcqMark l)
    then show ?thesis using mark_ok [OF assms(1) AcqMark] n by (auto intro!: go [of _ Run])
  next
    case (RelLocked l)
    then show ?thesis
      using cpu_pop_ok [OF assms(2,1), of c 1 "Halt ''release''"] n
      by (auto simp: neutral_def intro!: locks_ok_move [OF assms(1), of _ c "RelCpu l"] go [of _ "RelCpu l"])
  next
    case (RelCpu l)
    then show ?thesis
      using cpu_pop_ok [OF assms(2,1), of c 1] I(3) by (auto simp: neutral_def)
  next
    case (RelUnmark l)
    have "length (holds m c) = Suc (length (remove1 l (holds m c)))"
      using length_pos_if_in_set [OF I(4) [OF RelUnmark]] I(4) [OF RelUnmark] by (simp add: length_remove1)
    then show ?thesis using RelUnmark unmark_ok [OF assms(1) RelUnmark] n by (auto intro!: go [of _ "RelStore l"])
  next
    case (RelStore l)
    then show ?thesis using store_ok [OF assms(1) RelStore] n by (auto intro!: go [of _ RelPop])
  next
    case RelPop
    then show ?thesis using cpu_pop_ok [OF assms(2,1), of c 1 Run] by (auto simp: neutral_def)
  qed (use assms in auto)
qed

lemma spin_step_ok:
  assumes "spin_step m m'" and "locks_ok m" and "cpus_ok m"
  shows "locks_ok m' \<and> cpus_ok m'"
  using assms(1)
proof cases
  case (call_acquire c l)
  have n: "ncli (cpus m c) = int (length (holds m c))" using assms(3) call_acquire(2) by (simp add: cpus_ok_def)
  have k: "ncli (pushcli (pushcli (cpus m c))) = int (length (holds m c)) + 2" "\<not> if_flag (pushcli (pushcli (cpus m c)))"
    using pushcli_ok [of "cpus m c"] pushcli_ok [of "pushcli (cpus m c)"] n by auto
  have "locks_ok m'" unfolding call_acquire(1)
    by (rule locks_ok_move [OF assms(2), of _ c "AcqLocked l"]) (use call_acquire(2) in \<open>auto simp: cpu_push_def neutral_def\<close>)
  moreover have "cpus_ok m'" unfolding call_acquire(1)
    by (rule cpus_ok_upd [OF assms(3), of _ c "AcqLocked l" "pushcli (pushcli (cpus m c))"]) (use k in \<open>auto simp: cpu_push_def\<close>)
  ultimately show ?thesis ..
next
  case (call_release c l)
  have n: "ncli (cpus m c) = int (length (holds m c))" using assms(3) call_release(2) by (simp add: cpus_ok_def)
  have k: "ncli (pushcli (cpus m c)) = int (length (holds m c)) + 1" "\<not> if_flag (pushcli (cpus m c))"
    using pushcli_ok [of "cpus m c"] n by auto
  have "locks_ok m'" unfolding call_release(1)
    by (rule locks_ok_move [OF assms(2), of _ c "RelLocked l"]) (use call_release(2) in \<open>auto simp: cpu_push_def neutral_def\<close>)
  moreover have "cpus_ok m'" unfolding call_release(1)
    by (rule cpus_ok_upd [OF assms(3), of _ c "RelLocked l" "pushcli (cpus m c)"]) (use k in \<open>auto simp: cpu_push_def\<close>)
  ultimately show ?thesis ..
next
  case (interrupts c f)
  have n: "ncli (cpus m c) = int (length (holds m c))" using assms(3) interrupts(2) by (simp add: cpus_ok_def)
  have at: "(at m)(c := Run) = at m" using interrupts(2) by auto
  have "locks_ok m'" unfolding interrupts(1)
    by (rule locks_ok_move [OF assms(2), of _ c Run]) (use interrupts(2) at in \<open>auto simp: neutral_def\<close>)
  moreover have "cpus_ok m'" unfolding interrupts(1)
    by (rule cpus_ok_upd [OF assms(3), of _ c Run "(cpus m c)\<lparr>if_flag := f\<rparr>"]) (use n interrupts(3) at in auto)
  ultimately show ?thesis ..
next
  case (inside c)
  then show ?thesis using access_ok [OF assms(2,3)] by simp
qed

lemma spin_reach_ok: "spin_reach m \<Longrightarrow> locks_ok m \<and> cpus_ok m"
proof (induction rule: spin_reach.induct)
  case (start m)
  then show ?case by (auto simp: spin_init_def locks_ok_def cpus_ok_def owns_def)
next
  case (more m m')
  then show ?case using spin_step_ok by blast
qed

section \<open>Properties\<close>

text \<open>
  C36: spin locks exclude each other on any number of CPUs. In every state that can be reached, however the accesses
  of the CPUs interleave, a lock is held by at most one CPU, a CPU that holds a lock has its interrupts off, outside
  the two routines the depth of \<open>pushcli\<close> is the number of locks held, and \<open>popcli\<close> never panics.
\<close>

theorem spin_mutual_exclusion:
  assumes "spin_reach m"
  shows "(l \<in> set (holds m c) \<and> l \<in> set (holds m d) \<longrightarrow> c = d)
    \<and> (holds m c \<noteq> [] \<and> at m c = Run \<longrightarrow> \<not> if_flag (cpus m c))
    \<and> (at m c = Run \<longrightarrow> ncli (cpus m c) = int (length (holds m c)))
    \<and> at m c \<noteq> Halt ''popcli'' \<and> at m c \<noteq> Halt ''popcli - interruptible''"
proof -
  have I: "locks_ok m" "cpus_ok m" using spin_reach_ok [OF assms] by auto
  have "ncli (cpus m c) = int (length (holds m c))" if "at m c = Run" using that I(2) by (simp add: cpus_ok_def)
  moreover from this have "\<not> if_flag (cpus m c)" if "at m c = Run" "holds m c \<noteq> []" using that I(2) by (simp add: cpus_ok_def)
  moreover have "at m c \<noteq> Halt ''popcli''" "at m c \<noteq> Halt ''popcli - interruptible''" using I(2) by (auto simp: cpus_ok_def)
  moreover have "c = d" if "l \<in> set (holds m c)" "l \<in> set (holds m d)"
    using that locks_okD(2) [OF I(1), of l c d] by (simp add: owns_def)
  ultimately show ?thesis by blast
qed


text \<open>Two CPUs on which nobody has done anything yet.\<close>

definition machine0 :: machine where
  "machine0 = \<lparr>locks = (\<lambda>_. \<lparr>locked = False, lk_cpu = None\<rparr>), cpus = (\<lambda>_. \<lparr>ncli = 0, intena = False, if_flag = True\<rparr>),
     at = (\<lambda>_. Run), holds = (\<lambda>_. [])\<rparr>"

text \<open>The exchange of CPU 0 has found the lock of the process table free; then it has acquired it.\<close>

definition machine_got :: machine where
  "machine_got = access (AcqXchg PtableLk) 0 (access (AcqLocked PtableLk) 0
     (go 0 (AcqLocked PtableLk) (cpu_push 0 (cpu_push 0 machine0))))"

definition machine1 :: machine where
  "machine1 = access (AcqMark PtableLk) 0 machine_got"

lemmas spin_eval = machine1_def machine_got_def machine0_def cpu_push_def pushcli_def cpu_pop_def popcli_def Let_def

lemma machine1_reach: "spin_reach machine_got" "spin_step machine_got machine1"
proof -
  have 0: "spin_reach machine0" by (rule start) (simp add: spin_init_def machine0_def)
  let ?a = "go 0 (AcqLocked PtableLk) (cpu_push 0 (cpu_push 0 machine0))"
  have 1: "spin_reach ?a" by (rule more [OF 0]) (rule call_acquire, simp add: machine0_def)
  have a: "at ?a 0 = AcqLocked PtableLk" by simp
  have 2: "spin_reach (access (AcqLocked PtableLk) 0 ?a)" using more [OF 1 inside [of ?a 0]] a by simp
  have b: "at (access (AcqLocked PtableLk) 0 ?a) 0 = AcqXchg PtableLk" by (simp add: spin_eval)
  show "spin_reach machine_got" unfolding machine_got_def
    using more [OF 2 inside [of "access (AcqLocked PtableLk) 0 ?a" 0]] b by simp
  have c: "at machine_got 0 = AcqMark PtableLk" by (simp add: spin_eval)
  show "spin_step machine_got machine1" unfolding machine1_def using inside [of machine_got 0] c by simp
qed

theorem spin_mutual_exclusion_witness:
  "PtableLk \<in> set (holds machine1 0) \<and> \<not> if_flag (cpus machine1 0) \<and> PtableLk \<notin> set (holds machine1 1)"
proof -
  have h: "holds machine1 0 = [PtableLk]" "at machine1 0 = Run" by (simp_all add: spin_eval)
  have r: "spin_reach machine1" by (rule more [OF machine1_reach])
  show ?thesis
    using spin_mutual_exclusion [OF r, of PtableLk 0 1] h by auto
qed


end
