(* ===== verification/Sh.thy ===== *)
theory Sh
  imports Prelude
begin

text \<open>
  The parser of the shell, sh.c. A line is the text of the C string, without the null character that
  ends it. The pointer into the line that the C functions advance is here the rest of the line; a token,
  in C the two pointers around it, is its text, which is what \<open>nulterminate\<close> makes of it. A syntax error,
  where the shell prints a message and exits, is the left result with this message. \<open>malloc\<close> is taken to
  succeed, as the source does without a check. The functions call each other on shorter and shorter rests;
  the model counts the calls, and \<open>None\<close> is a count that was too low.
\<close>

section \<open>Commands\<close>

definition MAXARGS :: nat where "MAXARGS = 20"

datatype cmd =
    EXEC "string list"
  | REDIR cmd string uint nat
  | PIPE cmd cmd
  | LIST cmd cmd
  | BACK cmd

section \<open>Tokens\<close>

definition whitespace :: string where
  "whitespace = [CHR 0x20, CHR 0x09, CHR 0x0D, CHR 0x0A, CHR 0x0B]"

definition symbols :: string where
  "symbols = ''<|>&;()''"

abbreviation skip :: "string \<Rightarrow> string" where
  "skip s \<equiv> dropWhile (\<lambda>c. c \<in> set whitespace) s"

text \<open>The kind of the token, its text, and the rest of the line.\<close>

definition gettoken :: "string \<Rightarrow> char \<times> string \<times> string" where
  "gettoken s =
     (case skip s of
        [] \<Rightarrow> (CHR 0x00, [], [])
      | c # s' \<Rightarrow>
          if c \<in> set ''|();&<'' then (c, [c], skip s')
          else if c = CHR ''>'' then
            (case s' of
               [] \<Rightarrow> (c, [c], [])
             | d # s'' \<Rightarrow> if d = CHR ''>'' then (CHR ''+'', [c, d], skip s'') else (c, [c], skip s'))
          else
            let w = takeWhile (\<lambda>c. c \<notin> set whitespace \<and> c \<notin> set symbols) (c # s')
            in (CHR ''a'', w, skip (drop (length w) (c # s'))))"

abbreviation behind :: "string \<Rightarrow> string" where
  "behind s \<equiv> snd (snd (gettoken s))"

definition peek :: "string \<Rightarrow> string \<Rightarrow> bool \<times> string" where
  "peek s toks = (let s = skip s in (s \<noteq> [] \<and> hd s \<in> set toks, s))"

section \<open>The parser\<close>

type_synonym 'a presult = "(string + 'a \<times> string) option"

abbreviation good :: "'a \<Rightarrow> string \<Rightarrow> 'a presult" where
  "good a s \<equiv> Some (Inr (a, s))"

abbreviation syntax_error :: "string \<Rightarrow> 'a presult" where
  "syntax_error e \<equiv> Some (Inl e)"

definition bindP :: "'a presult \<Rightarrow> ('a \<Rightarrow> string \<Rightarrow> 'b presult) \<Rightarrow> 'b presult" where
  "bindP m f = (case m of None \<Rightarrow> None | Some (Inl e) \<Rightarrow> Some (Inl e) | Some (Inr (a, s)) \<Rightarrow> f a s)"

lemma bindP_simps [simp]:
  "bindP None f = None" "bindP (syntax_error e) f = syntax_error e" "bindP (good a s) f = f a s"
  by (simp_all add: bindP_def)

text \<open>
  \<open>parseredirs\<close>: the redirections, each with the file, the mode and the descriptor, wrapped around the command in
  their order. \<open>parseexec\<close> goes on to fill in the arguments of the innermost command, so the redirections are collected.
\<close>

fun parseredirs :: "nat \<Rightarrow> (string \<times> uint \<times> nat) list \<Rightarrow> string \<Rightarrow> (string \<times> uint \<times> nat) list presult" where
  "parseredirs 0 rs s = None"
| "parseredirs (Suc n) rs s =
     (let (b, s) = peek s ''<>''
      in if b then
           let (tok, _, s) = gettoken s; (kind, file, s) = gettoken s
           in if kind \<noteq> CHR ''a'' then syntax_error ''missing file for redirection''
              else parseredirs n (rs @ [if tok = CHR ''<'' then (file, 0x000, 0) else (file, 0x201, 1)]) s
         else good rs s)"

definition redircmd :: "cmd \<Rightarrow> string \<times> uint \<times> nat \<Rightarrow> cmd" where
  "redircmd c = (\<lambda>(file, mode, fd). REDIR c file mode fd)"

fun execargs :: "nat \<Rightarrow> string list \<Rightarrow> (string \<times> uint \<times> nat) list \<Rightarrow> string \<Rightarrow> cmd presult" where
  "execargs 0 args rs s = None"
| "execargs (Suc n) args rs s =
     (let (b, s) = peek s ''|)&;''
      in if b then good (foldl redircmd (EXEC args) rs) s
         else
           let (tok, w, s) = gettoken s
           in if tok = CHR 0x00 then good (foldl redircmd (EXEC args) rs) s
              else if tok \<noteq> CHR ''a'' then syntax_error ''syntax''
              else if length (args @ [w]) \<ge> MAXARGS then syntax_error ''too many args''
              else bindP (parseredirs n rs s) (\<lambda>rs s. execargs n (args @ [w]) rs s))"

text \<open>\<open>while(peek(ps, es, "&")) \{ gettoken(ps, es, 0, 0); cmd = backcmd(cmd); \}\<close>\<close>

fun parsebacks :: "nat \<Rightarrow> cmd \<Rightarrow> string \<Rightarrow> cmd presult" where
  "parsebacks 0 c s = None"
| "parsebacks (Suc n) c s =
     (let (b, s) = peek s ''&'' in if b then parsebacks n (BACK c) (behind s) else good c s)"

fun parseline :: "nat \<Rightarrow> string \<Rightarrow> cmd presult"
  and parsepipe :: "nat \<Rightarrow> string \<Rightarrow> cmd presult"
  and parseexec :: "nat \<Rightarrow> string \<Rightarrow> cmd presult"
  and parseblock :: "nat \<Rightarrow> string \<Rightarrow> cmd presult" where
  "parseline 0 s = None"
| "parseline (Suc n) s =
     bindP (parsepipe n s) (\<lambda>c s.
     bindP (parsebacks n c s) (\<lambda>c s.
     let (b, s) = peek s '';''
     in if b then bindP (parseline n (behind s)) (\<lambda>r s. good (LIST c r) s) else good c s))"
| "parsepipe 0 s = None"
| "parsepipe (Suc n) s =
     bindP (parseexec n s) (\<lambda>c s.
     let (b, s) = peek s ''|''
     in if b then bindP (parsepipe n (behind s)) (\<lambda>r s. good (PIPE c r) s) else good c s)"
| "parseexec 0 s = None"
| "parseexec (Suc n) s =
     (let (b, s) = peek s ''(''
      in if b then parseblock n s
         else bindP (parseredirs n [] s) (\<lambda>rs s. execargs n [] rs s))"
| "parseblock 0 s = None"
| "parseblock (Suc n) s =
     (let (b, s) = peek s ''(''
      in if \<not> b then syntax_error ''parseblock''
         else bindP (parseline n (behind s)) (\<lambda>c s.
           let (b, s) = peek s '')''
           in if \<not> b then syntax_error ''syntax - missing )''
              else bindP (parseredirs n [] (behind s)) (\<lambda>rs s. good (foldl redircmd c rs) s)))"

definition parsecmd :: "string \<Rightarrow> (string + cmd) option" where
  "parsecmd s =
     (case parseline (4 * length s + 5) s of
        None \<Rightarrow> None
      | Some (Inl e) \<Rightarrow> Some (Inl e)
      | Some (Inr (c, s)) \<Rightarrow> if snd (peek s []) \<noteq> [] then Some (Inl ''syntax'') else Some (Inr c))"

section \<open>The parser always answers\<close>

declare dropWhile_eq_Nil_conv [simp del]

lemma length_skip: "length (skip s) \<le> length s"
  by (rule length_dropWhile_le)

lemma peek_iff: "peek s toks = (skip s \<noteq> [] \<and> hd (skip s) \<in> set toks, skip s)"
  by (simp add: peek_def Let_def)

lemma gettoken_shorter: "s \<noteq> [] \<Longrightarrow> length (behind s) < length s"
proof (cases "skip s")
  case Nil
  assume "s \<noteq> []"
  then show ?thesis unfolding gettoken_def Nil by simp
next
  case (Cons c s')
  have l: "length s' < length s" using length_skip [of s] by (simp add: Cons)
  have m: "length (skip x) < length s" if "length x \<le> length s'" for x using that length_skip [of x] l by linarith
  have w: "0 < length (takeWhile (\<lambda>c. c \<notin> set whitespace \<and> c \<notin> set symbols) (c # s'))"
    if "c \<notin> set ''|();&<''" "c \<noteq> CHR ''>''"
  proof -
    have "c \<notin> set whitespace" using hd_dropWhile [of "\<lambda>c. c \<in> set whitespace" s] Cons by auto
    then show ?thesis using that by (simp add: symbols_def)
  qed
  have d: "length (drop k (c # s')) \<le> length s'" if "0 < k" for k using that by simp
  show ?thesis
    unfolding gettoken_def Cons list.case
    using m [of s'] m [of "tl s'"] l w d
    by (auto simp: Let_def split: list.split intro!: m simp del: length_drop drop_Cons takeWhile.simps)
qed

definition okP :: "nat \<Rightarrow> 'a presult \<Rightarrow> bool" where
  "okP k r = (case r of None \<Rightarrow> False | Some (Inl e) \<Rightarrow> True | Some (Inr (a, s)) \<Rightarrow> length s \<le> k)"

lemma okP_simps [simp]: "\<not> okP k None" "okP k (syntax_error e)" "okP k (good a s) \<longleftrightarrow> length s \<le> k"
  by (simp_all add: okP_def)

lemma okP_bind:
  assumes "okP j m" and "\<And>a s. length s \<le> j \<Longrightarrow> okP k (f a s)"
  shows "okP k (bindP m f)"
proof (cases m)
  case (Some r)
  then show ?thesis using assms by (cases r) auto
qed (use assms in simp)

lemma okP_mono: "okP j r \<Longrightarrow> j \<le> k \<Longrightarrow> okP k r"
  by (auto simp: okP_def split: option.splits sum.splits)

lemma okP_redirs: "length s < n \<Longrightarrow> okP (length s) (parseredirs n rs s)"
proof (induction n arbitrary: rs s)
  case (Suc n)
  have "okP (length s) (parseredirs n rs' (behind (behind (skip s))))" if "skip s \<noteq> []" "behind (skip s) \<noteq> []" for rs'
  proof -
    have "length (behind (behind (skip s))) < length s"
      using gettoken_shorter [OF that(1)] gettoken_shorter [OF that(2)] length_skip [of s] by linarith
    then show ?thesis using Suc.prems by (intro okP_mono [OF Suc.IH]) simp_all
  qed
  moreover have "fst (gettoken []) \<noteq> CHR ''a''" by (simp add: gettoken_def)
  ultimately show ?case using length_skip [of s]
    by (auto simp: peek_iff case_prod_beta Let_def) metis+
qed simp

lemma behind_skip: "skip s \<noteq> [] \<Longrightarrow> length (behind (skip s)) < length s"
  using gettoken_shorter [of "skip s"] length_skip [of s] by linarith

lemma gettoken_Nil: "gettoken [] = (CHR 0x00, [], [])"
  by (simp add: gettoken_def)

lemma behind_skip_le: "length (behind (skip s)) \<le> length s"
proof (cases "skip s = []")
  case True
  then show ?thesis unfolding True gettoken_Nil by simp
qed (use behind_skip [of s] in simp)

lemma okP_execargs: "length s < n \<Longrightarrow> okP (length s) (execargs n args rs s)"
proof (induction n arbitrary: args rs s)
  case (Suc n)
  have "okP (length s) (bindP (parseredirs n rs (behind (skip s))) (\<lambda>rs s. execargs n args' rs s))" if "skip s \<noteq> []" for args'
  proof (rule okP_bind)
    have b: "length (behind (skip s)) < length s" by (rule behind_skip [OF that])
    then show "okP (length (behind (skip s))) (parseredirs n rs (behind (skip s)))" using Suc.prems by (intro okP_redirs) simp
    show "okP (length s) (execargs n args' rs' s')" if "length s' \<le> length (behind (skip s))" for rs' s'
      using that b Suc.prems by (intro okP_mono [OF Suc.IH]) simp_all
  qed
  moreover have "length (behind (skip s)) \<le> length s" by (rule behind_skip_le)
  moreover have "fst (gettoken (skip s)) = CHR 0x00" if "skip s = []" unfolding that gettoken_Nil by simp
  ultimately show ?case using length_skip [of s]
    by (cases "skip s = []") (simp_all add: peek_iff case_prod_beta Let_def)
qed simp

lemma okP_backs: "length s < n \<Longrightarrow> okP (length s) (parsebacks n c s)"
proof (induction n arbitrary: c s)
  case (Suc n)
  have "okP (length s) (parsebacks n (BACK c) (behind (skip s)))" if "skip s \<noteq> []"
    using behind_skip [OF that] Suc.prems by (intro okP_mono [OF Suc.IH]) simp_all
  then show ?case using length_skip [of s] by (simp add: peek_iff Let_def)
qed simp

lemma parser_total:
  "4 * length s + 4 \<le> n \<Longrightarrow> okP (length s) (parseline n s)"
  "4 * length s + 3 \<le> n \<Longrightarrow> okP (length s) (parsepipe n s)"
  "4 * length s + 2 \<le> n \<Longrightarrow> okP (length s) (parseexec n s)"
  "4 * length s + 1 \<le> n \<Longrightarrow> okP (length s) (parseblock n s)"
proof (induction n arbitrary: s)
  case (Suc n)
  {
    case 1
    have P: "okP (length s) (parsepipe n s)" using 1 by (intro Suc.IH) simp
    have R: "okP (length s) (parseline n (behind (skip s')))" if "length s' \<le> length s" "skip s' \<noteq> []" for s'
      using that behind_skip [of s'] 1 by (intro okP_mono [OF Suc.IH(1)]) simp_all
    have B: "okP (length s) (parsebacks n c s')" if "length s' \<le> length s" for c s'
      using that 1 by (intro okP_mono [OF okP_backs]) simp_all
    show ?case unfolding parseline.simps
    proof (intro okP_bind [OF P] okP_bind [OF B])
      fix c and s' :: string assume l: "length s' \<le> length s"
      show "okP (length s) (let (b, s) = peek s' '';'' in if b then bindP (parseline n (behind s)) (\<lambda>r s. good (LIST c r) s) else good c s)"
        using l length_skip [of s'] by (auto simp: peek_iff intro: okP_bind [OF R])
    qed
  next
    case 2
    have P: "okP (length s) (parseexec n s)" using 2 by (intro Suc.IH) simp
    have R: "okP (length s) (parsepipe n (behind (skip s')))" if "length s' \<le> length s" "skip s' \<noteq> []" for s'
      using that behind_skip [of s'] 2 by (intro okP_mono [OF Suc.IH(2)]) simp_all
    show ?case unfolding parsepipe.simps
    proof (intro okP_bind [OF P])
      fix c and s' :: string assume l: "length s' \<le> length s"
      show "okP (length s) (let (b, s) = peek s' ''|'' in if b then bindP (parsepipe n (behind s)) (\<lambda>r s. good (PIPE c r) s) else good c s)"
        using l length_skip [of s'] by (auto simp: peek_iff intro: okP_bind [OF R])
    qed
  next
    case 3
    have B: "okP (length s) (parseblock n (skip s))"
      using 3 length_skip [of s] by (intro okP_mono [OF Suc.IH(4)]) simp_all
    have R: "okP (length s) (parseredirs n [] (skip s))"
      using 3 length_skip [of s] by (intro okP_mono [OF okP_redirs]) simp_all
    have A: "okP (length s) (execargs n [] rs s')" if "length s' \<le> length s" for rs s'
      using that 3 by (intro okP_mono [OF okP_execargs]) simp_all
    show ?case using B okP_bind [OF R A] by (simp add: peek_iff)
  next
    case 4
    have P: "okP (length s) (parseline n (behind (skip s)))" if "skip s \<noteq> []"
      using that behind_skip [of s] 4 by (intro okP_mono [OF Suc.IH(1)]) simp_all
    have R: "okP (length s) (parseredirs n [] (behind (skip s')))" if "length s' \<le> length s" "skip s' \<noteq> []" for s'
      using that behind_skip [of s'] 4 by (intro okP_mono [OF okP_redirs]) simp_all
    show ?case using length_skip
      by (auto simp: peek_iff intro!: okP_bind [OF P] okP_bind [OF R])
  }
qed simp_all

section \<open>Printing and parsing\<close>

text \<open>
  A command written out again: the words of \<open>EXEC\<close>, and the other commands around parenthesised ones, which
  is how the line itself must be written for the parser to nest them.
\<close>

definition word :: "string \<Rightarrow> bool" where
  "word w = (w \<noteq> [] \<and> (\<forall>c\<in>set w. c \<notin> set whitespace \<and> c \<notin> set symbols))"

fun show_cmd :: "cmd \<Rightarrow> string" where
  "show_cmd (EXEC ws) = concat (map (\<lambda>w. w @ '' '') ws)"
| "show_cmd (REDIR c f m fd) = ''('' @ show_cmd c @ '')'' @ (if fd = 0 then ''<'' else ''>'') @ f @ '' ''"
| "show_cmd (PIPE l r) = ''('' @ show_cmd l @ '')|('' @ show_cmd r @ '')''"
| "show_cmd (LIST l r) = ''('' @ show_cmd l @ '');('' @ show_cmd r @ '')''"
| "show_cmd (BACK c) = ''('' @ show_cmd c @ '')&''"

text \<open>The commands the shell can run: at most \<open>MAXARGS - 1\<close> words, and the two modes a redirection can have.\<close>

fun wf_cmd :: "cmd \<Rightarrow> bool" where
  "wf_cmd (EXEC ws) = (length ws < MAXARGS \<and> list_all word ws)"
| "wf_cmd (REDIR c f m fd) = (wf_cmd c \<and> word f \<and> (m, fd) \<in> {(0x000, 0), (0x201, 1)})"
| "wf_cmd (PIPE l r) = (wf_cmd l \<and> wf_cmd r)"
| "wf_cmd (LIST l r) = (wf_cmd l \<and> wf_cmd r)"
| "wf_cmd (BACK c) = wf_cmd c"

abbreviation stops :: "string \<Rightarrow> string \<Rightarrow> bool" where
  "stops cs s \<equiv> s = [] \<or> hd s \<in> set cs"

lemma stops_skip: "stops ''|)&;(<>'' s \<Longrightarrow> skip s = s"
  by (cases s) (auto simp: whitespace_def)

lemma word_skip: "word w \<Longrightarrow> skip (w @ s) = w @ s"
  by (cases w) (auto simp: word_def)

lemma word_hd: "word w \<Longrightarrow> hd (w @ s) \<notin> set symbols"
  by (cases w) (auto simp: word_def)

lemma gettoken_word:
  assumes "word w"
  shows "gettoken (w @ '' '' @ s) = (CHR ''a'', w, skip s)"
proof -
  obtain c w' where w: "w = c # w'" using assms by (cases w) (auto simp: word_def)
  have c: "c \<notin> set symbols" using assms by (simp add: word_def w)
  have t: "takeWhile (\<lambda>c. c \<notin> set whitespace \<and> c \<notin> set symbols) (w @ '' '' @ s) = w"
    using assms by (subst takeWhile_append2) (auto simp: word_def whitespace_def)
  have d: "skip ('' '' @ s) = skip s" by (simp add: whitespace_def)
  have "c \<notin> set ''|();&<''" "c \<noteq> CHR ''>''" using c by (auto simp: symbols_def)
  moreover have "takeWhile (\<lambda>c. c \<notin> set whitespace \<and> c \<notin> set symbols) (c # (w' @ '' '' @ s)) = c # w'"
    using t unfolding w append_Cons .
  moreover have "drop (length (c # w')) (c # (w' @ '' '' @ s)) = '' '' @ s" by simp
  ultimately show ?thesis
    using word_skip [OF assms, of "'' '' @ s"] d unfolding gettoken_def w append_Cons
    by (simp only: Let_def list.case if_False simp_thms)
qed

lemma gettoken_symbol: "c \<in> set ''|();&<'' \<Longrightarrow> gettoken (c # s) = (c, [c], skip s)"
  by (auto simp: gettoken_def whitespace_def)

lemma gettoken_out: "word w \<Longrightarrow> gettoken (CHR ''>'' # w @ s) = (CHR ''>'', ''>'', w @ s)"
  using word_hd [of w s] word_skip [of w s]
  by (cases w) (auto simp: gettoken_def whitespace_def symbols_def word_def)

lemma parseredirs_stop:
  "0 < n \<Longrightarrow> skip s = s \<Longrightarrow> \<not> (s \<noteq> [] \<and> hd s \<in> set ''<>'') \<Longrightarrow> parseredirs n rs s = good rs s"
  by (cases n) (auto simp: peek_iff)

abbreviation words :: "string list \<Rightarrow> string" where
  "words ws \<equiv> concat (map (\<lambda>w. w @ '' '') ws)"

lemma words_skip: "list_all word ws \<Longrightarrow> stops '')'' r \<Longrightarrow> skip (words ws @ r) = words ws @ r"
  using stops_skip [of r] word_skip by (cases ws) auto

lemma words_hd: "list_all word ws \<Longrightarrow> ws \<noteq> [] \<Longrightarrow> words ws @ r \<noteq> [] \<and> hd (words ws @ r) \<notin> set symbols"
  using word_hd by (cases ws) (auto simp: word_def)

lemma words_no_redir:
  "list_all word ws \<Longrightarrow> stops '')'' r \<Longrightarrow> \<not> (words ws @ r \<noteq> [] \<and> hd (words ws @ r) \<in> set ''<>(;&|'')"
  using words_hd [of ws r] by (cases "ws = []") (auto simp: symbols_def)

lemma execargs_words:
  assumes "list_all word ws" "stops '')'' r" "length (args @ ws) < MAXARGS" "length ws < n"
  shows "execargs n args rs (words ws @ r) = good (foldl redircmd (EXEC (args @ ws)) rs) r"
  using assms
proof (induction ws arbitrary: n args)
  case Nil
  then obtain m where n: "n = Suc m" by (cases n) auto
  have k: "skip r = r" using Nil.prems(2) by (intro stops_skip) auto
  show ?case
    using Nil.prems(2) gettoken_Nil by (auto simp: n peek_iff k)
next
  case (Cons w ws)
  then obtain m where n: "n = Suc m" by (cases n) auto
  let ?s = "words ws @ r"
  have w: "word w" and ws: "list_all word ws" using Cons.prems by simp_all
  have s: "skip ?s = ?s" by (rule words_skip [OF ws Cons.prems(2)])
  have e: "words (w # ws) @ r = w @ '' '' @ ?s" by simp
  have k: "skip (w @ '' '' @ ?s) = w @ '' '' @ ?s" by (rule word_skip [OF w])
  have h: "hd (w @ '' '' @ ?s) \<notin> set ''|)&;''" using word_hd [OF w, of "'' '' @ ?s"] by (auto simp: symbols_def)
  have R: "parseredirs m rs ?s = good rs ?s"
    using Cons.prems(4) s words_no_redir [OF ws Cons.prems(2)] by (intro parseredirs_stop) (auto simp: n)
  have I: "execargs m (args @ [w]) rs ?s = good (foldl redircmd (EXEC ((args @ [w]) @ ws)) rs) r"
    using Cons.prems ws by (intro Cons.IH) (simp_all add: n)
  have M: "\<not> length (args @ [w]) \<ge> MAXARGS" using Cons.prems(3) by simp
  show ?case
    unfolding n e execargs.simps peek_iff k gettoken_word [OF w] s Let_def prod.case
    using h M by (simp add: R I)
qed

lemma show_skip: "wf_cmd c \<Longrightarrow> stops '')'' r \<Longrightarrow> skip (show_cmd c @ r) = show_cmd c @ r"
proof (cases c)
  case (EXEC ws)
  assume "wf_cmd c" "stops '')'' r"
  then show ?thesis using words_skip [of ws r] by (simp add: EXEC)
qed (auto simp: whitespace_def)

text \<open>What \<open>parseline\<close> does with a printed command; its length pays for the calls.\<close>

definition parsed :: "cmd \<Rightarrow> bool" where
  "parsed c = (\<forall>r n. stops '')'' r \<longrightarrow> 4 * length (show_cmd c @ r) + 4 \<le> n \<longrightarrow> parseline n (show_cmd c @ r) = good c r)"

lemma parseblock_parsed:
  assumes "wf_cmd c" "parsed c" "4 * length (''('' @ show_cmd c @ '')'' @ s) \<le> n"
  shows "parseexec (Suc (Suc n)) (''('' @ show_cmd c @ '')'' @ s) =
    bindP (parseredirs n [] (skip s)) (\<lambda>rs s. good (foldl redircmd c rs) s)"
proof -
  have k: "skip (show_cmd c @ '')'' @ s) = show_cmd c @ '')'' @ s" by (rule show_skip [OF assms(1)]) simp
  have p: "parseline n (show_cmd c @ '')'' @ s) = good c ('')'' @ s)"
    using assms(2,3) unfolding parsed_def by (simp del: append_assoc)
  have a: "skip (''('' @ x) = ''('' @ x" "skip ('')'' @ x) = '')'' @ x" for x :: string by (simp_all add: whitespace_def)
  have g: "gettoken (''('' @ x) = (CHR ''('', ''('', skip x)" "gettoken ('')'' @ x) = (CHR '')'', '')'', skip x)"
    for x by (simp_all add: gettoken_symbol)
  show ?thesis
    unfolding parseexec.simps parseblock.simps peek_iff a g k Let_def prod.case prod.sel p bindP_simps
    by simp
qed

lemma parseexec_unit:
  assumes "wf_cmd c" "parsed c" "stops ''|)&;'' s" "4 * length (''('' @ show_cmd c @ '')'' @ s) + 2 \<le> n"
  shows "parseexec n (''('' @ show_cmd c @ '')'' @ s) = good c s"
proof -
  obtain m where n: "n = Suc (Suc m)" "4 * length (''('' @ show_cmd c @ '')'' @ s) \<le> m"
    using assms(4) that [of "n - 2"] by simp
  have k: "skip s = s" using assms(3) by (intro stops_skip) auto
  have r: "parseredirs m [] s = good [] s" using n(2) k assms(3) by (intro parseredirs_stop) auto
  show ?thesis unfolding n(1) parseblock_parsed [OF assms(1,2) n(2)] k r by simp
qed

lemma parseexec_redir:
  assumes "wf_cmd (REDIR c f m fd)" "parsed c" "stops '')'' r" "4 * length (show_cmd (REDIR c f m fd) @ r) + 2 \<le> n"
  shows "parseexec n (show_cmd (REDIR c f m fd) @ r) = good (REDIR c f m fd) r"
proof -
  let ?q = "if fd = 0 then CHR ''<'' else CHR ''>''"
  let ?s = "?q # f @ '' '' @ r"
  have e: "show_cmd (REDIR c f m fd) @ r = ''('' @ show_cmd c @ '')'' @ ?s" by simp
  obtain j where n: "n = Suc (Suc j)" "4 * length (''('' @ show_cmd c @ '')'' @ ?s) \<le> j"
    using assms(4) that [of "n - 2"] unfolding e by simp
  then obtain i where j: "j = Suc (Suc i)" using that [of "j - 2"] by simp
  have f: "word f" and c: "wf_cmd c" using assms(1) by simp_all
  have k: "skip r = r" using assms(3) by (intro stops_skip) auto
  have q: "skip ?s = ?s" by (simp add: whitespace_def)
  have g: "gettoken ?s = (?q, [?q], f @ '' '' @ r)"
    using gettoken_symbol [of "CHR ''<''" "f @ '' '' @ r"] gettoken_out [OF f, of "'' '' @ r"] word_skip [OF f, of "'' '' @ r"]
    by (simp split: if_split)
  have S: "parseredirs (Suc i) rs r = good rs r" for rs using k assms(3) by (intro parseredirs_stop) auto
  have R: "parseredirs j [] ?s = good [(f, m, fd)] r"
    unfolding j parseredirs.simps(2) [of "Suc i"] peek_iff q Let_def prod.case g gettoken_word [OF f] k
    using assms(1) by (auto simp: S simp del: parseredirs.simps)
  show ?thesis unfolding e n(1) parseblock_parsed [OF c assms(2) n(2)] q R by (simp add: redircmd_def)
qed

lemma parsepipe_one: "parseexec n s = good c r \<Longrightarrow> stops ''&;)'' r \<Longrightarrow> parsepipe (Suc n) s = good c r"
  using stops_skip [of r] by (auto simp: peek_iff)

lemma parsebacks_none: "0 < n \<Longrightarrow> stops '';)'' r \<Longrightarrow> parsebacks n c r = good c r"
  using stops_skip [of r] by (cases n) (auto simp: peek_iff)

lemma parseline_one: "parsepipe n s = good c r \<Longrightarrow> 0 < n \<Longrightarrow> stops '')'' r \<Longrightarrow> parseline (Suc n) s = good c r"
  using stops_skip [of r] parsebacks_none [of n r c] by (auto simp: peek_iff)

lemma parsedI:
  assumes "\<And>r n. stops '')'' r \<Longrightarrow> 4 * length (show_cmd c @ r) + 2 \<le> n \<Longrightarrow> parseexec n (show_cmd c @ r) = good c r"
  shows "parsed c"
  unfolding parsed_def
proof (intro allI impI)
  fix r n
  assume r: "stops '')'' r" and n: "4 * length (show_cmd c @ r) + 4 \<le> n"
  obtain m where m: "n = Suc (Suc m)" "4 * length (show_cmd c @ r) + 2 \<le> m" using n that [of "n - 2"] by simp
  have "parsepipe (Suc m) (show_cmd c @ r) = good c r"
    by (rule parsepipe_one [OF assms [OF r m(2)]]) (use r in auto)
  then show "parseline n (show_cmd c @ r) = good c r" unfolding m(1) by (rule parseline_one) (use r in auto)
qed

lemma parsed_exec: "wf_cmd (EXEC ws) \<Longrightarrow> parsed (EXEC ws)"
proof (rule parsedI)
  fix r n
  assume wf: "wf_cmd (EXEC ws)" and r: "stops '')'' r" and n: "4 * length (show_cmd (EXEC ws) @ r) + 2 \<le> n"
  obtain m where m: "n = Suc m" using n that [of "n - 1"] by simp
  have w: "list_all word ws" "length ws < MAXARGS" using wf by simp_all
  have k: "skip (words ws @ r) = words ws @ r" by (rule words_skip [OF w(1) r])
  have h: "\<not> (words ws @ r \<noteq> [] \<and> hd (words ws @ r) \<in> set ''<>(;&|'')" by (rule words_no_redir [OF w(1) r])
  have R: "parseredirs m [] (words ws @ r) = good [] (words ws @ r)"
    using h n m by (intro parseredirs_stop k) auto
  have l: "length ws \<le> length (words ws)" by (induction ws) auto
  have E: "execargs m [] [] (words ws @ r) = good (EXEC ws) r"
    using execargs_words [OF w(1) r, of "[]" m "[]"] w(2) l n m by (cases ws) simp_all
  show "parseexec n (show_cmd (EXEC ws) @ r) = good (EXEC ws) r"
    unfolding m show_cmd.simps parseexec.simps peek_iff k Let_def prod.case R bindP_simps E using h by auto
qed

lemma parsed_pipe:
  assumes "wf_cmd a" "parsed a" "wf_cmd b" "parsed b"
  shows "parsed (PIPE a b)"
  unfolding parsed_def
proof (intro allI impI)
  fix r n
  assume r: "stops '')'' r" and n: "4 * length (show_cmd (PIPE a b) @ r) + 4 \<le> n"
  let ?b = "''('' @ show_cmd b @ '')'' @ r"
  have e: "show_cmd (PIPE a b) @ r = ''('' @ show_cmd a @ '')'' @ ''|'' @ ?b" by simp
  obtain m where m: "n = Suc (Suc (Suc m))" using n that [of "n - 3"] by simp
  have A: "parseexec (Suc m) (''('' @ show_cmd a @ '')'' @ ''|'' @ ?b) = good a (''|'' @ ?b)"
    using assms n m by (intro parseexec_unit) simp_all
  have B: "parsepipe (Suc m) ?b = good b r"
    using assms n m r by (intro parsepipe_one parseexec_unit) auto
  have k: "skip (''|'' @ ?b) = ''|'' @ ?b" "gettoken (''|'' @ ?b) = (CHR ''|'', ''|'', ?b)"
    by (simp_all add: whitespace_def gettoken_symbol)
  have "parsepipe (Suc (Suc m)) (show_cmd (PIPE a b) @ r) = good (PIPE a b) r"
    unfolding e parsepipe.simps(2) [of "Suc m"] A bindP_simps peek_iff k Let_def prod.case prod.sel B by simp
  then show "parseline n (show_cmd (PIPE a b) @ r) = good (PIPE a b) r"
    unfolding m by (rule parseline_one) (use r in auto)
qed

lemma parsed_list:
  assumes "wf_cmd a" "parsed a" "wf_cmd b" "parsed b"
  shows "parsed (LIST a b)"
  unfolding parsed_def
proof (intro allI impI)
  fix r n
  assume r: "stops '')'' r" and n: "4 * length (show_cmd (LIST a b) @ r) + 4 \<le> n"
  let ?b = "''('' @ show_cmd b @ '')'' @ r"
  have e: "show_cmd (LIST a b) @ r = ''('' @ show_cmd a @ '')'' @ '';'' @ ?b" by simp
  obtain m where m: "n = Suc (Suc (Suc m))" using n that [of "n - 3"] by simp
  have A: "parsepipe (Suc (Suc m)) (''('' @ show_cmd a @ '')'' @ '';'' @ ?b) = good a ('';'' @ ?b)"
    using assms n m by (intro parsepipe_one parseexec_unit) simp_all
  have N: "parsebacks (Suc (Suc m)) a ('';'' @ ?b) = good a ('';'' @ ?b)" by (rule parsebacks_none) simp_all
  have B: "parseline (Suc (Suc m)) ?b = good b r"
    using assms n m r by (intro parseline_one parsepipe_one parseexec_unit) auto
  have k: "skip ('';'' @ ?b) = '';'' @ ?b" "gettoken ('';'' @ ?b) = (CHR '';'', '';'', ?b)"
    by (simp_all add: whitespace_def gettoken_symbol)
  show "parseline n (show_cmd (LIST a b) @ r) = good (LIST a b) r"
    unfolding m e parseline.simps(2) [of "Suc (Suc m)"] A N bindP_simps peek_iff k Let_def prod.case prod.sel B by simp
qed

lemma parsed_back:
  assumes "wf_cmd c" "parsed c"
  shows "parsed (BACK c)"
  unfolding parsed_def
proof (intro allI impI)
  fix r n
  assume r: "stops '')'' r" and n: "4 * length (show_cmd (BACK c) @ r) + 4 \<le> n"
  have e: "show_cmd (BACK c) @ r = ''('' @ show_cmd c @ '')'' @ ''&'' @ r" by simp
  obtain m where m: "n = Suc (Suc (Suc m))" using n that [of "n - 3"] by simp
  have A: "parsepipe (Suc (Suc m)) (''('' @ show_cmd c @ '')'' @ ''&'' @ r) = good c (''&'' @ r)"
    using assms n m by (intro parsepipe_one parseexec_unit) simp_all
  have s: "skip r = r" using r by (intro stops_skip) auto
  have k: "skip (''&'' @ r) = ''&'' @ r" "gettoken (''&'' @ r) = (CHR ''&'', ''&'', r)"
    using s by (simp_all add: whitespace_def gettoken_symbol)
  have N: "parsebacks (Suc m) (BACK c) r = good (BACK c) r" using r by (intro parsebacks_none) auto
  have B: "parsebacks (Suc (Suc m)) c (''&'' @ r) = good (BACK c) r"
    unfolding parsebacks.simps(2) [of "Suc m"] peek_iff k Let_def prod.case prod.sel N by simp
  show "parseline n (show_cmd (BACK c) @ r) = good (BACK c) r"
    unfolding m e parseline.simps(2) [of "Suc (Suc m)"] A B bindP_simps peek_iff s Let_def prod.case
    using r by auto
qed

lemma parsed_wf: "wf_cmd c \<Longrightarrow> parsed c"
proof (induction c)
  case (REDIR c f m fd)
  then have "parsed c" by simp
  show ?case by (rule parsedI) (rule parseexec_redir [OF REDIR.prems \<open>parsed c\<close>])
qed (simp_all add: parsed_exec parsed_pipe parsed_list parsed_back)

lemma parsecmd_total: "parsecmd s \<noteq> None"
  using parser_total(1) [of s "4 * length s + 5"]
  by (auto simp: parsecmd_def okP_def split: option.splits sum.splits)

text \<open>
  C21: The shell's parser answers on every line, with a command or with one of its syntax errors, and it reads every
  command back that is written out with its words, its redirections and its parentheses.
\<close>

theorem parsecmd_correct:
  "parsecmd s \<noteq> None \<and> (wf_cmd c \<longrightarrow> parsecmd (show_cmd c) = Some (Inr c))"
proof (intro conjI impI parsecmd_total)
  assume "wf_cmd c"
  then have "parseline (4 * length (show_cmd c) + 5) (show_cmd c @ []) = good c []"
    using parsed_wf unfolding parsed_def by simp
  then show "parsecmd (show_cmd c) = Some (Inr c)" by (simp add: parsecmd_def peek_iff)
qed

theorem parsecmd_correct_witness:
  "parsecmd ''((ls x )|(wc ))>out '' =
     Some (Inr (REDIR (PIPE (EXEC [''ls'', ''x'']) (EXEC [''wc''])) ''out'' 0x201 1))"
  using parsecmd_correct [of "[]" "REDIR (PIPE (EXEC [''ls'', ''x'']) (EXEC [''wc''])) ''out'' 0x201 1"]
  by (simp add: word_def whitespace_def symbols_def MAXARGS_def)

end
