(* ===== verification/Grep.thy ===== *)
theory Grep
  imports Prelude
begin

text \<open>
  The search program grep.c: its matcher for patterns with the operators of the comment in its first
  line, and the loop that cuts the input into lines. Strings are without the null character that ends
  them. The input is the sequence of pieces that come in at its file descriptor; the output is the sequence of pieces
  that are written.
\<close>

section \<open>The matcher\<close>

function (sequential) matchhere :: "string \<Rightarrow> string \<Rightarrow> bool"
  and matchstar :: "char \<Rightarrow> string \<Rightarrow> string \<Rightarrow> bool" where
  "matchhere re tx =
     (case re of
        [] \<Rightarrow> True
      | c # re' \<Rightarrow>
          if re' \<noteq> [] \<and> hd re' = CHR ''*'' then matchstar c (tl re') tx
          else if c = CHR ''$'' \<and> re' = [] then tx = []
          else case tx of [] \<Rightarrow> False | d # tx' \<Rightarrow> if c = CHR ''.'' \<or> c = d then matchhere re' tx' else False)"
| "matchstar c re tx =
     (if matchhere re tx then True
      else case tx of [] \<Rightarrow> False | d # tx' \<Rightarrow> if d = c \<or> c = CHR ''.'' then matchstar c re tx' else False)"
  by pat_completeness auto
termination
  by (relation "measure (\<lambda>x. case x of Inl (re, tx) \<Rightarrow> 2 * (length re + length tx) | Inr (c, re, tx) \<Rightarrow> 2 * (length re + length tx) + 1)")
    auto

declare matchhere.simps [simp del] matchstar.simps [simp del]

fun match_from :: "string \<Rightarrow> string \<Rightarrow> bool" where
  "match_from re [] = matchhere re []"
| "match_from re (c # tx) = (if matchhere re (c # tx) then True else match_from re tx)"

definition match :: "string \<Rightarrow> string \<Rightarrow> bool" where
  "match re tx = (if re \<noteq> [] \<and> hd re = CHR ''^'' then matchhere (tl re) tx else match_from re tx)"

section \<open>The loop over the input\<close>

text \<open>
  The inner loop: the lines of the buffer from \<open>p\<close> on are tested and written, the rest is what comes after
  the last end of line. \<open>strchr\<close> stops at a null character.
\<close>

function grep_lines :: "string \<Rightarrow> string \<Rightarrow> string list \<times> string" where
  "grep_lines pattern p =
     (let line = takeWhile (\<lambda>c. c \<noteq> CHR 0x0A \<and> c \<noteq> CHR 0x00) p;
          rest = drop (length line) p
      in if rest \<noteq> [] \<and> hd rest = CHR 0x0A then
           let (out, q) = grep_lines pattern (tl rest)
           in (if match pattern line then (line @ [CHR 0x0A]) # out else out, q)
         else ([], p))"
  by pat_completeness auto
termination
proof (relation "measure (\<lambda>(pattern, p). length p)", goal_cases)
  case (2 pattern p line rest)
  then have "rest \<noteq> []" "length rest \<le> length p" by auto
  then show ?case by (cases rest) simp_all
qed simp

declare grep_lines.simps [simp del]

text \<open>
  A file descriptor is the sequence of pieces that come in; \<open>read\<close> returns at most as much of the first piece as it
  is asked for, and nothing at the end.
\<close>

fun read :: "nat \<Rightarrow> string list \<Rightarrow> string \<times> string list" where
  "read n [] = ([], [])"
| "read n (c # cs) = (take n c, if length c \<le> n then cs else drop n c # cs)"

definition BUFSIZE :: nat where "BUFSIZE = 1024"

lemma read_shorter: "fst (read n fd) \<noteq> [] \<Longrightarrow> length (concat (snd (read n fd))) < length (concat fd)"
  by (cases fd) auto

text \<open>\<open>buf\<close> is what is in the first \<open>m\<close> bytes of the buffer.\<close>

function grep_loop :: "string \<Rightarrow> string \<Rightarrow> string list \<Rightarrow> string list" where
  "grep_loop pattern buf fd =
     (let r = read (BUFSIZE - length buf - 1) fd
      in if fst r = [] then []
         else
           let buf = buf @ fst r; (out, p) = grep_lines pattern buf
           in out @ grep_loop pattern (if length p = length buf then [] else p) (snd r))"
  by pat_completeness auto
termination
  by (relation "measure (\<lambda>(pattern, buf, fd). length (concat fd))") (use read_shorter in auto)

declare grep_loop.simps [simp del]

definition grep :: "string \<Rightarrow> string list \<Rightarrow> string list" where
  "grep pattern fd = grep_loop pattern [] fd"

section \<open>What a pattern means\<close>

text \<open>
  A pattern is a sequence of items: a character or a dot, possibly starred. \<open>lang\<close> is the set of texts
  a sequence of items stands for.
\<close>

datatype item = One char | Star char

fun admits :: "char \<Rightarrow> char \<Rightarrow> bool" where
  "admits c d = (c = CHR ''.'' \<or> c = d)"

fun lang :: "item list \<Rightarrow> string set" where
  "lang [] = {[]}"
| "lang (One c # is) = {d # w | d w. admits c d \<and> w \<in> lang is}"
| "lang (Star c # is) = {v @ w | v w. list_all (admits c) v \<and> w \<in> lang is}"

text \<open>The items of a pattern without its anchors, and whether it ends with the anchor \<open>$\<close>.\<close>

fun items :: "string \<Rightarrow> item list \<times> bool" where
  "items [] = ([], False)"
| "items [c] = (if c = CHR ''$'' then ([], True) else ([One c], False))"
| "items (c # d # re) =
     (if d = CHR ''*'' then let (is, e) = items re in (Star c # is, e)
      else let (is, e) = items (d # re) in (One c # is, e))"

definition matches :: "string \<Rightarrow> string \<Rightarrow> bool" where
  "matches re tx \<longleftrightarrow>
     (let anchored = (re \<noteq> [] \<and> hd re = CHR ''^''); (is, e) = items (if anchored then tl re else re)
      in \<exists>pre mid post. tx = pre @ mid @ post \<and> mid \<in> lang is \<and> (anchored \<longrightarrow> pre = []) \<and> (e \<longrightarrow> post = []))"

section \<open>The matcher finds what the pattern means\<close>

lemma items_star: "re \<noteq> [] \<Longrightarrow> hd re = CHR ''*'' \<Longrightarrow> items (c # re) = (Star c # fst (items (tl re)), snd (items (tl re)))"
  by (cases re) (simp_all add: case_prod_beta)

lemma items_one:
  "\<not> (re \<noteq> [] \<and> hd re = CHR ''*'') \<Longrightarrow> \<not> (c = CHR ''$'' \<and> re = []) \<Longrightarrow> items (c # re) = (One c # fst (items re), snd (items re))"
  by (cases re) (auto simp: case_prod_beta)

text \<open>A prefix of the text is in the language, and it is all of the text when the pattern ends with its anchor.\<close>

definition prefix_in :: "item list \<Rightarrow> bool \<Rightarrow> string \<Rightarrow> bool" where
  "prefix_in is e tx \<longleftrightarrow> (\<exists>mid post. tx = mid @ post \<and> mid \<in> lang is \<and> (e \<longrightarrow> post = []))"

lemma prefix_in_Nil: "prefix_in [] e tx \<longleftrightarrow> (e \<longrightarrow> tx = [])"
  by (auto simp: prefix_in_def)

lemma prefix_in_One: "prefix_in (One c # is) e tx \<longleftrightarrow> (\<exists>d tx'. tx = d # tx' \<and> admits c d \<and> prefix_in is e tx')"
proof
  assume "prefix_in (One c # is) e tx"
  then obtain mid post where m: "tx = mid @ post" "mid \<in> lang (One c # is)" "e \<longrightarrow> post = []" unfolding prefix_in_def by blast
  then obtain d w where "mid = d # w" "admits c d" "w \<in> lang is" by auto
  then show "\<exists>d tx'. tx = d # tx' \<and> admits c d \<and> prefix_in is e tx'"
    using m unfolding prefix_in_def by (intro exI [of _ d] exI [of _ "w @ post"] conjI exI [of _ w] exI [of _ post]) simp_all
next
  assume "\<exists>d tx'. tx = d # tx' \<and> admits c d \<and> prefix_in is e tx'"
  then obtain d w post where "tx = (d # w) @ post" "admits c d" "w \<in> lang is" "e \<longrightarrow> post = []"
    unfolding prefix_in_def by auto
  then show "prefix_in (One c # is) e tx" unfolding prefix_in_def by (intro exI [of _ "d # w"] exI [of _ post]) simp
qed

lemma prefix_in_Star_iff:
  "prefix_in (Star c # is) e tx \<longleftrightarrow> (\<exists>v rest. tx = v @ rest \<and> list_all (admits c) v \<and> prefix_in is e rest)"
proof
  assume "prefix_in (Star c # is) e tx"
  then obtain mid post where m: "tx = mid @ post" "mid \<in> lang (Star c # is)" "e \<longrightarrow> post = []" unfolding prefix_in_def by blast
  then obtain v w where "mid = v @ w" "list_all (admits c) v" "w \<in> lang is" by auto
  with m have "tx = (v @ w) @ post" "list_all (admits c) v" "w \<in> lang is" "e \<longrightarrow> post = []" by simp_all
  then show "\<exists>v rest. tx = v @ rest \<and> list_all (admits c) v \<and> prefix_in is e rest"
    unfolding prefix_in_def by (intro exI [of _ v] exI [of _ "w @ post"]) auto
next
  assume "\<exists>v rest. tx = v @ rest \<and> list_all (admits c) v \<and> prefix_in is e rest"
  then obtain v w post where "tx = v @ w @ post" "list_all (admits c) v" "w \<in> lang is" "e \<longrightarrow> post = []"
    unfolding prefix_in_def by auto
  then show "prefix_in (Star c # is) e tx"
    unfolding prefix_in_def by (intro exI [of _ "v @ w"] exI [of _ post]) auto
qed

lemma prefix_in_Star:
  "prefix_in (Star c # is) e tx \<longleftrightarrow> prefix_in is e tx \<or> (\<exists>d tx'. tx = d # tx' \<and> admits c d \<and> prefix_in (Star c # is) e tx')"
proof
  assume "prefix_in (Star c # is) e tx"
  then obtain v rest where v: "tx = v @ rest" "list_all (admits c) v" "prefix_in is e rest" unfolding prefix_in_Star_iff by auto
  then show "prefix_in is e tx \<or> (\<exists>d tx'. tx = d # tx' \<and> admits c d \<and> prefix_in (Star c # is) e tx')"
    by (cases v) (auto simp: prefix_in_Star_iff)
next
  assume a: "prefix_in is e tx \<or> (\<exists>d tx'. tx = d # tx' \<and> admits c d \<and> prefix_in (Star c # is) e tx')"
  show "prefix_in (Star c # is) e tx"
  proof (cases "prefix_in is e tx")
    case True
    then show ?thesis unfolding prefix_in_Star_iff by (intro exI [of _ "[]"] exI [of _ tx]) simp
  next
    case False
    then obtain d v rest where "tx = (d # v) @ rest" "list_all (admits c) (d # v)" "prefix_in is e rest"
      using a unfolding prefix_in_Star_iff by auto
    then show ?thesis unfolding prefix_in_Star_iff by (intro exI conjI)
  qed
qed

lemma matchhere_correct:
  "matchhere re tx \<longleftrightarrow> prefix_in (fst (items re)) (snd (items re)) tx"
  "matchstar c re tx \<longleftrightarrow> prefix_in (Star c # fst (items re)) (snd (items re)) tx"
proof (induction re tx and c re tx rule: matchhere_matchstar.induct)
  case (1 re tx)
  show ?case
  proof (cases re)
    case Nil
    then show ?thesis by (simp add: matchhere.simps prefix_in_Nil)
  next
    case (Cons c re')
    show ?thesis
    proof (cases "re' \<noteq> [] \<and> hd re' = CHR ''*''")
      case True
      then show ?thesis using 1(1) [OF Cons True] by (subst matchhere.simps) (simp add: Cons items_star)
    next
      case star: False
      show ?thesis
      proof (cases "c = CHR ''$'' \<and> re' = []")
        case True
        then show ?thesis by (simp add: Cons matchhere.simps prefix_in_Nil)
      next
        case False
        then show ?thesis using 1(2) [OF Cons star False] star
          by (subst matchhere.simps) (auto simp: Cons items_one [OF star False] prefix_in_One split: list.split)
      qed
    qed
  qed
next
  case (2 c re tx)
  then show ?case by (subst matchstar.simps, subst prefix_in_Star) (auto split: list.split)
qed

lemma match_from_iff: "match_from re tx \<longleftrightarrow> (\<exists>pre rest. tx = pre @ rest \<and> matchhere re rest)"
proof (induction tx)
  case Nil
  then show ?case by simp
next
  case (Cons c tx)
  have "(\<exists>pre rest. c # tx = pre @ rest \<and> matchhere re rest) \<longleftrightarrow> matchhere re (c # tx) \<or> (\<exists>pre rest. tx = pre @ rest \<and> matchhere re rest)"
    by (auto simp: Cons_eq_append_conv)
  then show ?case using Cons by simp
qed

section \<open>The lines of the input\<close>

abbreviation newline :: char where
  "newline \<equiv> CHR 0x0A"

definition line :: "string \<Rightarrow> bool" where
  "line l = (newline \<notin> set l \<and> CHR 0x00 \<notin> set l)"

abbreviation unlines :: "string list \<Rightarrow> string" where
  "unlines ls \<equiv> concat (map (\<lambda>l. l @ [newline]) ls)"

lemma grep_lines_Nil: "grep_lines pattern [] = ([], [])"
  by (simp add: grep_lines.simps)

lemma grep_lines_Cons:
  assumes "line l"
  shows "grep_lines pattern (l @ [newline] @ p) =
    (let (out, q) = grep_lines pattern p in (if match pattern l then (l @ [newline]) # out else out, q))"
proof -
  have "takeWhile (\<lambda>c. c \<noteq> CHR 0x0A \<and> c \<noteq> CHR 0x00) (l @ [newline] @ p) = l"
    using assms by (subst takeWhile_append2) (auto simp: line_def)
  then show ?thesis by (subst grep_lines.simps) simp
qed

lemma grep_lines_unlines:
  "list_all line ls \<Longrightarrow> grep_lines pattern (unlines ls) = (map (\<lambda>l. l @ [newline]) (filter (match pattern) ls), [])"
  by (induction ls) (simp_all add: grep_lines_Nil grep_lines_Cons [simplified])

lemma grep_lines_partial: "newline \<notin> set p \<Longrightarrow> grep_lines pattern p = ([], p)"
proof -
  let ?l = "takeWhile (\<lambda>c. c \<noteq> CHR 0x0A \<and> c \<noteq> CHR 0x00) p"
  assume "newline \<notin> set p"
  then have "\<not> (drop (length ?l) p \<noteq> [] \<and> hd (drop (length ?l) p) = CHR 0x0A)"
    by (metis dropWhile_eq_drop list.set_sel(1) set_dropWhileD)
  then show ?thesis by (subst grep_lines.simps) (simp only: Let_def if_False simp_thms)
qed

definition fits :: "string \<Rightarrow> bool" where
  "fits c = (c \<noteq> [] \<and> length c < BUFSIZE)"

lemma grep_loop_fits:
  "fits c \<Longrightarrow> grep_loop pattern [] (c # fd) =
    fst (grep_lines pattern c) @
    grep_loop pattern (if length (snd (grep_lines pattern c)) = length c then [] else snd (grep_lines pattern c)) fd"
proof -
  assume c: "fits c"
  then have r: "read (BUFSIZE - length [] - 1) (c # fd) = (c, fd)" by (auto simp: fits_def BUFSIZE_def)
  show ?thesis
    using c unfolding grep_loop.simps [of pattern "[]" "c # fd"] r by (simp add: fits_def Let_def case_prod_beta)
qed

lemma grep_loop_unlines:
  "list_all (\<lambda>ls. list_all line ls \<and> fits (unlines ls)) lss \<Longrightarrow>
   grep_loop pattern [] (map unlines lss) = map (\<lambda>l. l @ [newline]) (filter (match pattern) (concat lss))"
proof (induction lss)
  case Nil
  show ?case by (simp add: grep_loop.simps)
next
  case (Cons ls lss)
  then show ?case by (simp add: grep_loop_fits grep_lines_unlines)
qed

section \<open>Properties\<close>

lemma match_matches: "match re tx = matches re tx"
proof -
  define re' where "re' = (if re \<noteq> [] \<and> hd re = CHR ''^'' then tl re else re)"
  have m: "matches re tx \<longleftrightarrow> (\<exists>pre rest. tx = pre @ rest \<and> prefix_in (fst (items re')) (snd (items re')) rest \<and>
      (re \<noteq> [] \<and> hd re = CHR ''^'' \<longrightarrow> pre = []))"
    unfolding matches_def Let_def re'_def [symmetric] prefix_in_def case_prod_beta by blast
  show ?thesis
  proof (cases "re \<noteq> [] \<and> hd re = CHR ''^''")
    case True
    then show ?thesis unfolding m by (simp add: match_def matchhere_correct re'_def)
  next
    case False
    then have "re' = re" unfolding re'_def by (rule if_not_P)
    then show ?thesis unfolding m using False by (auto simp: match_def match_from_iff matchhere_correct)
  qed
qed

text \<open>
  C34: the matcher of \<open>grep\<close> decides what its patterns mean: \<open>match\<close> succeeds exactly when some part of the text
  consists of characters that the items of the pattern admit one after the other, a starred item admitting any number,
  with nothing in front of it when the pattern begins with \<open>^\<close> and nothing behind it when it ends with \<open>$\<close>.
\<close>

theorem match_correct: "match re tx = matches re tx"
  by (rule match_matches)

text \<open>
  C35: when the pieces of the input end with lines, \<open>grep\<close> writes exactly the lines that match, in their order.
  But a line that \<open>read\<close> returns in two pieces is lost: when a piece that does not contain the end of a line comes in while
  the buffer is empty, \<open>grep\<close> forgets it, because it cannot tell it from a line that is too long for the buffer; the
  rest of the line is then taken for a whole line.
\<close>

theorem grep_correct:
  "(list_all (\<lambda>ls. list_all line ls \<and> fits (unlines ls)) lss \<longrightarrow>
     grep pattern (map unlines lss) = map (\<lambda>l. l @ [CHR 0x0A]) (filter (matches pattern) (concat lss))) \<and>
   (fits piece \<and> CHR 0x0A \<notin> set piece \<longrightarrow> grep pattern (piece # pieces) = grep pattern pieces)"
proof (intro conjI impI)
  assume "list_all (\<lambda>ls. list_all line ls \<and> fits (unlines ls)) lss"
  then show "grep pattern (map unlines lss) = map (\<lambda>l. l @ [CHR 0x0A]) (filter (matches pattern) (concat lss))"
    unfolding grep_def by (simp add: grep_loop_unlines match_matches [abs_def])
next
  assume "fits piece \<and> CHR 0x0A \<notin> set piece"
  then show "grep pattern (piece # pieces) = grep pattern pieces"
    by (simp add: grep_def grep_loop_fits grep_lines_partial)
qed

theorem grep_correct_witness:
  "grep ''ab'' [''xab'', ''y'' @ [CHR 0x0A]] = grep ''ab'' [''y'' @ [CHR 0x0A]] \<and>
   grep ''ab'' [''xaby'' @ [CHR 0x0A]] = map (\<lambda>l. l @ [CHR 0x0A]) (filter (matches ''ab'') [''xaby''])"
  using grep_correct [of "[[''xaby'']]" "''ab''" "''xab''" "[''y'' @ [CHR 0x0A]]"]
  by (simp add: fits_def line_def BUFSIZE_def)

end
