(* ===== verification/Spec2Isabelle.thy ===== *)
theory Spec2Isabelle
  imports Content Typing Kbd Spinlock Sh Grep
begin

text \<open>
  Verification of the xv6 kernel of this repository (xv6/*.c and *.h under src), a small Unix for the x86 in C, with
  four process schedulers and the system calls \<open>chprty\<close>, \<open>cps\<close>, \<open>waitx\<close> and \<open>getpinfo\<close> added to it, and of two of
  its user programs.

  \<^bold>\<open>The program.\<close> A trap (trap.c) enters the kernel: an interrupt of the clock, the disk, the keyboard or the
  serial port, a fault, or a system call. System calls are dispatched by number (syscall.c) to the functions of
  sysproc.c and sysfile.c, which check their arguments in user memory and call the process table (proc.c), open
  files and pipes (file.c, pipe.c), exec.c and the file system (fs.c). The file system works in transactions on
  the log (log.c) above the buffer cache (bio.c) above the disk (memide.c). All memory comes from the page
  allocator (kalloc.c) and is mapped by page tables (vm.c). A process that waits, or whose time is over, calls
  \<open>sched\<close>, and a scheduler of proc.c picks the next one.

  \<^bold>\<open>The state.\<close> The kernel's variables are a tower of extensible records, each component adding its own fields to
  those of the components below it: the held locks (\<open>kbase\<close>, Prelude), memory and free list (\<open>kmem\<close>), console output
  (\<open>kcons\<close>), process table, queues and statistics (\<open>kproc\<close>), sleep locks (\<open>ksleep\<close>), buffers and disk (\<open>kbio\<close>), log
  (\<open>klog\<close>), inodes (\<open>kinode\<close>), console input (\<open>kinput\<close>), devices (\<open>kdev\<close>), open files and pipes (\<open>kfile\<close>). A function
  of a lower component is polymorphic in the rest of the record, so its theorems hold in every higher state. Pointers
  into C arrays are indices; pointers into pages are 32-bit addresses; C integers are words where they can wrap.

  \<^bold>\<open>Functions.\<close> A C function is a HOL function on the state with the source's name. Its result is a value and a state
  (\<open>Ret\<close>), the message of \<open>panic\<close> (\<open>Panic\<close>), a memory fault (\<open>Fault\<close>), or the state in which it calls \<open>swtch\<close> and gives up the CPU
  (\<open>Swtch\<close>); the code behind that point is a function of its own whose name ends in \<open>_resume\<close>. \<open>bindK\<close> sequences
  statements.

  \<^bold>\<open>Theories.\<close>
  \<^item> Prelude: C types, outcomes and their combinators, \<open>acquire\<close> and \<open>release\<close> as one CPU sees them.
  \<^item> Cstring: string.c and the string instructions of x86.h. Copying with overlap, filling, bounded copies.
  \<^item> Kalloc: kalloc.c. The free list is a stack of pages threaded through them (locale \<open>page_allocator\<close>, interpreted
    on \<open>kalloc\<close> and \<open>kfree\<close>); \<open>freerange\<close> frees exactly the whole pages of its range.
  \<^item> Vm, User: vm.c, and the argument checks of syscall.c through the page table of the process. Accepted pointers
    and strings lie in the memory of the process.
  \<^item> Kprint, Console, Kbd: console.c, kbd.c and kbd.h. Number printing in its buffer, the cursor on the screen, the line
    editor, the key tables.
  \<^item> Proc, Sched, Mlfq, Procops: proc.c. Creating, sleeping, waking, killing, reaping; round robin, priority,
    first-come and multi-level feedback schedulers; \<open>fork\<close>, \<open>exit\<close> and the first process. Sched has the kernel as a step
    relation between switches, with an invariant of all reachable states.
  \<^item> Bio, Log: sleeplock.c, memide.c, bio.c, log.c. The cache refines the array of disk blocks; a transaction is
    durable and atomic under a crash at any write, during commit and during recovery.
  \<^item> Inode, Fs, Content: fs.c. The block allocator and inodes; contents, directories, paths; a file refines a
    sequence of bytes.
  \<^item> Ring, File: file.c and pipe.c. Bounded queues over wrapping counters (locale \<open>bounded_queue\<close>, interpreted on pipes).
  \<^item> Exec, Sysfile, Syscall, Trap: exec.c, sysfile.c, sysproc.c, syscall.c, trap.c.
  \<^item> Typing: every trap and every continuation keeps all indices of the state inside their tables.
  \<^item> Spinlock: spinlock.c on any number of CPUs, one memory access at a time. Mutual exclusion, and a refinement to
    the \<open>acquire\<close> and \<open>release\<close> of Prelude.
  \<^item> Sh: the parser of the shell sh.c, with a round trip to a printer of commands.
  \<^item> Grep: grep.c. The matcher decides the language of its patterns; the loop writes the lines that match.

  \<^bold>\<open>Loops.\<close> Loops over a counter or a table are recursion on it and end by definition. Two loops that the source does
  not bound, \<open>strlen_loop\<close> (a string without end) and \<open>fcfs_from\<close> (a scan that can go back), are partial functions
  into option: \<open>None\<close> is not returning, and that they return, or for the scan that it can run for ever, is proved. The loops that wait
  for an event are cut where the process sleeps, and the \<open>_resume\<close> function is one more turn. The parser of Sh
  counts calls down from \<open>4 * length s + 5\<close>: every call chain uses at most four calls per character that is read, and
  \<open>parser_total\<close> proves that the count is always enough.

  \<^bold>\<open>Concurrency.\<close> Outside Spinlock a kernel function runs on one CPU from one switch to the next. This is what the locks
  guarantee for the state they guard; other CPUs appear as running entries of the process table where the schedulers
  look at them.

  \<^bold>\<open>What is assumed.\<close> Memory behaves as an array of bytes and the disk as an array of blocks written one at a time; the
  file system theorems take the layout that mkfs produces (\<open>fs_layout\<close>) as a hypothesis; in Grep a file descriptor is the sequence of pieces
  that come in.

  \<^bold>\<open>Not modelled.\<close>
  \<^item> The assembly files (bootasm.S, entry.S, entryother.S, initcode.S, swtch.S, trapasm.S, vectors.S, usys.S): they
    switch modes, stacks and registers, which the model does not have.
  \<^item> Device set-up: lapic.c, ioapic.c, picirq.c, mp.c, uart.c apart from its interrupt entry, and the IDE driver ide.c.
    They read and write device registers; what follows depends on the hardware. Also \<open>seginit\<close>, \<open>kvmalloc\<close>,
    \<open>tvinit\<close> and \<open>idtinit\<close>, which load CPU tables.
  \<^item> main.c and bootmain.c: the order of initialisation. The initialisations themselves are modelled where they
    build kernel data.
  \<^item> mkfs.c, a program of the host.
  \<^item> The user library (umalloc.c, printf.c, ulib.c) and the other user programs and tests, among them usertests.c: they use the kernel
    through system calls and are not part of it. Of sh.c, \<open>runcmd\<close>, \<open>getcmd\<close> and \<open>main\<close>; of grep.c, \<open>main\<close>.
\<close>

end
